theory Spec2Isabelle
  imports Main "HOL-Library.Word" "HOL-Library.Monad_Syntax"
begin

unbundle bit_operations_syntax

section \<open>Platform constants (constants.h)\<close>

text \<open>
  Sizes and counts that the code only compares with container sizes are natural numbers;
  addresses, cycle counts and bit masks are 64-bit words, as \<^verbatim>\<open>uint64_t\<close> is.
\<close>

definition CACHE_LINE_SIZE :: nat where "CACHE_LINE_SIZE = 64"
definition LLC_BANKS :: nat where "LLC_BANKS = 12"
definition WAYS_PER_BANK :: nat where "WAYS_PER_BANK = 20"
definition SETS_PER_BANK :: "64 word" where "SETS_PER_BANK = 2048"
definition SET_INDEX_BITS :: "64 word" where "SET_INDEX_BITS = 0x1FFC0"
definition CACHE_LINE_BITS :: "64 word" where "CACHE_LINE_BITS = 0x3F"
definition NUM_SET_INDEX_BITS :: nat where "NUM_SET_INDEX_BITS = 11"
definition NUM_CACHE_LINE_BITS :: nat where "NUM_CACHE_LINE_BITS = 6"
definition ARRAY_SIZE :: nat where "ARRAY_SIZE = 64 * (1024 * 1024)"
definition ARRAY_ENTRIES :: nat where "ARRAY_ENTRIES = ARRAY_SIZE div CACHE_LINE_SIZE"
definition LLC_CYCLE_THRESHOLD :: "64 word" where "LLC_CYCLE_THRESHOLD = 100"
definition CONFLICT_SET_SIZE :: nat where "CONFLICT_SET_SIZE = LLC_BANKS * WAYS_PER_BANK"

section \<open>Nodes, memory and the environment\<close>

text \<open>
  A \<^verbatim>\<open>Node*\<close> into the backing array is the index \<open>i\<close> of \<^verbatim>\<open>array[i]\<close>; its address is
  \<open>array + 64 * i\<close> (\<^verbatim>\<open>sizeof(Node)\<close> is one cache line). The memory holds the two link
  fields of every node, one map per field. The padding words are read only into the
  \<^verbatim>\<open>garbage\<close> accumulator, which nothing depends on, and are left out.
\<close>

record heap =
  next_of :: "nat \<Rightarrow> nat"
  prev_of :: "nat \<Rightarrow> nat"

definition set_next :: "heap \<Rightarrow> nat \<Rightarrow> nat \<Rightarrow> heap" where
  "set_next h p q = h\<lparr>next_of := (next_of h)(p := q)\<rparr>"

definition set_prev :: "heap \<Rightarrow> nat \<Rightarrow> nat \<Rightarrow> heap" where
  "set_prev h p q = h\<lparr>prev_of := (prev_of h)(p := q)\<rparr>"

definition node_address :: "64 word \<Rightarrow> nat \<Rightarrow> 64 word" where
  "node_address array i = array + 64 * of_nat i"

text \<open>
  Every \<^verbatim>\<open>__rdtsc() - time\<close> the program computes is a reading of the hardware. The
  readings are an input: \<open>tm k\<close> is the \<open>k\<close>-th elapsed-cycles value the run observes, and
  every function that measures time takes the number \<open>k\<close> of readings consumed so far and
  returns the new count.
\<close>

type_synonym timer = "nat \<Rightarrow> 64 word"

text \<open>A failed \<^verbatim>\<open>assert\<close> aborts the process; each assertion of the source has a tag.\<close>

datatype sanity_check = CandidateOracle | ConflictOracle | EvictionOracle

datatype abort =
    ArrayNotNull
  | SetIndexOutOfRange
  | NodeMisaligned
  | InsufficientCandidates
  | ChainSizeMismatch
  | SeedSizeMismatch
  | LeftoverSizeMismatch
  | ConflictSizeMismatch
  | CandidatesExhausted
  | EvictionSetSizeMismatch
  | EvictionSetsOverlap
  | SanityOracleFailed sanity_check

text \<open>
  A computation that may abort and may run forever: \<open>None\<close> is a run that never returns,
  \<open>Some (Inl a)\<close> a failed assertion, \<open>Some (Inr x)\<close> a normal return.
\<close>

definition bindr :: "(abort + 'a) option \<Rightarrow> ('a \<Rightarrow> (abort + 'b) option) \<Rightarrow> (abort + 'b) option" where
  "bindr m f = (case m of None \<Rightarrow> None | Some (Inl e) \<Rightarrow> Some (Inl e) | Some (Inr x) \<Rightarrow> f x)"

text \<open>
  A \<^verbatim>\<open>std::set<Node*>\<close> is a strictly ascending list: \<^verbatim>\<open>begin()\<close> is its head, iteration
  runs through it in order, \<^verbatim>\<open>size()\<close> is its length.
\<close>

definition set_insert :: "nat \<Rightarrow> nat list \<Rightarrow> nat list" where
  "set_insert x xs = (if x \<in> set xs then xs else insort x xs)"

section \<open>SizeOfLinkedList\<close>

partial_function (option) SizeOfLinkedList_loop :: "heap \<Rightarrow> nat \<Rightarrow> nat \<Rightarrow> nat \<Rightarrow> nat option" where
  "SizeOfLinkedList_loop h head node sz =
     (if node \<noteq> head then SizeOfLinkedList_loop h head (next_of h node) (sz + 1)
      else Some sz)"

definition SizeOfLinkedList :: "heap \<Rightarrow> nat \<Rightarrow> nat option" where
  "SizeOfLinkedList h node =
     (if node = next_of h node then Some 1
      else SizeOfLinkedList_loop h node (next_of h node) 1)"

section \<open>Sanity oracles\<close>

definition SanityCheckCandidates :: "timer \<Rightarrow> nat \<Rightarrow> abort + nat" where
  "SanityCheckCandidates tm k =
     (let iterations = 100000 * of_nat LLC_BANKS * of_nat WAYS_PER_BANK;
          time = tm k div iterations
      in if \<not> 165 \<le> time then Inl (SanityOracleFailed CandidateOracle)
         else if \<not> time \<le> 190 then Inl (SanityOracleFailed CandidateOracle)
         else Inr (k + 1))"

definition SanityCheckConflictSet :: "timer \<Rightarrow> nat \<Rightarrow> abort + nat" where
  "SanityCheckConflictSet tm k =
     (let iterations = 10000 * of_nat LLC_BANKS * of_nat WAYS_PER_BANK;
          time = tm k div iterations
      in if \<not> (30 < time \<and> time < 50) then Inl (SanityOracleFailed ConflictOracle)
         else Inr (k + 1))"

partial_function (option) collect_ring ::
  "heap \<Rightarrow> nat \<Rightarrow> nat \<Rightarrow> nat list \<Rightarrow> nat \<Rightarrow> (nat list \<times> nat) option" where
  "collect_ring h head node allNodes evictionSetSize =
     (if node \<noteq> head
      then collect_ring h head (next_of h node) (set_insert node allNodes) (evictionSetSize + 1)
      else Some (allNodes, evictionSetSize))"

fun check_sizes :: "heap \<Rightarrow> nat list \<Rightarrow> nat list \<Rightarrow> (abort + nat list) option" where
  "check_sizes h [] allNodes = Some (Inr allNodes)"
| "check_sizes h (head # heads) allNodes =
     do { (allNodes', evictionSetSize) \<leftarrow>
            collect_ring h head (next_of h head) (set_insert head allNodes) 1;
          if evictionSetSize \<noteq> WAYS_PER_BANK then Some (Inl EvictionSetSizeMismatch)
          else check_sizes h heads allNodes' }"

fun check_times :: "timer \<Rightarrow> nat \<Rightarrow> nat list \<Rightarrow> abort + nat" where
  "check_times tm k [] = Inr k"
| "check_times tm k (head # heads) =
     (let iterations = 10000 * of_nat LLC_BANKS * of_nat WAYS_PER_BANK;
          time = tm k div iterations
      in if \<not> (25 < time \<and> time < 55) then Inl (SanityOracleFailed EvictionOracle)
         else check_times tm (k + 1) heads)"

definition SanityCheckEvictionSets :: "timer \<Rightarrow> nat \<Rightarrow> heap \<Rightarrow> nat list \<Rightarrow> (abort + nat) option" where
  "SanityCheckEvictionSets tm k h evictionSetHeads =
     bindr (check_sizes h evictionSetHeads []) (\<lambda>allNodes.
       if length allNodes \<noteq> CONFLICT_SET_SIZE then Some (Inl EvictionSetsOverlap)
       else Some (check_times tm k evictionSetHeads))"

section \<open>FindCandidates\<close>

function FindCandidates_loop :: "64 word \<Rightarrow> 64 word \<Rightarrow> nat \<Rightarrow> nat list \<Rightarrow> abort + nat list" where
  "FindCandidates_loop array setIndex i candidates =
     (if i < ARRAY_ENTRIES then
        (let address = node_address array i
         in if address AND CACHE_LINE_BITS \<noteq> 0 then Inl NodeMisaligned
            else FindCandidates_loop array setIndex (i + 1)
                   (if address AND SET_INDEX_BITS = push_bit NUM_CACHE_LINE_BITS setIndex
                    then set_insert i candidates else candidates))
      else Inr candidates)"
  by pat_completeness auto
termination
  by (relation "measure (\<lambda>(array, setIndex, i, candidates). ARRAY_ENTRIES - i)") auto

declare FindCandidates_loop.simps [simp del]

definition FindCandidates :: "64 word \<Rightarrow> 64 word \<Rightarrow> abort + nat list" where
  "FindCandidates array setIndex = FindCandidates_loop array setIndex 0 []"

section \<open>RandomizeLinkedList\<close>

text \<open>
  \<open>shuffle n\<close> is the vector \<^verbatim>\<open>permutation\<close> of size \<open>n\<close> as \<^verbatim>\<open>std::random_shuffle\<close> leaves it
  after \<^verbatim>\<open>srand(0)\<close>: some rearrangement of \<open>0, \<dots>, n - 1\<close>, fixed by the C library. A
  \<^verbatim>\<open>std::map\<close> read with \<^verbatim>\<open>operator[]\<close> gives 0 for a key that was never stored.
\<close>

definition make_dictionary :: "nat list \<Rightarrow> nat \<Rightarrow> nat \<Rightarrow> nat" where
  "make_dictionary permutation n =
     fold (\<lambda>i dictionary. dictionary(permutation ! i := i)) [0..<n] (\<lambda>_. 0)"

definition link_pair :: "nat list \<Rightarrow> (nat \<Rightarrow> nat) \<Rightarrow> nat \<Rightarrow> nat \<Rightarrow> heap \<Rightarrow> heap" where
  "link_pair candidateList dictionary n i h =
     (let startIndex = dictionary i;
          endIndex = dictionary ((i + 1) mod n);
          startNode = candidateList ! startIndex;
          endNode = candidateList ! endIndex
      in set_prev (set_next h startNode endNode) endNode startNode)"

definition RandomizeLinkedList :: "heap \<Rightarrow> nat list \<Rightarrow> (nat \<Rightarrow> nat list) \<Rightarrow> heap" where
  "RandomizeLinkedList h candidates shuffle =
     (let candidateList = candidates;
          n = length candidateList;
          permutation = shuffle n;
          dictionary = make_dictionary permutation n
      in fold (link_pair candidateList dictionary n) [0..<n] h)"

section \<open>Probe\<close>

text \<open>
  The two traversals of the ring and the two reads of the candidate change the cache, not
  the memory; what the function returns is decided by the measured re-read latency alone.
  An implausible reading repeats the whole attempt.
\<close>

partial_function (option) Probe_loop :: "timer \<Rightarrow> nat \<Rightarrow> 64 word \<Rightarrow> (64 word \<times> nat) option" where
  "Probe_loop tm k time =
     (if time < 20 \<or> time > 200 then Probe_loop tm (k + 1) (tm k)
      else Some (time, k))"

definition Probe :: "timer \<Rightarrow> nat \<Rightarrow> heap \<Rightarrow> nat \<Rightarrow> nat \<Rightarrow> (bool \<times> nat) option" where
  "Probe tm k h setStartNode candidate =
     do { (time, k') \<leftarrow> Probe_loop tm k 0;
          Some (time > LLC_CYCLE_THRESHOLD, k') }"

section \<open>GetEvictionSet: conflict-set construction\<close>

text \<open>Lines 387--400: the first \<^verbatim>\<open>WAYS_PER_BANK\<close> nodes of the chain become the conflict ring.\<close>

definition seed_conflict_set :: "heap \<Rightarrow> nat \<Rightarrow> heap \<times> nat \<times> nat" where
  "seed_conflict_set h first =
     (let conflictSetHead = first;
          candidateSetHead = (next_of h ^^ WAYS_PER_BANK) conflictSetHead;
          conflictSetTail = prev_of h candidateSetHead;
          candidateSetTail = prev_of h conflictSetHead;
          h = set_prev h candidateSetHead candidateSetTail;
          h = set_next h candidateSetTail candidateSetHead;
          h = set_prev h conflictSetHead conflictSetTail;
          h = set_next h conflictSetTail conflictSetHead
      in (h, conflictSetHead, candidateSetHead))"

text \<open>Lines 416--419: ten probes whose results are thrown away.\<close>

fun warmup :: "timer \<Rightarrow> nat \<Rightarrow> heap \<Rightarrow> nat \<Rightarrow> nat \<Rightarrow> nat \<Rightarrow> nat option" where
  "warmup tm k h conflictSetHead candidate 0 = Some k"
| "warmup tm k h conflictSetHead candidate (Suc n) =
     do { (missToDRAM, k') \<leftarrow> Probe tm k h conflictSetHead candidate;
          warmup tm k' h conflictSetHead candidate n }"

text \<open>Lines 430--449: the body of the branch that admits \<^verbatim>\<open>candidate\<close> to the conflict ring.\<close>

definition move_to_conflict_set :: "heap \<Rightarrow> nat \<Rightarrow> nat \<Rightarrow> nat \<Rightarrow> heap \<times> nat \<times> nat" where
  "move_to_conflict_set h candidate candidateSetHead conflictSetHead =
     (let nextCandidate = next_of h candidate;
          nxt = next_of h candidate;
          prv = prev_of h candidate;
          h = set_prev h nxt prv;
          h = set_next h prv nxt;
          candidateSetHead = (if candidate = candidateSetHead then nxt else candidateSetHead);
          nxt = conflictSetHead;
          prv = prev_of h conflictSetHead;
          h = set_next h candidate nxt;
          h = set_prev h candidate prv;
          h = set_prev h nxt candidate;
          h = set_next h prv candidate
      in (h, nextCandidate, candidateSetHead))"

text \<open>Lines 422--454.\<close>

partial_function (option) grow_conflict_set ::
  "timer \<Rightarrow> nat \<Rightarrow> heap \<Rightarrow> nat \<Rightarrow> nat \<Rightarrow> nat \<Rightarrow> nat \<Rightarrow> (nat \<times> heap \<times> nat) option" where
  "grow_conflict_set tm k h conflictSetHead count candidate candidateSetHead =
     (if count < CONFLICT_SET_SIZE then
        do { (missToDRAM, k') \<leftarrow> Probe tm k h conflictSetHead candidate;
             if \<not> missToDRAM then
               (case move_to_conflict_set h candidate candidateSetHead conflictSetHead of
                  (h', nextCandidate, candidateSetHead') \<Rightarrow>
                    grow_conflict_set tm k' h' conflictSetHead (count + 1) nextCandidate candidateSetHead')
             else grow_conflict_set tm k' h conflictSetHead count (next_of h candidate) candidateSetHead }
      else Some (k, h, candidateSetHead))"

text \<open>Lines 382--469: from the randomized chain to the conflict ring and the leftover ring.\<close>

definition BuildConflictSet ::
  "timer \<Rightarrow> nat \<Rightarrow> heap \<Rightarrow> nat list \<Rightarrow> (abort + nat \<times> heap \<times> nat \<times> nat) option" where
  "BuildConflictSet tm k h candidates =
     (case seed_conflict_set h (hd candidates) of (h, conflictSetHead, candidateSetHead) \<Rightarrow>
      do { count \<leftarrow> SizeOfLinkedList h conflictSetHead;
           if count \<noteq> WAYS_PER_BANK then Some (Inl SeedSizeMismatch) else
           do { count \<leftarrow> SizeOfLinkedList h candidateSetHead;
                if count \<noteq> length candidates - WAYS_PER_BANK then Some (Inl LeftoverSizeMismatch) else
                do { k \<leftarrow> warmup tm k h conflictSetHead candidateSetHead 10;
                     (k, h, candidateSetHead) \<leftarrow>
                        grow_conflict_set tm k h conflictSetHead WAYS_PER_BANK candidateSetHead candidateSetHead;
                     count \<leftarrow> SizeOfLinkedList h conflictSetHead;
                     if count \<noteq> CONFLICT_SET_SIZE then Some (Inl ConflictSizeMismatch) else
                     (case SanityCheckConflictSet tm k of
                        Inl e \<Rightarrow> Some (Inl e)
                      | Inr k \<Rightarrow>
                        do { count \<leftarrow> SizeOfLinkedList h candidateSetHead;
                             if count \<noteq> length candidates - CONFLICT_SET_SIZE
                             then Some (Inl LeftoverSizeMismatch)
                             else Some (Inr (k, h, conflictSetHead, candidateSetHead)) }) } } })"

section \<open>GetEvictionSet: slice partitioning\<close>

text \<open>
  Taking a node out of its ring. The source writes the two neighbour links in either
  order: \<^verbatim>\<open>prev->next\<close> first at lines 516, 545, 581 and 643, \<^verbatim>\<open>next->prev\<close> first at
  lines 613 and 627.
\<close>

definition unlink :: "heap \<Rightarrow> nat \<Rightarrow> heap" where
  "unlink h node =
     (let h = set_next h (prev_of h node) (next_of h node);
          h = set_prev h (next_of h node) (prev_of h node)
      in h)"

definition unlink_rev :: "heap \<Rightarrow> nat \<Rightarrow> heap" where
  "unlink_rev h node =
     (let h = set_prev h (next_of h node) (prev_of h node);
          h = set_next h (prev_of h node) (next_of h node)
      in h)"

text \<open>Lines 509--524: candidates that hit in the LLC are dropped from the leftover ring.\<close>

partial_function (option) drop_hits ::
  "timer \<Rightarrow> nat \<Rightarrow> heap \<Rightarrow> nat \<Rightarrow> nat \<Rightarrow> bool \<Rightarrow> (abort + nat \<times> heap \<times> nat) option" where
  "drop_hits tm k h conflictSetHead candidate missToDRAM =
     (if \<not> missToDRAM then
        if \<not> next_of h candidate \<noteq> candidate then Some (Inl CandidatesExhausted)
        else
          (let h = unlink h candidate;
               candidate = next_of h candidate
           in do { (missToDRAM, k') \<leftarrow> Probe tm k h conflictSetHead candidate;
                   drop_hits tm k' h conflictSetHead candidate missToDRAM })
      else Some (Inr (k, h, candidate)))"

text \<open>
  Lines 533--551: up to \<open>n\<close> further probes of the same candidate; the last component of
  the result is \<^verbatim>\<open>foundCandidate\<close>.
\<close>

fun confirm_candidate ::
  "timer \<Rightarrow> nat \<Rightarrow> heap \<Rightarrow> nat \<Rightarrow> nat \<Rightarrow> nat \<Rightarrow> (abort + nat \<times> heap \<times> nat \<times> bool) option" where
  "confirm_candidate tm k h conflictSetHead candidate 0 = Some (Inr (k, h, candidate, True))"
| "confirm_candidate tm k h conflictSetHead candidate (Suc n) =
     do { (missToDRAM, k') \<leftarrow> Probe tm k h conflictSetHead candidate;
          if \<not> missToDRAM then
            if \<not> next_of h candidate \<noteq> candidate then Some (Inl CandidatesExhausted)
            else
              (let h = unlink h candidate;
                   candidate = next_of h candidate
               in Some (Inr (k', h, candidate, False)))
          else confirm_candidate tm k' h conflictSetHead candidate n }"

text \<open>Lines 503--552.\<close>

partial_function (option) find_witness ::
  "timer \<Rightarrow> nat \<Rightarrow> heap \<Rightarrow> nat \<Rightarrow> nat \<Rightarrow> (abort + nat \<times> heap \<times> nat) option" where
  "find_witness tm k h conflictSetHead candidate =
     do { (missToDRAM, k1) \<leftarrow> Probe tm k h conflictSetHead candidate;
          r \<leftarrow> drop_hits tm k1 h conflictSetHead candidate missToDRAM;
          case r of
            Inl e \<Rightarrow> Some (Inl e)
          | Inr (k2, h2, candidate2) \<Rightarrow>
              do { r' \<leftarrow> confirm_candidate tm k2 h2 conflictSetHead candidate2 100;
                   case r' of
                     Inl e \<Rightarrow> Some (Inl e)
                   | Inr (k3, h3, candidate3, foundCandidate) \<Rightarrow>
                       if foundCandidate then Some (Inr (k3, h3, candidate3))
                       else find_witness tm k3 h3 conflictSetHead candidate3 } }"

text \<open>
  Lines 580--603: one test of \<^verbatim>\<open>testNode\<close>. The result is the new reading count, the
  memory, the next test node and the scratch set \<^verbatim>\<open>evictionSet\<close>.
\<close>

definition test_node ::
  "timer \<Rightarrow> nat \<Rightarrow> heap \<Rightarrow> nat \<Rightarrow> nat \<Rightarrow> nat list \<Rightarrow> (nat \<times> heap \<times> nat \<times> nat list) option" where
  "test_node tm k h candidate testNode evictionSet =
     (let h = set_next h (prev_of h testNode) (next_of h testNode);
          h = set_prev h (next_of h testNode) (prev_of h testNode)
      in do { (missToDRAM, k') \<leftarrow> Probe tm k h (next_of h testNode) candidate;
              let h = set_next h (prev_of h testNode) testNode;
                  h = set_prev h (next_of h testNode) testNode;
                  evictionSet = (if \<not> missToDRAM then set_insert testNode evictionSet
                                 else evictionSet)
              in Some (k', h, next_of h testNode, evictionSet) })"

text \<open>Lines 570--604.\<close>

partial_function (option) isolate_slice ::
  "timer \<Rightarrow> nat \<Rightarrow> heap \<Rightarrow> nat \<Rightarrow> nat \<Rightarrow> nat list \<Rightarrow> (nat \<times> heap \<times> nat list) option" where
  "isolate_slice tm k h candidate testNode evictionSet =
     (if length evictionSet < WAYS_PER_BANK then
        if testNode \<in> set evictionSet
        then isolate_slice tm k h candidate (next_of h testNode) evictionSet
        else do { (k', h', testNode', evictionSet') \<leftarrow>
                     test_node tm k h candidate testNode evictionSet;
                  isolate_slice tm k' h' candidate testNode' evictionSet' }
      else Some (k, h, evictionSet))"

text \<open>Lines 608--616: the first marked node becomes a ring of its own.\<close>

definition splice_head :: "heap \<Rightarrow> nat \<Rightarrow> nat \<Rightarrow> heap \<times> nat" where
  "splice_head h evictionSetHead conflictSetHead =
     (let conflictSetHead =
            (if evictionSetHead = conflictSetHead then next_of h conflictSetHead
             else conflictSetHead);
          h = unlink_rev h evictionSetHead;
          h = set_next h evictionSetHead evictionSetHead;
          h = set_prev h evictionSetHead evictionSetHead
      in (h, conflictSetHead))"

text \<open>Lines 618--633: the other marked nodes follow, each put behind the last one.\<close>

fun splice_rest :: "heap \<Rightarrow> nat \<Rightarrow> nat \<Rightarrow> nat list \<Rightarrow> heap \<times> nat" where
  "splice_rest h evictionSetHead conflictSetHead [] = (h, conflictSetHead)"
| "splice_rest h evictionSetHead conflictSetHead (node # nodes) =
     (let conflictSetHead =
            (if node = conflictSetHead then next_of h conflictSetHead else conflictSetHead);
          h = unlink_rev h node;
          h = set_next h node evictionSetHead;
          h = set_prev h node (prev_of h evictionSetHead);
          h = set_prev h (next_of h node) node;
          h = set_next h (prev_of h node) node
      in splice_rest h evictionSetHead conflictSetHead nodes)"

definition splice_out :: "heap \<Rightarrow> nat list \<Rightarrow> nat \<Rightarrow> heap \<times> nat" where
  "splice_out h evictionSet conflictSetHead =
     (let evictionSetHead = hd evictionSet
      in case splice_head h evictionSetHead conflictSetHead of
           (h, conflictSetHead) \<Rightarrow> splice_rest h evictionSetHead conflictSetHead (tl evictionSet))"

text \<open>Lines 498--646.\<close>

partial_function (option) partition_loop ::
  "timer \<Rightarrow> nat \<Rightarrow> heap \<Rightarrow> nat list \<Rightarrow> nat \<Rightarrow> nat \<Rightarrow> (abort + nat \<times> heap \<times> nat list \<times> nat) option" where
  "partition_loop tm k h evictionSetHeads candidate conflictSetHead =
     (if length evictionSetHeads < LLC_BANKS - 1 then
        do { r \<leftarrow> find_witness tm k h conflictSetHead candidate;
             case r of
               Inl e \<Rightarrow> Some (Inl e)
             | Inr (k, h, candidate) \<Rightarrow>
                 do { (k, h, evictionSet) \<leftarrow> isolate_slice tm k h candidate conflictSetHead [];
                      case splice_out h evictionSet conflictSetHead of
                        (h, conflictSetHead) \<Rightarrow>
                          if \<not> next_of h candidate \<noteq> candidate then Some (Inl CandidatesExhausted)
                          else
                            (let h = unlink h candidate;
                                 candidate = next_of h candidate
                             in partition_loop tm k h (evictionSetHeads @ [hd evictionSet])
                                  candidate conflictSetHead) } }
      else Some (Inr (k, h, evictionSetHeads, conflictSetHead)))"

text \<open>Lines 472--650.\<close>

definition PartitionConflictSet ::
  "timer \<Rightarrow> nat \<Rightarrow> heap \<Rightarrow> nat \<Rightarrow> nat \<Rightarrow> (abort + nat \<times> heap \<times> nat list) option" where
  "PartitionConflictSet tm k h conflictSetHead candidateSetHead =
     bindr (partition_loop tm k h [] candidateSetHead conflictSetHead)
       (\<lambda>(k, h, evictionSetHeads, conflictSetHead).
          Some (Inr (k, h, evictionSetHeads @ [conflictSetHead])))"

section \<open>GetEvictionSet\<close>

text \<open>
  \<open>array_in\<close> is the value of \<^verbatim>\<open>*array\<close> at the call (0 for \<^verbatim>\<open>nullptr\<close>), \<open>base\<close> the address
  \<^verbatim>\<open>aligned_alloc\<close> returns, \<open>h0\<close> the contents of the fresh region. The result is the vector
  of ring handles, the new value of \<^verbatim>\<open>*array\<close>, the memory and the number of readings taken.
  \<^verbatim>\<open>sizeof(Node) == CACHE_LINE_SIZE\<close> holds by the layout of the struct.
\<close>

definition GetEvictionSet_from ::
  "nat list \<Rightarrow> 64 word \<Rightarrow> (nat \<Rightarrow> nat list) \<Rightarrow> timer \<Rightarrow> heap \<Rightarrow> (abort + nat list \<times> 64 word \<times> heap \<times> nat) option" where
  "GetEvictionSet_from candidates base shuffle tm h0 =
     (if \<not> length candidates \<ge> 2 * LLC_BANKS * WAYS_PER_BANK then Some (Inl InsufficientCandidates)
      else
        (let h = RandomizeLinkedList h0 candidates shuffle
         in do { count \<leftarrow> SizeOfLinkedList h (hd candidates);
                 if count \<noteq> length candidates then Some (Inl ChainSizeMismatch)
                 else
                   (case SanityCheckCandidates tm 0 of
                      Inl e \<Rightarrow> Some (Inl e)
                    | Inr k \<Rightarrow>
                        bindr (BuildConflictSet tm k h candidates)
                          (\<lambda>(k, h, conflictSetHead, candidateSetHead).
                        bindr (PartitionConflictSet tm k h conflictSetHead candidateSetHead)
                          (\<lambda>(k, h, evictionSetHeads).
                        bindr (SanityCheckEvictionSets tm k h evictionSetHeads)
                          (\<lambda>k. Some (Inr (evictionSetHeads, base, h, k)))))) }))"

definition GetEvictionSet ::
  "64 word \<Rightarrow> 64 word \<Rightarrow> 64 word \<Rightarrow> (nat \<Rightarrow> nat list) \<Rightarrow> timer \<Rightarrow> heap \<Rightarrow> (abort + nat list \<times> 64 word \<times> heap \<times> nat) option" where
  "GetEvictionSet array_in setIndex base shuffle tm h0 =
     (if \<not> array_in = 0 then Some (Inl ArrayNotNull)
      else if \<not> setIndex < SETS_PER_BANK then Some (Inl SetIndexOutOfRange)
      else
        (case FindCandidates base setIndex of
           Inl e \<Rightarrow> Some (Inl e)
         | Inr candidates \<Rightarrow> GetEvictionSet_from candidates base shuffle tm h0))"

section \<open>SplitResultsIntoBanks (portAttack.cpp)\<close>

definition ATTACKER_TIMED_ITERATIONS :: nat where "ATTACKER_TIMED_ITERATIONS = 5000000"

text \<open>
  \<open>attackerTimes\<close> is the global array \<^verbatim>\<open>attackerTimesArray\<close>, of length \<^verbatim>\<open>ATTACKER_TIMED_ITERATIONS\<close>. The
  source reads \<^verbatim>\<open>attackerTimesArray[access]\<close> with no check; the model reports the first read
  at an index outside the array.
\<close>

datatype fault = ReadPastEnd nat

function advance_to :: "64 word list \<Rightarrow> 64 word \<Rightarrow> nat \<Rightarrow> fault + nat" where
  "advance_to attackerTimes boundary access =
     (if access < length attackerTimes then
        (if attackerTimes ! access < boundary then advance_to attackerTimes boundary (access + 1)
         else Inr access)
      else Inl (ReadPastEnd access))"
  by pat_completeness auto
termination
  by (relation "measure (\<lambda>(attackerTimes, boundary, access). length attackerTimes - access)") auto

declare advance_to.simps [simp del]

function SplitResultsIntoBanks_loop ::
  "64 word list \<Rightarrow> 64 word list \<Rightarrow> nat \<Rightarrow> nat \<Rightarrow> 64 word list \<Rightarrow> fault + 64 word list" where
  "SplitResultsIntoBanks_loop attackerTimes victimBankBoundaries bank access boundaries =
     (if bank < LLC_BANKS then
        (case advance_to attackerTimes (victimBankBoundaries ! (bank * 2)) access of
           Inl f \<Rightarrow> Inl f
         | Inr access \<Rightarrow>
             (let boundaries = boundaries @ [of_nat access]
              in case advance_to attackerTimes (victimBankBoundaries ! (bank * 2 + 1)) access of
                   Inl f \<Rightarrow> Inl f
                 | Inr access \<Rightarrow>
                     SplitResultsIntoBanks_loop attackerTimes victimBankBoundaries (bank + 1) access
                       (boundaries @ [of_nat access - 1])))
      else Inr boundaries)"
  by pat_completeness auto
termination
  by (relation "measure (\<lambda>(attackerTimes, bs, bank, access, boundaries). LLC_BANKS - bank)") auto

declare SplitResultsIntoBanks_loop.simps [simp del]

definition SplitResultsIntoBanks :: "64 word list \<Rightarrow> 64 word list \<Rightarrow> fault + 64 word list" where
  "SplitResultsIntoBanks attackerTimes victimBankBoundaries =
     SplitResultsIntoBanks_loop attackerTimes victimBankBoundaries 0 0 []"

section \<open>Vocabulary of the properties\<close>

text \<open>A latency reading inside the window that \<^verbatim>\<open>Probe\<close> accepts.\<close>

definition plausible :: "64 word \<Rightarrow> bool" where
  "plausible t = (\<not> (t < 20 \<or> t > 200))"

definition Probe_loop_post :: "timer \<Rightarrow> nat \<Rightarrow> 64 word \<Rightarrow> 64 word \<times> nat \<Rightarrow> bool" where
  "Probe_loop_post tm k t r \<longleftrightarrow>
     plausible (fst r) \<and>
     (plausible t \<longrightarrow> r = (t, k)) \<and>
     (\<not> plausible t \<longrightarrow> k < snd r \<and> fst r = tm (snd r - 1)
        \<and> (\<forall>j. k \<le> j \<and> j < snd r - 1 \<longrightarrow> \<not> plausible (tm j)))"

text \<open>
  The set-index test in the words of the specification: the address, shifted right by the
  line-offset bits, taken modulo the number of sets.
\<close>

definition maps_to_set :: "64 word \<Rightarrow> 64 word \<Rightarrow> bool" where
  "maps_to_set address s \<longleftrightarrow>
     drop_bit NUM_CACHE_LINE_BITS address mod push_bit NUM_SET_INDEX_BITS 1 = s"

text \<open>
  A run in which the attacker has finished before the victims start: every one of its
  timestamps lies below every bank boundary.
\<close>

definition early_attacker :: "64 word list" where
  "early_attacker = map (\<lambda>i. 1000 + 100 * of_nat i) [0..<ATTACKER_TIMED_ITERATIONS]"

definition victim_start :: "64 word" where
  "victim_start = 2 ^ 40"

definition late_victims :: "64 word list" where
  "late_victims = replicate 24 victim_start"

text \<open>
  Rings. \<open>linked h a b\<close>: \<open>b\<close> is the forward neighbour of \<open>a\<close> and \<open>a\<close> the backward
  neighbour of \<open>b\<close>. \<open>ring h xs\<close>: the distinct nodes \<open>xs\<close>, in this order, form a closed
  doubly-linked cycle. \<open>walk h p n\<close> lists the \<open>n\<close> nodes met from the handle \<open>p\<close> along \<open>next\<close>,
  and \<open>ring_at h p n\<close> says that \<open>p\<close> is the handle of a ring of exactly \<open>n\<close> nodes.
\<close>

definition linked :: "heap \<Rightarrow> nat \<Rightarrow> nat \<Rightarrow> bool" where
  "linked h a b \<longleftrightarrow> next_of h a = b \<and> prev_of h b = a"

fun path :: "heap \<Rightarrow> nat list \<Rightarrow> bool" where
  "path h (a # b # xs) = (linked h a b \<and> path h (b # xs))"
| "path h xs = True"

definition ring :: "heap \<Rightarrow> nat list \<Rightarrow> bool" where
  "ring h xs \<longleftrightarrow> xs \<noteq> [] \<and> distinct xs \<and> path h xs \<and> linked h (last xs) (hd xs)"

fun walk :: "heap \<Rightarrow> nat \<Rightarrow> nat \<Rightarrow> nat list" where
  "walk h p 0 = []"
| "walk h p (Suc n) = p # walk h (next_of h p) n"

definition ring_at :: "heap \<Rightarrow> nat \<Rightarrow> nat \<Rightarrow> bool" where
  "ring_at h p n \<longleftrightarrow> ring h (walk h p n)"

text \<open>The two memories agree on every node outside \<open>S\<close>.\<close>

definition same_outside :: "nat set \<Rightarrow> heap \<Rightarrow> heap \<Rightarrow> bool" where
  "same_outside S h h' \<longleftrightarrow>
     (\<forall>x. x \<notin> S \<longrightarrow> next_of h' x = next_of h x \<and> prev_of h' x = prev_of h x)"

text \<open>Putting the node \<open>c\<close> into a ring, just behind the node \<open>a\<close> when walking backwards.\<close>

definition insert_before :: "heap \<Rightarrow> nat \<Rightarrow> nat \<Rightarrow> heap" where
  "insert_before h c a =
     set_next (set_prev (set_prev (set_next h c a) c (prev_of h a)) a c) (prev_of h a) c"

text \<open>What \<^verbatim>\<open>std::random_shuffle\<close> guarantees: the vector is a rearrangement of \<open>0, \<dots>, n - 1\<close>.\<close>

definition shuffled :: "nat list \<Rightarrow> nat \<Rightarrow> bool" where
  "shuffled perm n \<longleftrightarrow> length perm = n \<and> set perm = {..<n}"

text \<open>
  The state of the conflict-set construction: the nodes \<open>U\<close> of the chain are split into the
  conflict ring, of \<open>count\<close> nodes with handle \<open>conflictSetHead\<close>, and the leftover ring,
  which holds \<open>candidate\<close> and \<open>candidateSetHead\<close>.
\<close>

definition grow_inv :: "nat set \<Rightarrow> heap \<Rightarrow> nat \<Rightarrow> nat \<Rightarrow> nat \<Rightarrow> nat \<Rightarrow> bool" where
  "grow_inv U h conflictSetHead count candidate candidateSetHead \<longleftrightarrow>
     (\<exists>cs ds. ring h cs \<and> ring h ds \<and> set cs \<inter> set ds = {} \<and> set cs \<union> set ds = U \<and>
        hd cs = conflictSetHead \<and> length cs = count \<and>
        candidate \<in> set ds \<and> candidateSetHead \<in> set ds)"

definition grow_post ::
  "nat set \<Rightarrow> timer \<Rightarrow> nat \<Rightarrow> heap \<Rightarrow> nat \<Rightarrow> nat \<Rightarrow> nat \<Rightarrow> nat \<Rightarrow> nat \<times> heap \<times> nat \<Rightarrow> bool" where
  "grow_post U tm k h conflictSetHead count candidate candidateSetHead r \<longleftrightarrow>
     (grow_inv U h conflictSetHead count candidate candidateSetHead \<and> count \<le> CONFLICT_SET_SIZE
        \<and> CONFLICT_SET_SIZE + 2 \<le> card U \<longrightarrow>
      (case r of (k', h', candidateSetHead') \<Rightarrow>
         k \<le> k' \<and> grow_inv U h' conflictSetHead CONFLICT_SET_SIZE candidateSetHead' candidateSetHead'))"

text \<open>A memory in which the nodes \<open>0, \<dots>, n - 1\<close> are chained in this order.\<close>

definition cycle_heap :: "nat \<Rightarrow> heap" where
  "cycle_heap n = \<lparr>next_of = (\<lambda>i. Suc i mod n), prev_of = (\<lambda>i. (i + n - 1) mod n)\<rparr>"

text \<open>A timer whose every reading is an LLC hit.\<close>

definition hit_timer :: timer where
  "hit_timer = (\<lambda>k. 50)"

text \<open>
  What a returning isolation scan guarantees when it starts on a ring \<open>cs\<close> with a test node
  on it and a scratch set of at most \<^verbatim>\<open>WAYS_PER_BANK\<close> distinct nodes of the ring.
\<close>

definition isolate_post ::
  "nat list \<Rightarrow> timer \<Rightarrow> nat \<Rightarrow> heap \<Rightarrow> nat \<Rightarrow> nat \<Rightarrow> nat list \<Rightarrow> nat \<times> heap \<times> nat list \<Rightarrow> bool" where
  "isolate_post cs tm k h candidate testNode evictionSet r \<longleftrightarrow>
     (ring h cs \<and> testNode \<in> set cs \<and> set evictionSet \<subseteq> set cs \<and> distinct evictionSet
        \<and> length evictionSet \<le> WAYS_PER_BANK \<longrightarrow>
      (case r of (k', h', evictionSet') \<Rightarrow>
         k \<le> k' \<and> h' = h \<and> set evictionSet \<subseteq> set evictionSet' \<and> set evictionSet' \<subseteq> set cs
         \<and> distinct evictionSet' \<and> length evictionSet' = WAYS_PER_BANK))"

text \<open>The outcomes of \<open>n\<close> successive probes of the same candidate against the same ring.\<close>

fun probe_results ::
  "timer \<Rightarrow> nat \<Rightarrow> heap \<Rightarrow> nat \<Rightarrow> nat \<Rightarrow> nat \<Rightarrow> (bool list \<times> nat) option" where
  "probe_results tm k h setStartNode candidate 0 = Some ([], k)"
| "probe_results tm k h setStartNode candidate (Suc n) =
     do { (b, k1) \<leftarrow> Probe tm k h setStartNode candidate;
          (bs, k2) \<leftarrow> probe_results tm k1 h setStartNode candidate n;
          Some (b # bs, k2) }"

text \<open>
  What the search for a witness guarantees when it starts with \<open>candidate\<close> on the leftover
  ring \<open>ds\<close>: nodes are only ever taken out of that ring, and the candidate it ends with is
  still on it.
\<close>

definition leftover_post ::
  "nat list \<Rightarrow> nat \<Rightarrow> heap \<Rightarrow> nat \<Rightarrow> (abort + nat \<times> heap \<times> nat) \<Rightarrow> bool" where
  "leftover_post ds k h candidate r \<longleftrightarrow>
     (ring h ds \<and> candidate \<in> set ds \<longrightarrow>
      (case r of
         Inl e \<Rightarrow> e = CandidatesExhausted
       | Inr (k', h', candidate') \<Rightarrow>
           k \<le> k' \<and> same_outside (set ds) h h' \<and>
           (\<exists>ds'. ring h' ds' \<and> candidate' \<in> set ds' \<and> set ds' \<subseteq> set ds
                  \<and> length ds' \<le> length ds)))"

definition drop_hits_post ::
  "timer \<Rightarrow> nat \<Rightarrow> heap \<Rightarrow> nat \<Rightarrow> nat \<Rightarrow> bool \<Rightarrow> (abort + nat \<times> heap \<times> nat) \<Rightarrow> bool" where
  "drop_hits_post tm k h conflictSetHead candidate missToDRAM r \<longleftrightarrow>
     (\<forall>ds. leftover_post ds k h candidate r) \<and>
     (case r of
        Inl e \<Rightarrow> True
      | Inr (k', h', candidate') \<Rightarrow>
          (missToDRAM \<and> k' = k \<and> h' = h \<and> candidate' = candidate) \<or>
          (\<exists>k0\<ge>k. Probe tm k0 h' conflictSetHead candidate' = Some (True, k')))"

definition find_witness_post ::
  "timer \<Rightarrow> nat \<Rightarrow> heap \<Rightarrow> nat \<Rightarrow> nat \<Rightarrow> (abort + nat \<times> heap \<times> nat) \<Rightarrow> bool" where
  "find_witness_post tm k h conflictSetHead candidate r \<longleftrightarrow>
     (\<forall>ds. leftover_post ds k h candidate r) \<and>
     (case r of
        Inl e \<Rightarrow> True
      | Inr (k', h', candidate') \<Rightarrow>
          (\<exists>k0\<ge>k. probe_results tm k0 h' conflictSetHead candidate' 101
                     = Some (replicate 101 True, k')))"

text \<open>A timer whose first reading is an LLC hit and whose later readings are all misses.\<close>

definition drop_timer :: timer where
  "drop_timer = (\<lambda>k. if k = 0 then 50 else 150)"

text \<open>
  The state between two rounds of the partition: the rings \<open>rss\<close> already split off, what is left
  of the conflict ring \<open>C\<close>, and a ring of at least \<open>m\<close> leftover candidates outside \<open>C\<close>.
\<close>

definition part_inv :: "nat set \<Rightarrow> nat \<Rightarrow> heap \<Rightarrow> nat list list \<Rightarrow> nat \<Rightarrow> nat \<Rightarrow> bool" where
  "part_inv C m h rss conflictSetHead candidate \<longleftrightarrow>
     (\<exists>cs ds. ring h cs \<and> conflictSetHead \<in> set cs \<and> ring h ds \<and> candidate \<in> set ds \<and>
        m \<le> length ds \<and> set ds \<inter> C = {} \<and>
        (\<forall>r\<in>set rss. ring h r \<and> length r = WAYS_PER_BANK) \<and> distinct (concat rss) \<and>
        set (concat rss) \<inter> set cs = {} \<and> set cs \<union> set (concat rss) = C \<and>
        length cs + WAYS_PER_BANK * length rss = CONFLICT_SET_SIZE)"

definition partition_post ::
  "nat set \<Rightarrow> timer \<Rightarrow> nat \<Rightarrow> heap \<Rightarrow> nat list \<Rightarrow> nat \<Rightarrow> nat
     \<Rightarrow> (abort + nat \<times> heap \<times> nat list \<times> nat) \<Rightarrow> bool" where
  "partition_post C tm k h evictionSetHeads candidate conflictSetHead r \<longleftrightarrow>
     (\<forall>rss. part_inv C 0 h rss conflictSetHead candidate \<and> evictionSetHeads = map hd rss \<longrightarrow>
        (case r of
           Inl e \<Rightarrow> e = CandidatesExhausted
         | Inr (k', h', evictionSetHeads', conflictSetHead') \<Rightarrow>
             k \<le> k' \<and>
             (\<exists>more candidate'. part_inv C 0 h' (rss @ more) conflictSetHead' candidate'
                \<and> evictionSetHeads' = map hd (rss @ more)
                \<and> length (rss @ more) = LLC_BANKS - 1)))"

definition eviction_rings :: "nat set \<Rightarrow> heap \<Rightarrow> nat list list \<Rightarrow> bool" where
  "eviction_rings C h rss \<longleftrightarrow>
     length rss = LLC_BANKS \<and> (\<forall>r\<in>set rss. ring h r \<and> length r = WAYS_PER_BANK) \<and>
     distinct (concat rss) \<and> set (concat rss) = C"

text \<open>
  A timer under which every check of the program passes: the candidate oracle reads 170
  cycles per access, the conflict and eviction oracles 40, every probe of the construction
  phase hits, and each round of the partition sees 101 misses and then 20 hits.
\<close>

definition good_timer :: timer where
  "good_timer = (\<lambda>k. if k = 0 then 4080000000
                      else if k \<le> 230 then 50
                      else if k = 231 then 96000000
                      else if k < 1563 then (if (k - 232) mod 121 < 101 then 150 else 50)
                      else 96000000)"

text \<open>
  The way of a search for a witness, from the reading count, memory and candidate it starts
  with to those it stands at: each step drops the current candidate, because its initial
  probe or one of its first 100 confirmation probes said "not evicted", and goes on with its
  neighbour on the leftover ring.
\<close>

inductive drops_to :: "timer \<Rightarrow> nat \<Rightarrow> nat \<Rightarrow> heap \<Rightarrow> nat \<Rightarrow> nat \<Rightarrow> heap \<Rightarrow> nat \<Rightarrow> bool"
  for tm :: timer and conflictSetHead :: nat where
  here: "drops_to tm conflictSetHead k h candidate k h candidate"
| initial_probe:
    "Probe tm k h conflictSetHead candidate = Some (False, k1) \<Longrightarrow>
     next_of h candidate \<noteq> candidate \<Longrightarrow>
     drops_to tm conflictSetHead k1 (unlink h candidate) (next_of h candidate) k' h' candidate' \<Longrightarrow>
     drops_to tm conflictSetHead k h candidate k' h' candidate'"
| confirmation:
    "Probe tm k h conflictSetHead candidate = Some (True, k1) \<Longrightarrow> m < 100 \<Longrightarrow>
     probe_results tm k1 h conflictSetHead candidate (Suc m) = Some (replicate m True @ [False], k2) \<Longrightarrow>
     next_of h candidate \<noteq> candidate \<Longrightarrow>
     drops_to tm conflictSetHead k2 (unlink h candidate) (next_of h candidate) k' h' candidate' \<Longrightarrow>
     drops_to tm conflictSetHead k h candidate k' h' candidate'"

text \<open>Two timers give the same readings from the \<open>k\<close>-th up to, but not including, the \<open>k'\<close>-th.\<close>

definition agree :: "timer \<Rightarrow> timer \<Rightarrow> nat \<Rightarrow> nat \<Rightarrow> bool" where
  "agree tm tm' k k' \<longleftrightarrow> (\<forall>j. k \<le> j \<and> j < k' \<longrightarrow> tm' j = tm j)"

text \<open>The same timer with one reading repeated: the last miss of the first witness search.\<close>

definition noisy_timer :: timer where
  "noisy_timer = (\<lambda>k. if k \<le> 332 then good_timer k else good_timer (k - 1))"


section \<open>Probe\<close>


lemma Probe_loop_accept: "plausible t \<Longrightarrow> Probe_loop tm k t = Some (t, k)"
  by (subst Probe_loop.simps) (simp add: plausible_def)

lemma Probe_loop_retry: "\<not> plausible t \<Longrightarrow> Probe_loop tm k t = Probe_loop tm (k + 1) (tm k)"
  by (subst Probe_loop.simps) (simp add: plausible_def)

lemma Probe_loop_run:
  "\<not> plausible t \<Longrightarrow> (\<forall>j<n. \<not> plausible (tm (k + j))) \<Longrightarrow> plausible (tm (k + n))
   \<Longrightarrow> Probe_loop tm k t = Some (tm (k + n), k + n + 1)"
proof (induction n arbitrary: k t)
  case 0
  then show ?case by (simp add: Probe_loop_retry Probe_loop_accept)
next
  case (Suc n)
  have a: "\<not> plausible (tm k)" using Suc.prems(2) by force
  have b: "\<forall>j<n. \<not> plausible (tm (k + 1 + j))"
  proof (intro allI impI)
    fix j assume "j < n"
    then have "\<not> plausible (tm (k + Suc j))" using Suc.prems(2) by blast
    then show "\<not> plausible (tm (k + 1 + j))" by simp
  qed
  have c: "plausible (tm (k + 1 + n))" using Suc.prems(3) by simp
  show ?case
    using Suc.IH [OF a b c] Suc.prems(1) by (simp add: Probe_loop_retry)
qed

lemma Probe_loop_returns:
  assumes "Probe_loop tm k t = Some r"
  shows "Probe_loop_post tm k t r"
proof (rule Probe_loop.raw_induct [where P = Probe_loop_post, OF _ assms])
  fix f tm k t r
  assume ih: "\<And>tm k t r. f tm k t = Some r \<Longrightarrow> Probe_loop_post tm k t r"
    and eq: "(if t < 20 \<or> 200 < t then f tm (k + 1) (tm k) else Some (t, k)) = Some r"
  show "Probe_loop_post tm k t r"
  proof (cases "plausible t")
    case True
    then show ?thesis using eq by (auto simp: plausible_def Probe_loop_post_def)
  next
    case False
    then have rec: "f tm (k + 1) (tm k) = Some r"
      using eq by (auto simp: plausible_def split: if_splits)
    note ih' = ih [OF rec, unfolded Probe_loop_post_def]
    show ?thesis
    proof (cases "plausible (tm k)")
      case True
      with ih' have "r = (tm k, k + 1)" by simp
      with True False show ?thesis by (auto simp: Probe_loop_post_def)
    next
      case f2: False
      with ih' have k: "k + 1 < snd r" and v: "fst r = tm (snd r - 1)"
        and d: "\<forall>j. k + 1 \<le> j \<and> j < snd r - 1 \<longrightarrow> \<not> plausible (tm j)" and p: "plausible (fst r)"
        by auto
      have "\<forall>j. k \<le> j \<and> j < snd r - 1 \<longrightarrow> \<not> plausible (tm j)"
      proof (intro allI impI)
        fix j assume j: "k \<le> j \<and> j < snd r - 1"
        show "\<not> plausible (tm j)"
        proof (cases "j = k")
          case True then show ?thesis using f2 by simp
        next
          case False then show ?thesis using d j by simp
        qed
      qed
      with k v p False show ?thesis by (simp add: Probe_loop_post_def)
    qed
  qed
qed

lemma not_plausible_0: "\<not> plausible 0"
  by (simp add: plausible_def)

text \<open>
  Claim C2. For every ring handle and candidate, \<^verbatim>\<open>Probe\<close> returns \<open>b\<close> after the readings
  \<open>k, \<dots>, k' - 1\<close> exactly when every reading before the last one lies outside the window
  from 20 to 200 cycles (it is thrown away and the attempt repeated), the last reading lies
  inside the window, and \<open>b\<close> says whether that accepted reading exceeds
  \<^verbatim>\<open>LLC_CYCLE_THRESHOLD\<close>.
\<close>

theorem Probe_decision:
  "Probe tm k h setStartNode candidate = Some (b, k') \<longleftrightarrow>
     k < k' \<and>
     (\<forall>j. k \<le> j \<and> j < k' - 1 \<longrightarrow> tm j < 20 \<or> tm j > 200) \<and>
     20 \<le> tm (k' - 1) \<and> tm (k' - 1) \<le> 200 \<and>
     (b \<longleftrightarrow> tm (k' - 1) > LLC_CYCLE_THRESHOLD)"
proof
  assume "Probe tm k h setStartNode candidate = Some (b, k')"
  then obtain t where l: "Probe_loop tm k 0 = Some (t, k')" and b: "b = (t > LLC_CYCLE_THRESHOLD)"
    by (auto simp: Probe_def split: Option.bind_splits)
  from Probe_loop_returns [OF l, unfolded Probe_loop_post_def] not_plausible_0
  have "plausible t" "k < k'" "t = tm (k' - 1)" "\<forall>j. k \<le> j \<and> j < k' - 1 \<longrightarrow> \<not> plausible (tm j)"
    by auto
  then show "k < k' \<and>
     (\<forall>j. k \<le> j \<and> j < k' - 1 \<longrightarrow> tm j < 20 \<or> tm j > 200) \<and>
     20 \<le> tm (k' - 1) \<and> tm (k' - 1) \<le> 200 \<and>
     (b \<longleftrightarrow> tm (k' - 1) > LLC_CYCLE_THRESHOLD)"
    using b by (auto simp: plausible_def not_less)
next
  assume a: "k < k' \<and>
     (\<forall>j. k \<le> j \<and> j < k' - 1 \<longrightarrow> tm j < 20 \<or> tm j > 200) \<and>
     20 \<le> tm (k' - 1) \<and> tm (k' - 1) \<le> 200 \<and>
     (b \<longleftrightarrow> tm (k' - 1) > LLC_CYCLE_THRESHOLD)"
  define n where "n = k' - 1 - k"
  have kn: "k + n = k' - 1" "k + n + 1 = k'" using a by (auto simp: n_def)
  have 1: "\<forall>j<n. \<not> plausible (tm (k + j))"
    using a by (auto simp: plausible_def n_def)
  have 2: "plausible (tm (k + n))"
    using a kn by (auto simp: plausible_def not_less)
  from Probe_loop_run [OF not_plausible_0 1 2]
  show "Probe tm k h setStartNode candidate = Some (b, k')"
    using a kn by (simp add: Probe_def)
qed

theorem Probe_decision_witness:
  "Probe (\<lambda>j. if j = 0 then 5 else if j = 1 then 300 else 150) 0
     \<lparr>next_of = id, prev_of = id\<rparr> 0 0 = Some (True, 3)"
  using Probe_decision [of "\<lambda>j. if j = 0 then 5 else if j = 1 then 300 else 150" 0
       "\<lparr>next_of = id, prev_of = id\<rparr>" 0 0 True 3]
  by (auto simp: LLC_CYCLE_THRESHOLD_def)

section \<open>FindCandidates\<close>


lemma SET_INDEX_BITS_alt: "SET_INDEX_BITS = push_bit 6 (mask 11)"
  by (simp add: SET_INDEX_BITS_def mask_eq_exp_minus_1 push_bit_eq_mult)

lemma CACHE_LINE_BITS_alt: "CACHE_LINE_BITS = mask 6"
  by (simp add: CACHE_LINE_BITS_def mask_eq_exp_minus_1)

lemma mask_test_iff:
  fixes address s :: "64 word"
  assumes "s < 2048"
  shows "address AND SET_INDEX_BITS = push_bit 6 s \<longleftrightarrow> take_bit 11 (drop_bit 6 address) = s"
proof -
  have s: "take_bit 11 s = s"
    using less_mask_eq [of s 11] assms by (simp add: take_bit_eq_mask)
  have l: "address AND SET_INDEX_BITS = push_bit 6 (take_bit 11 (drop_bit 6 address))"
    unfolding SET_INDEX_BITS_alt
    by (rule bit_word_eqI) (auto simp: bit_simps)
  have inj: "push_bit 6 (take_bit 11 (a::64 word)) = push_bit 6 (take_bit 11 b) \<Longrightarrow> take_bit 11 a = take_bit 11 b" for a b
  proof (rule bit_word_eqI)
    fix n assume e: "push_bit 6 (take_bit 11 a) = push_bit 6 (take_bit 11 b)" and n: "n < LENGTH(64)"
    show "bit (take_bit 11 a) n = bit (take_bit 11 b) n"
    proof (cases "n < 11")
      case True
      from e have "bit (push_bit 6 (take_bit 11 a)) (n + 6) = bit (push_bit 6 (take_bit 11 b)) (n + 6)"
        by simp
      with True show ?thesis by (simp add: bit_simps)
    next
      case False
      then show ?thesis by (simp add: bit_simps)
    qed
  qed
  show ?thesis
  proof
    assume "address AND SET_INDEX_BITS = push_bit 6 s"
    with l s have "push_bit 6 (take_bit 11 (drop_bit 6 address)) = push_bit 6 (take_bit 11 s)"
      by simp
    from inj [OF this] s show "take_bit 11 (drop_bit 6 address) = s" by simp
  next
    assume "take_bit 11 (drop_bit 6 address) = s"
    with l show "address AND SET_INDEX_BITS = push_bit 6 s" by simp
  qed
qed

lemma maps_to_set_alt: "maps_to_set address s \<longleftrightarrow> take_bit 11 (drop_bit 6 address) = s"
  by (simp add: maps_to_set_def NUM_CACHE_LINE_BITS_def NUM_SET_INDEX_BITS_def take_bit_eq_mod)

lemma node_address_aligned:
  assumes "array AND CACHE_LINE_BITS = 0"
  shows "node_address array i AND CACHE_LINE_BITS = 0"
proof -
  have a: "take_bit 6 array = 0"
    using assms by (simp add: CACHE_LINE_BITS_alt take_bit_eq_mask)
  have "push_bit 6 (drop_bit 6 array) + take_bit 6 array = array"
    by (rule bits_ident)
  with a have b: "array = push_bit 6 (drop_bit 6 array)" by simp
  have "array + push_bit 6 (of_nat i) = push_bit 6 (drop_bit 6 array + of_nat i)"
    by (subst b) (simp add: push_bit_add)
  then have "take_bit 6 (array + push_bit 6 (of_nat i)) = 0"
    by (simp add: take_bit_push_bit)
  then show ?thesis
    by (simp add: node_address_def CACHE_LINE_BITS_alt take_bit_eq_mask push_bit_eq_mult mult.commute)
qed

lemma set_insert_snoc:
  assumes "sorted xs" "\<forall>x\<in>set xs. x < i"
  shows "set_insert i xs = xs @ [i]"
proof -
  have "i \<notin> set xs" using assms(2) by auto
  moreover have "insort i xs = xs @ [i]"
    using assms by (intro sorted_insort_is_snoc) (auto simp: less_imp_le)
  ultimately show ?thesis by (simp add: set_insert_def)
qed

lemma FindCandidates_loop_filter:
  "array AND CACHE_LINE_BITS = 0 \<Longrightarrow> setIndex < SETS_PER_BANK \<Longrightarrow>
   i \<le> ARRAY_ENTRIES \<Longrightarrow> sorted cands \<Longrightarrow> \<forall>x\<in>set cands. x < i \<Longrightarrow>
     FindCandidates_loop array setIndex i cands =
       Inr (cands @ filter (\<lambda>j. maps_to_set (node_address array j) setIndex) [i..<ARRAY_ENTRIES])"
proof (induction array setIndex i cands rule: FindCandidates_loop.induct)
  case (1 array setIndex i candidates)
  note al = 1(2) and s = 1(3) and le = 1(4) and so = 1(5) and bd = 1(6)
  show ?case
  proof (cases "i < ARRAY_ENTRIES")
    case False
    with le show ?thesis by (subst FindCandidates_loop.simps) simp
  next
    case True
    let ?a = "node_address array i"
    let ?c' = "if ?a AND SET_INDEX_BITS = push_bit NUM_CACHE_LINE_BITS setIndex
               then set_insert i candidates else candidates"
    have ali: "?a AND CACHE_LINE_BITS = 0"
      by (rule node_address_aligned) (rule al)
    have test: "?a AND SET_INDEX_BITS = push_bit NUM_CACHE_LINE_BITS setIndex \<longleftrightarrow> maps_to_set ?a setIndex"
      using mask_test_iff [of setIndex ?a] s
      by (simp add: maps_to_set_alt NUM_CACHE_LINE_BITS_def SETS_PER_BANK_def)
    have c': "?c' = candidates @ filter (\<lambda>j. maps_to_set (node_address array j) setIndex) [i]"
      using set_insert_snoc [OF so bd] test by simp
    have sorted': "sorted ?c'"
      using so bd by (auto simp: c' sorted_append less_imp_le)
    have bound': "\<forall>x\<in>set ?c'. x < i + 1"
      using bd by (auto simp: c' less_Suc_eq)
    have nali: "\<not> ?a AND CACHE_LINE_BITS \<noteq> 0" using ali by simp
    have le': "i + 1 \<le> ARRAY_ENTRIES" using True by simp
    have ih: "FindCandidates_loop array setIndex (i + 1) ?c' =
       Inr (?c' @ filter (\<lambda>j. maps_to_set (node_address array j) setIndex) [i + 1..<ARRAY_ENTRIES])"
      by (rule 1(1) [OF True refl nali al s le' sorted' bound'])
    have upt: "[i..<ARRAY_ENTRIES] = i # [i + 1..<ARRAY_ENTRIES]"
      using True by (simp add: upt_conv_Cons)
    have "FindCandidates_loop array setIndex i candidates = FindCandidates_loop array setIndex (i + 1) ?c'"
      by (subst FindCandidates_loop.simps) (simp only: True ali Let_def if_True if_False simp_thms)
    also note ih
    finally show ?thesis by (simp only: c' upt) simp
  qed
qed

text \<open>
  Claim C6. For a line-aligned backing array and a set index below \<^verbatim>\<open>SETS_PER_BANK\<close>,
  \<^verbatim>\<open>FindCandidates\<close> returns exactly the nodes of the array whose address, shifted right by
  \<^verbatim>\<open>NUM_CACHE_LINE_BITS\<close> and taken modulo \<open>2 ^ NUM_SET_INDEX_BITS\<close>, equals the set index;
  and on every address the mask test of the code agrees with that predicate.
\<close>

theorem FindCandidates_selects:
  assumes "array AND CACHE_LINE_BITS = 0" and "setIndex < SETS_PER_BANK"
  shows "FindCandidates array setIndex =
           Inr (filter (\<lambda>i. maps_to_set (node_address array i) setIndex) [0..<ARRAY_ENTRIES])
         \<and> ((address AND SET_INDEX_BITS = push_bit NUM_CACHE_LINE_BITS setIndex)
              = maps_to_set address setIndex)"
proof
  show "FindCandidates array setIndex =
           Inr (filter (\<lambda>i. maps_to_set (node_address array i) setIndex) [0..<ARRAY_ENTRIES])"
    using FindCandidates_loop_filter [OF assms, of 0 "[]"] by (simp add: FindCandidates_def)
  show "(address AND SET_INDEX_BITS = push_bit NUM_CACHE_LINE_BITS setIndex)
              = maps_to_set address setIndex"
    using mask_test_iff [of setIndex address] assms(2)
    by (simp add: maps_to_set_alt NUM_CACHE_LINE_BITS_def SETS_PER_BANK_def)
qed

theorem FindCandidates_selects_witness:
  "FindCandidates 0x7F3A40000000 27 =
           Inr (filter (\<lambda>i. maps_to_set (node_address 0x7F3A40000000 i) 27) [0..<ARRAY_ENTRIES])
         \<and> ((0x7F3A400006C0 AND SET_INDEX_BITS = push_bit NUM_CACHE_LINE_BITS (27 :: 64 word))
              = maps_to_set 0x7F3A400006C0 27)
         \<and> maps_to_set 0x7F3A400006C0 27"
proof -
  have a: "(0x7F3A40000000 :: 64 word) AND CACHE_LINE_BITS = 0"
    by (simp add: CACHE_LINE_BITS_def)
  have b: "(27 :: 64 word) < SETS_PER_BANK"
    by (simp add: SETS_PER_BANK_def)
  have c: "maps_to_set 0x7F3A400006C0 27"
    by (simp add: maps_to_set_def NUM_CACHE_LINE_BITS_def NUM_SET_INDEX_BITS_def drop_bit_eq_div)
  show ?thesis
    using FindCandidates_selects [OF a b, of "0x7F3A400006C0"] c by simp
qed

section \<open>SplitResultsIntoBanks\<close>


lemma advance_to_past_end:
  "\<forall>i<length ts. ts ! i < b \<Longrightarrow> a \<le> length ts \<Longrightarrow>
     advance_to ts b a = Inl (ReadPastEnd (length ts))"
proof (induction ts b a rule: advance_to.induct)
  case (1 ts b a)
  show ?case
  proof (cases "a < length ts")
    case True
    then have "ts ! a < b" using 1(2) by simp
    moreover have "advance_to ts b (a + 1) = Inl (ReadPastEnd (length ts))"
      using 1(1) [OF True \<open>ts ! a < b\<close> 1(2)] True by simp
    ultimately show ?thesis using True by (subst advance_to.simps) simp
  next
    case False
    with 1(3) have "a = length ts" by simp
    then show ?thesis by (subst advance_to.simps) simp
  qed
qed

lemma early_attacker_below: "i < length early_attacker \<Longrightarrow> early_attacker ! i < victim_start"
proof -
  assume "i < length early_attacker"
  then have i: "i < 5000000" by (simp add: early_attacker_def ATTACKER_TIMED_ITERATIONS_def)
  have "unat (1000 + 100 * (of_nat i :: 64 word)) = 1000 + 100 * i"
    using i by (simp add: unat_word_ariths unat_of_nat)
  then have "unat (1000 + 100 * (of_nat i :: 64 word)) < unat (2 ^ 40 :: 64 word)"
    using i by simp
  then have "1000 + 100 * (of_nat i :: 64 word) < 2 ^ 40"
    by (simp only: word_less_nat_alt)
  then show ?thesis
    using i by (simp add: early_attacker_def ATTACKER_TIMED_ITERATIONS_def victim_start_def)
qed

text \<open>
  Claim C5 says that \<^verbatim>\<open>SplitResultsIntoBanks\<close> reads only inside the attacker's timestamp
  array. The code has no such check: when every attacker timestamp lies below the first
  victim boundary, the first loop reads \<^verbatim>\<open>attackerTimesArray[ATTACKER_TIMED_ITERATIONS]\<close>,
  one past the end.
\<close>

theorem SplitResultsIntoBanks_reads_past_end:
  "length early_attacker = ATTACKER_TIMED_ITERATIONS \<and>
   SplitResultsIntoBanks early_attacker late_victims = Inl (ReadPastEnd ATTACKER_TIMED_ITERATIONS)"
proof -
  have len: "length early_attacker = ATTACKER_TIMED_ITERATIONS"
    by (simp add: early_attacker_def)
  have b: "late_victims ! 0 = victim_start"
    by (simp add: late_victims_def)
  have "advance_to early_attacker victim_start 0 = Inl (ReadPastEnd (length early_attacker))"
    by (rule advance_to_past_end) (simp_all add: early_attacker_below)
  then have "SplitResultsIntoBanks early_attacker late_victims = Inl (ReadPastEnd (length early_attacker))"
    unfolding SplitResultsIntoBanks_def
    by (subst SplitResultsIntoBanks_loop.simps) (simp add: LLC_BANKS_def b)
  with len show ?thesis by simp
qed

section \<open>Memory updates and rings\<close>

lemma bind_SomeE:
  assumes "Option.bind m f = Some r"
  obtains x where "m = Some x" "f x = Some r"
  using assms by (cases m) simp_all



lemma next_of_set_next [simp]: "next_of (set_next h p q) = (next_of h)(p := q)"
  by (simp add: set_next_def)

lemma prev_of_set_next [simp]: "prev_of (set_next h p q) = prev_of h"
  by (simp add: set_next_def)

lemma next_of_set_prev [simp]: "next_of (set_prev h p q) = next_of h"
  by (simp add: set_prev_def)

lemma prev_of_set_prev [simp]: "prev_of (set_prev h p q) = (prev_of h)(p := q)"
  by (simp add: set_prev_def)

lemma heap_eqI: "next_of h = next_of h' \<Longrightarrow> prev_of h = prev_of h' \<Longrightarrow> h = (h' :: heap)"
  by simp

lemma next_of_unlink: "next_of (unlink h c) = (next_of h)(prev_of h c := next_of h c)"
  by (simp add: unlink_def Let_def)

lemma prev_of_unlink: "prev_of (unlink h c) = (prev_of h)(next_of h c := prev_of h c)"
  by (auto simp: unlink_def Let_def fun_eq_iff)

lemma unlink_rev_eq: "unlink_rev h c = unlink h c"
  by (rule heap_eqI) (auto simp: unlink_rev_def unlink_def Let_def fun_eq_iff)

subsection \<open>Paths\<close>

lemma path_Cons: "path h (a # xs) \<longleftrightarrow> (xs = [] \<or> linked h a (hd xs) \<and> path h xs)"
  by (cases xs) auto

lemma path_append:
  "path h (xs @ ys) \<longleftrightarrow>
     path h xs \<and> path h ys \<and> (xs \<noteq> [] \<and> ys \<noteq> [] \<longrightarrow> linked h (last xs) (hd ys))"
proof (induction xs)
  case Nil
  then show ?case by simp
next
  case (Cons a xs)
  show ?case
  proof (cases xs)
    case Nil
    then show ?thesis by (cases ys) auto
  next
    case (Cons b zs)
    with Cons.IH show ?thesis by auto
  qed
qed

lemma path_cong:
  assumes "\<forall>x\<in>set (butlast xs). next_of h' x = next_of h x"
      and "\<forall>x\<in>set (tl xs). prev_of h' x = prev_of h x"
  shows "path h' xs = path h xs"
  using assms
proof (induction xs rule: path.induct)
  case (1 h a b xs)
  then show ?case by (auto simp: linked_def)
qed simp_all

lemma path_nth:
  "path h xs \<Longrightarrow> Suc i < length xs \<Longrightarrow> linked h (xs ! i) (xs ! Suc i)"
proof (induction xs arbitrary: i rule: path.induct)
  case (1 h a b xs)
  then show ?case by (cases i) auto
qed simp_all

subsection \<open>Rings\<close>

lemma ring_single: "ring h [p] \<longleftrightarrow> next_of h p = p \<and> prev_of h p = p"
  by (auto simp: ring_def linked_def)

lemma ring_rotate:
  assumes "ring h (xs @ ys)"
  shows "ring h (ys @ xs)"
proof (cases "xs = [] \<or> ys = []")
  case True
  with assms show ?thesis by auto
next
  case False
  then have ne: "xs \<noteq> []" "ys \<noteq> []" by simp_all
  from assms have d: "distinct (xs @ ys)" and p: "path h (xs @ ys)"
    and l: "linked h (last (xs @ ys)) (hd (xs @ ys))"
    by (simp_all add: ring_def)
  from p ne have p1: "path h xs" and p2: "path h ys" and l1: "linked h (last xs) (hd ys)"
    by (simp_all add: path_append)
  from l ne have l2: "linked h (last ys) (hd xs)" by simp
  have "path h (ys @ xs)"
    using p1 p2 l2 by (simp add: path_append)
  moreover have "linked h (last (ys @ xs)) (hd (ys @ xs))"
    using l1 ne by simp
  moreover have "distinct (ys @ xs)" using d by auto
  ultimately show ?thesis using ne by (simp add: ring_def)
qed

lemma ring_to_front:
  assumes "ring h xs" "p \<in> set xs"
  shows "\<exists>ys. ring h (p # ys) \<and> set (p # ys) = set xs \<and> length (p # ys) = length xs"
proof -
  from assms(2) obtain as bs where xs: "xs = as @ p # bs"
    by (auto simp: in_set_conv_decomp)
  with assms(1) have "ring h (as @ (p # bs))" by simp
  then have "ring h ((p # bs) @ as)"
    by (rule ring_rotate)
  then show ?thesis
    by (intro exI [of _ "bs @ as"]) (auto simp: xs)
qed

lemma ring_head_links:
  assumes "ring h (p # ys)"
  shows "next_of h p = hd (ys @ [p])" "prev_of h p = last (p # ys)"
    "prev_of h (next_of h p) = p" "next_of h (prev_of h p) = p"
proof -
  from assms have pth: "path h (p # ys)" and l: "linked h (last (p # ys)) p"
    by (simp_all add: ring_def)
  have f: "linked h p (hd (ys @ [p]))"
  proof (cases ys)
    case Nil
    with l show ?thesis by simp
  next
    case (Cons y zs)
    with pth show ?thesis by simp
  qed
  show "next_of h p = hd (ys @ [p])" using f by (simp add: linked_def)
  show "prev_of h p = last (p # ys)" using l by (simp add: linked_def)
  show "prev_of h (next_of h p) = p" using f by (simp add: linked_def)
  show "next_of h (prev_of h p) = p" using l by (simp add: linked_def)
qed

lemma ring_links:
  assumes "ring h xs" "p \<in> set xs"
  shows "prev_of h (next_of h p) = p" "next_of h (prev_of h p) = p"
    "next_of h p \<in> set xs" "prev_of h p \<in> set xs"
proof -
  from ring_to_front [OF assms] obtain ys where
    r: "ring h (p # ys)" and s: "set (p # ys) = set xs" by blast
  note l = ring_head_links [OF r]
  show "prev_of h (next_of h p) = p" "next_of h (prev_of h p) = p" by (rule l)+
  have "next_of h p \<in> set (p # ys)" unfolding l(1) by (cases ys) auto
  with s show "next_of h p \<in> set xs" by simp
  have "prev_of h p \<in> set (p # ys)" unfolding l(2) by (cases ys rule: rev_cases) auto
  with s show "prev_of h p \<in> set xs" by simp
qed

lemma set_tl_subset: "x \<in> set (tl xs) \<Longrightarrow> x \<in> set xs"
  by (cases xs) auto

lemma ring_cong:
  assumes "\<forall>x\<in>set xs. next_of h' x = next_of h x \<and> prev_of h' x = prev_of h x"
  shows "ring h' xs = ring h xs"
proof -
  have "path h' xs = path h xs"
    using assms by (intro path_cong) (auto dest: in_set_butlastD set_tl_subset)
  moreover have "xs \<noteq> [] \<Longrightarrow> linked h' (last xs) (hd xs) = linked h (last xs) (hd xs)"
    using assms by (auto simp: linked_def)
  ultimately show ?thesis by (auto simp: ring_def)
qed

lemma ring_frame:
  assumes "ring h xs" "same_outside S h h'" "set xs \<inter> S = {}"
  shows "ring h' xs"
proof -
  have "\<forall>x\<in>set xs. next_of h' x = next_of h x \<and> prev_of h' x = prev_of h x"
    using assms(2,3) by (auto simp: same_outside_def)
  from ring_cong [OF this] assms(1) show ?thesis by simp
qed

lemma same_outside_refl [simp]: "same_outside S h h"
  by (simp add: same_outside_def)

lemma same_outside_trans:
  "same_outside S h h' \<Longrightarrow> same_outside T h' h'' \<Longrightarrow> same_outside (S \<union> T) h h''"
  by (auto simp: same_outside_def)

lemma same_outside_mono: "same_outside S h h' \<Longrightarrow> S \<subseteq> T \<Longrightarrow> same_outside T h h'"
  by (auto simp: same_outside_def)

text \<open>Taking the head node out of a ring of at least two nodes.\<close>

lemma unlink_ring:
  assumes "ring h (c # ys)" "ys \<noteq> []"
  shows "ring (unlink h c) ys" "same_outside (set ys) h (unlink h c)"
    "next_of (unlink h c) c = hd ys" "next_of h c = hd ys"
proof -
  note l = ring_head_links [OF assms(1)]
  have n: "next_of h c = hd ys" and p: "prev_of h c = last ys"
    using l(1,2) assms(2) by auto
  have d: "distinct ys" "c \<notin> set ys" using assms(1) by (auto simp: ring_def)
  have pth: "path h ys" using assms(1) by (auto simp: ring_def path_Cons)
  have "path (unlink h c) ys = path h ys"
  proof (rule path_cong)
    have "distinct (butlast ys @ [last ys])"
      using d(1) assms(2) by simp
    then have "last ys \<notin> set (butlast ys)" by simp
    then show "\<forall>x\<in>set (butlast ys). next_of (unlink h c) x = next_of h x"
      by (auto simp: next_of_unlink p)
    show "\<forall>x\<in>set (tl ys). prev_of (unlink h c) x = prev_of h x"
      using d(1) assms(2) by (cases ys) (auto simp: prev_of_unlink n)
  qed
  with pth have "path (unlink h c) ys" by simp
  moreover have "linked (unlink h c) (last ys) (hd ys)"
    by (simp add: linked_def next_of_unlink prev_of_unlink n p)
  ultimately show "ring (unlink h c) ys"
    using d(1) assms(2) by (simp add: ring_def)
  show "same_outside (set ys) h (unlink h c)"
    using assms(2) by (auto simp: same_outside_def next_of_unlink prev_of_unlink n p)
  show "next_of (unlink h c) c = hd ys"
    using d(2) assms(2) by (auto simp: next_of_unlink n p)
  show "next_of h c = hd ys" by (rule n)
qed


lemma distinct_last_butlast: "distinct xs \<Longrightarrow> xs \<noteq> [] \<Longrightarrow> last xs \<notin> set (butlast xs)"
proof -
  assume "distinct xs" "xs \<noteq> []"
  then have "distinct (butlast xs @ [last xs])" by simp
  then show ?thesis by simp
qed

lemma next_of_insert_before:
  "next_of (insert_before h c a) = (next_of h)(c := a, prev_of h a := c)"
  by (simp add: insert_before_def)

lemma prev_of_insert_before:
  "prev_of (insert_before h c a) = (prev_of h)(c := prev_of h a, a := c)"
  by (simp add: insert_before_def)

lemma insert_before_ring:
  assumes "ring h (a # ys)" "c \<notin> set (a # ys)"
  shows "ring (insert_before h c a) (a # ys @ [c])"
    "same_outside (insert c (set (a # ys))) h (insert_before h c a)"
proof -
  let ?h = "insert_before h c a"
  note l = ring_head_links [OF assms(1)]
  have p: "prev_of h a = last (a # ys)" by (rule l(2))
  have d: "distinct (a # ys)" and pth: "path h (a # ys)"
    using assms(1) by (simp_all add: ring_def)
  have lb: "last (a # ys) \<notin> set (butlast (a # ys))"
    using d by (intro distinct_last_butlast) simp_all
  have cl: "c \<noteq> last (a # ys)" using assms(2) last_in_set [of "a # ys"] by auto
  have ca: "c \<noteq> a" using assms(2) by simp
  have "path ?h (a # ys) = path h (a # ys)"
  proof (rule path_cong)
    show "\<forall>x\<in>set (butlast (a # ys)). next_of ?h x = next_of h x"
      using lb assms(2) by (auto simp: next_of_insert_before p dest: in_set_butlastD)
    show "\<forall>x\<in>set (tl (a # ys)). prev_of ?h x = prev_of h x"
      using d assms(2) by (auto simp: prev_of_insert_before)
  qed
  with pth have 1: "path ?h (a # ys)" by simp
  have 2: "linked ?h (last (a # ys)) c"
    using ca by (simp add: linked_def next_of_insert_before prev_of_insert_before p)
  have 3: "linked ?h c a"
    using cl by (simp add: linked_def next_of_insert_before prev_of_insert_before p)
  have "path ?h ((a # ys) @ [c])"
    using 1 2 by (subst path_append) simp
  moreover have "distinct (a # ys @ [c])" using d assms(2) by simp
  moreover have "linked ?h (last (a # ys @ [c])) (hd (a # ys @ [c]))" using 3 by simp
  ultimately show "ring ?h (a # ys @ [c])" by (simp add: ring_def)
  have "last (a # ys) \<in> set (a # ys)" by (rule last_in_set) simp
  then show "same_outside (insert c (set (a # ys))) h ?h"
    by (auto simp: same_outside_def next_of_insert_before prev_of_insert_before p)
qed

text \<open>Taking any node out of a ring of at least two nodes.\<close>

lemma unlink_member:
  assumes "ring h xs" "c \<in> set xs" "2 \<le> length xs"
  shows "\<exists>ys. ring (unlink h c) ys \<and> set ys = set xs - {c} \<and> Suc (length ys) = length xs
           \<and> hd ys = next_of h c"
    "same_outside (set xs - {c}) h (unlink h c)"
    "next_of (unlink h c) c = next_of h c" "next_of h c \<in> set xs - {c}"
proof -
  from ring_to_front [OF assms(1,2)] obtain ys where
    r: "ring h (c # ys)" and s: "set (c # ys) = set xs" and n: "length (c # ys) = length xs"
    by blast
  have ne: "ys \<noteq> []" using n assms(3) by (cases ys) simp_all
  have c: "c \<notin> set ys" using r by (simp add: ring_def)
  note u = unlink_ring [OF r ne]
  have "set xs - {c} = insert c (set ys) - {c}" using s by simp
  also have "\<dots> = set ys" using c by blast
  finally have sy: "set xs - {c} = set ys" .
  have n': "Suc (length ys) = length xs" using n by simp
  have "ring (unlink h c) ys \<and> set ys = set xs - {c} \<and> Suc (length ys) = length xs
           \<and> hd ys = next_of h c"
    using u(1) u(4) n' by (simp only: sy simp_thms)
  then show "\<exists>ys. ring (unlink h c) ys \<and> set ys = set xs - {c} \<and> Suc (length ys) = length xs
           \<and> hd ys = next_of h c" ..
  show "same_outside (set xs - {c}) h (unlink h c)" using u(2) by (simp only: sy)
  show "next_of (unlink h c) c = next_of h c" using u(3,4) by simp
  have "hd ys \<in> set ys" using ne by simp
  then show "next_of h c \<in> set xs - {c}" by (simp only: sy u(4))
qed

subsection \<open>Walking a ring\<close>

lemma walk_length [simp]: "length (walk h p n) = n"
  by (induction n arbitrary: p) auto

lemma walk_path: "path h (p # ys) \<Longrightarrow> walk h p (Suc (length ys)) = p # ys"
proof (induction ys arbitrary: p)
  case Nil
  then show ?case by simp
next
  case (Cons y ys)
  then have "next_of h p = y" "path h (y # ys)" by (simp_all add: linked_def)
  with Cons.IH [of y] show ?case by simp
qed

lemma walk_ring: "ring h (p # ys) \<Longrightarrow> walk h p (Suc (length ys)) = p # ys"
  by (rule walk_path) (simp add: ring_def)

lemma ring_at_ring: "ring h (p # ys) \<Longrightarrow> ring_at h p (Suc (length ys))"
  unfolding ring_at_def by (subst walk_ring) assumption+

lemma ring_at_member:
  assumes "ring h xs" "p \<in> set xs"
  shows "ring_at h p (length xs)" "set (walk h p (length xs)) = set xs"
proof -
  from ring_to_front [OF assms] obtain ys where
    r: "ring h (p # ys)" and s: "set (p # ys) = set xs" and n: "length (p # ys) = length xs"
    by blast
  have "length xs = Suc (length ys)" using n by simp
  with walk_ring [OF r] have w: "walk h p (length xs) = p # ys" by (simp only:)
  show "ring_at h p (length xs)" using r w by (simp add: ring_at_def)
  show "set (walk h p (length xs)) = set xs" using w s by simp
qed

lemma funpow_path:
  "path h (p # ys) \<Longrightarrow> i \<le> length ys \<Longrightarrow> (next_of h ^^ i) p = (p # ys) ! i"
proof (induction i arbitrary: p ys)
  case 0
  then show ?case by simp
next
  case (Suc i)
  then obtain y zs where ys: "ys = y # zs" by (cases ys) auto
  with Suc.prems have "next_of h p = y" "path h (y # zs)" "i \<le> length zs"
    by (simp_all add: linked_def)
  with Suc.IH [of y zs] show ?case by (simp add: ys funpow_swap1)
qed

subsection \<open>SizeOfLinkedList on a ring\<close>

lemma SizeOfLinkedList_loop_path:
  "path h (node # zs) \<Longrightarrow> head \<notin> set (node # zs) \<Longrightarrow> next_of h (last (node # zs)) = head \<Longrightarrow>
     SizeOfLinkedList_loop h head node sz = Some (sz + Suc (length zs))"
proof (induction zs arbitrary: node sz)
  case Nil
  then show ?case
    by (subst SizeOfLinkedList_loop.simps, subst SizeOfLinkedList_loop.simps) simp
next
  case (Cons z zs)
  then have "next_of h node = z" "path h (z # zs)" "head \<notin> set (z # zs)"
    "next_of h (last (z # zs)) = head" "node \<noteq> head"
    by (auto simp: linked_def)
  with Cons.IH [of z "sz + 1"] show ?case
    by (subst SizeOfLinkedList_loop.simps) simp
qed

lemma SizeOfLinkedList_ring:
  assumes "ring h (p # ys)"
  shows "SizeOfLinkedList h p = Some (Suc (length ys))"
proof (cases ys)
  case Nil
  with assms show ?thesis by (simp add: SizeOfLinkedList_def ring_single)
next
  case (Cons y zs)
  note l = ring_head_links [OF assms]
  have n: "next_of h p = y" using l(1) Cons by simp
  have "p \<noteq> y" using assms Cons by (auto simp: ring_def)
  moreover have "SizeOfLinkedList_loop h p y 1 = Some (1 + Suc (length zs))"
  proof (rule SizeOfLinkedList_loop_path)
    show "path h (y # zs)" using assms Cons by (simp add: ring_def)
    show "p \<notin> set (y # zs)" using assms Cons by (simp add: ring_def)
    show "next_of h (last (y # zs)) = p" using assms Cons by (simp add: ring_def linked_def)
  qed
  ultimately show ?thesis by (simp add: SizeOfLinkedList_def n Cons)
qed

lemma SizeOfLinkedList_member:
  assumes "ring h xs" "p \<in> set xs"
  shows "SizeOfLinkedList h p = Some (length xs)"
proof -
  from ring_to_front [OF assms] obtain ys where
    r: "ring h (p # ys)" and n: "length (p # ys) = length xs" by blast
  from SizeOfLinkedList_ring [OF r] n show ?thesis by simp
qed

section \<open>The randomized chain and the seed\<close>


subsection \<open>RandomizeLinkedList builds a ring\<close>

lemma path_nthI:
  "(\<And>i. Suc i < length xs \<Longrightarrow> linked h (xs ! i) (xs ! Suc i)) \<Longrightarrow> path h xs"
proof (induction xs rule: path.induct)
  case (1 h a b xs)
  have "linked h a b" using 1(2) [of 0] by simp
  moreover have "path h (b # xs)"
  proof (rule 1(1))
    fix i assume "Suc i < length (b # xs)"
    then show "linked h ((b # xs) ! i) ((b # xs) ! Suc i)"
      using 1(2) [of "Suc i"] by simp
  qed
  ultimately show ?case by simp
qed simp_all

lemma ring_nthI:
  assumes "xs \<noteq> []" "distinct xs"
    and l: "\<And>i. i < length xs \<Longrightarrow> linked h (xs ! i) (xs ! (Suc i mod length xs))"
  shows "ring h xs"
proof -
  have "path h xs"
  proof (rule path_nthI)
    fix i assume "Suc i < length xs"
    then show "linked h (xs ! i) (xs ! Suc i)" using l [of i] by simp
  qed
  moreover have "linked h (last xs) (hd xs)"
    using l [of "length xs - 1"] assms(1) by (simp add: last_conv_nth hd_conv_nth)
  ultimately show ?thesis using assms(1,2) by (simp add: ring_def)
qed

lemma make_dictionary_prefix:
  assumes "distinct perm" "m \<le> length perm" "j < m"
  shows "fold (\<lambda>i dictionary. dictionary(perm ! i := i)) [0..<m] d0 (perm ! j) = j"
  using assms(2,3)
proof (induction m)
  case 0
  then show ?case by simp
next
  case (Suc m)
  show ?case
  proof (cases "j = m")
    case True
    then show ?thesis by simp
  next
    case False
    with Suc.prems have j: "j < m" and m: "m < length perm" by simp_all
    then have "perm ! j \<noteq> perm ! m"
      using assms(1) by (simp add: nth_eq_iff_index_eq)
    with Suc.IH j m show ?thesis by simp
  qed
qed

lemma shuffled_distinct: "shuffled perm n \<Longrightarrow> distinct perm"
  by (simp add: shuffled_def card_distinct)

lemma make_dictionary_inverse:
  assumes "shuffled perm n" "i < n"
  shows "make_dictionary perm n i < n" "perm ! make_dictionary perm n i = i"
proof -
  from assms have "i \<in> set perm" by (simp add: shuffled_def)
  then obtain j where j: "j < length perm" "perm ! j = i" by (auto simp: in_set_conv_nth)
  have n: "length perm = n" using assms(1) by (simp add: shuffled_def)
  have "make_dictionary perm n (perm ! j) = j"
    unfolding make_dictionary_def
    using shuffled_distinct [OF assms(1)] j(1) n by (intro make_dictionary_prefix) simp_all
  then have d: "make_dictionary perm n i = j" using j(2) by simp
  show "make_dictionary perm n i < n" using d j(1) n by simp
  show "perm ! make_dictionary perm n i = i" using d j(2) by simp
qed

lemma link_cycle_next:
  assumes "distinct xs" "m \<le> length xs" "i < m"
  shows "next_of (fold (\<lambda>i h. set_prev (set_next h (xs ! i) (xs ! (Suc i mod length xs)))
            (xs ! (Suc i mod length xs)) (xs ! i)) [0..<m] h) (xs ! i) = xs ! (Suc i mod length xs)"
  using assms(2,3)
proof (induction m)
  case 0
  then show ?case by simp
next
  case (Suc m)
  show ?case
  proof (cases "i = m")
    case True
    then show ?thesis by simp
  next
    case False
    with Suc.prems have i: "i < m" and m: "m < length xs" by simp_all
    then have "xs ! i \<noteq> xs ! m"
      using assms(1) by (simp add: nth_eq_iff_index_eq)
    with Suc.IH i m show ?thesis by simp
  qed
qed

lemma Suc_mod_inj:
  assumes "i < n" "m < n" "Suc i mod n = Suc m mod n"
  shows "i = m"
proof -
  have a: "Suc i mod n = (if Suc i = n then 0 else Suc i)" using assms(1) by auto
  have b: "Suc m mod n = (if Suc m = n then 0 else Suc m)" using assms(2) by auto
  from assms(3) show ?thesis unfolding a b by (auto split: if_splits)
qed

lemma link_cycle_prev:
  assumes "distinct xs" "m \<le> length xs" "i < m"
  shows "prev_of (fold (\<lambda>i h. set_prev (set_next h (xs ! i) (xs ! (Suc i mod length xs)))
            (xs ! (Suc i mod length xs)) (xs ! i)) [0..<m] h) (xs ! (Suc i mod length xs)) = xs ! i"
  using assms(2,3)
proof (induction m)
  case 0
  then show ?case by simp
next
  case (Suc m)
  show ?case
  proof (cases "i = m")
    case True
    then show ?thesis by simp
  next
    case False
    with Suc.prems have i: "i < m" and m: "m < length xs" by simp_all
    have "Suc i mod length xs \<noteq> Suc m mod length xs"
      using Suc_mod_inj [of i "length xs" m] i m False by auto
    moreover have "0 < length xs" using m by (cases xs) simp_all
    then have "Suc i mod length xs < length xs" "Suc m mod length xs < length xs"
      by simp_all
    ultimately have "xs ! (Suc i mod length xs) \<noteq> xs ! (Suc m mod length xs)"
      using assms(1) by (simp add: nth_eq_iff_index_eq)
    with Suc.IH i m show ?thesis by simp
  qed
qed

lemma link_cycle_ring:
  assumes "distinct xs" "xs \<noteq> []"
  shows "ring (fold (\<lambda>i h. set_prev (set_next h (xs ! i) (xs ! (Suc i mod length xs)))
            (xs ! (Suc i mod length xs)) (xs ! i)) [0..<length xs] h) xs"
proof (rule ring_nthI [OF assms(2,1)])
  fix i assume "i < length xs"
  then show "linked (fold (\<lambda>i h. set_prev (set_next h (xs ! i) (xs ! (Suc i mod length xs)))
            (xs ! (Suc i mod length xs)) (xs ! i)) [0..<length xs] h) (xs ! i) (xs ! (Suc i mod length xs))"
    unfolding linked_def
    using link_cycle_next [OF assms(1) le_refl] link_cycle_prev [OF assms(1) le_refl] by blast
qed

lemma link_pair_nth:
  assumes "i < length candidates"
  shows "link_pair candidates d (length candidates) i h =
     set_prev (set_next h (map (\<lambda>i. candidates ! d i) [0..<length candidates] ! i)
                 (map (\<lambda>i. candidates ! d i) [0..<length candidates]
                    ! (Suc i mod length (map (\<lambda>i. candidates ! d i) [0..<length candidates]))))
        (map (\<lambda>i. candidates ! d i) [0..<length candidates]
                    ! (Suc i mod length (map (\<lambda>i. candidates ! d i) [0..<length candidates])))
        (map (\<lambda>i. candidates ! d i) [0..<length candidates] ! i)"
proof -
  have "0 < length candidates" using assms by linarith
  then have "Suc i mod length candidates < length candidates" by simp
  then show ?thesis using assms by (simp add: link_pair_def Let_def)
qed

lemma RandomizeLinkedList_fold:
  "RandomizeLinkedList h candidates shuffle =
     fold (\<lambda>i h. set_prev (set_next h (xs ! i) (xs ! (Suc i mod length xs)))
            (xs ! (Suc i mod length xs)) (xs ! i)) [0..<length xs] h"
  if "xs = map (\<lambda>i. candidates ! make_dictionary (shuffle (length candidates)) (length candidates) i)
            [0..<length candidates]"
proof -
  have l: "length xs = length candidates" using that by simp
  have "RandomizeLinkedList h candidates shuffle =
      fold (link_pair candidates (make_dictionary (shuffle (length candidates)) (length candidates))
              (length candidates))
        [0..<length candidates] h"
    by (simp add: RandomizeLinkedList_def Let_def)
  also have "\<dots> = fold (\<lambda>i h. set_prev (set_next h (xs ! i) (xs ! (Suc i mod length xs)))
            (xs ! (Suc i mod length xs)) (xs ! i)) [0..<length candidates] h"
  proof (rule fold_cong [OF refl refl])
    fix i assume "i \<in> set [0..<length candidates]"
    then have "i < length candidates" by simp
    from link_pair_nth [OF this]
    show "link_pair candidates (make_dictionary (shuffle (length candidates)) (length candidates))
            (length candidates) i =
      (\<lambda>h. set_prev (set_next h (xs ! i) (xs ! (Suc i mod length xs)))
            (xs ! (Suc i mod length xs)) (xs ! i))"
      unfolding that by (intro ext)
  qed
  finally show ?thesis by (simp only: l)
qed

lemma RandomizeLinkedList_ring:
  assumes "distinct candidates" "candidates \<noteq> []" "shuffled (shuffle (length candidates)) (length candidates)"
  shows "\<exists>xs. ring (RandomizeLinkedList h candidates shuffle) xs \<and> set xs = set candidates
           \<and> length xs = length candidates"
proof -
  define n where "n = length candidates"
  define perm where "perm = shuffle n"
  define d where "d = make_dictionary perm n"
  define xs where "xs = map (\<lambda>i. candidates ! d i) [0..<n]"
  have inv1: "\<And>i. i < n \<Longrightarrow> d i < n" and inv2: "\<And>i. i < n \<Longrightarrow> perm ! d i = i"
    using make_dictionary_inverse [OF assms(3)] by (simp_all add: d_def n_def perm_def)
  have n: "0 < n" using assms(2) by (simp add: n_def)
  have inj: "inj_on d {..<n}"
  proof (rule inj_onI)
    fix i j assume "i \<in> {..<n}" "j \<in> {..<n}" "d i = d j"
    then have "i < n" "j < n" "d i = d j" by simp_all
    then show "i = j" by (metis inv2)
  qed
  have img: "d ` {..<n} = {..<n}"
  proof (rule card_subset_eq)
    show "finite {..<n}" by simp
    show "d ` {..<n} \<subseteq> {..<n}" using inv1 by auto
    show "card (d ` {..<n}) = card {..<n}" by (rule card_image) (rule inj)
  qed
  have "inj_on (\<lambda>i. candidates ! d i) (set [0..<n])"
  proof (rule inj_onI)
    fix i j assume a: "i \<in> set [0..<n]" "j \<in> set [0..<n]" "candidates ! d i = candidates ! d j"
    then have ij: "i < n" "j < n" by simp_all
    have "d i = d j"
      using assms(1) inv1 [OF ij(1)] inv1 [OF ij(2)] a(3)
      by (simp add: nth_eq_iff_index_eq n_def)
    then show "i = j" by (metis inv2 ij)
  qed
  then have dist: "distinct xs" by (simp add: xs_def distinct_map)
  have ne: "xs \<noteq> []" using n by (simp add: xs_def)
  have "set xs = (\<lambda>i. candidates ! d i) ` {..<n}"
    by (simp add: xs_def atLeast0LessThan)
  also have "\<dots> = (\<lambda>j. candidates ! j) ` (d ` {..<n})"
    by (simp only: image_image)
  also have "\<dots> = (\<lambda>j. candidates ! j) ` {..<n}"
    by (simp only: img)
  also have "\<dots> = set candidates"
    unfolding n_def set_conv_nth by blast
  finally have set: "set xs = set candidates" .
  have len: "length xs = length candidates" by (simp add: xs_def n_def)
  have "RandomizeLinkedList h candidates shuffle =
     fold (\<lambda>i h. set_prev (set_next h (xs ! i) (xs ! (Suc i mod length xs)))
            (xs ! (Suc i mod length xs)) (xs ! i)) [0..<length xs] h"
    by (rule RandomizeLinkedList_fold) (simp add: xs_def d_def n_def perm_def)
  then have "ring (RandomizeLinkedList h candidates shuffle) xs"
    using link_cycle_ring [OF dist ne] by (simp only:)
  with set len show ?thesis by blast
qed

subsection \<open>Seeding the conflict ring\<close>

lemma split_ring:
  assumes "ring h (as @ bs)" "as \<noteq> []" "bs \<noteq> []"
    and n: "next_of h' = (next_of h)(last bs := hd bs, last as := hd as)"
    and p: "prev_of h' = (prev_of h)(hd bs := last bs, hd as := last as)"
  shows "ring h' as" "ring h' bs" "same_outside (set (as @ bs)) h h'"
proof -
  from assms(1) have d: "distinct (as @ bs)" and pth: "path h (as @ bs)"
    by (simp_all add: ring_def)
  from pth assms(2,3) have pa: "path h as" and pb: "path h bs"
    by (simp_all add: path_append)
  have da: "distinct as" and db: "distinct bs" and dj: "set as \<inter> set bs = {}"
    using d by simp_all
  have la: "last as \<in> set as" "hd as \<in> set as" using assms(2) by simp_all
  have lb: "last bs \<in> set bs" "hd bs \<in> set bs" using assms(3) by simp_all
  have "path h' as = path h as"
  proof (rule path_cong)
    show "\<forall>x\<in>set (butlast as). next_of h' x = next_of h x"
      using distinct_last_butlast [OF da assms(2)] lb(1) dj
      by (auto simp: n dest: in_set_butlastD)
    show "\<forall>x\<in>set (tl as). prev_of h' x = prev_of h x"
      using da assms(2) lb(2) dj by (cases as) (auto simp: p)
  qed
  moreover have "linked h' (last as) (hd as)" by (simp add: linked_def n p)
  ultimately show "ring h' as" using pa da assms(2) by (simp add: ring_def)
  have ab: "last as \<noteq> last bs" "hd as \<noteq> hd bs" using la lb dj by auto
  have "path h' bs = path h bs"
  proof (rule path_cong)
    show "\<forall>x\<in>set (butlast bs). next_of h' x = next_of h x"
      using distinct_last_butlast [OF db assms(3)] la(1) dj
      by (auto simp: n dest: in_set_butlastD)
    show "\<forall>x\<in>set (tl bs). prev_of h' x = prev_of h x"
      using db assms(3) la(2) dj by (cases bs) (auto simp: p)
  qed
  moreover have "linked h' (last bs) (hd bs)" using ab by (simp add: linked_def n p)
  ultimately show "ring h' bs" using pb db assms(3) by (simp add: ring_def)
  show "same_outside (set (as @ bs)) h h'"
    using la lb by (auto simp: same_outside_def n p)
qed

lemma seed_conflict_set_ring:
  assumes "ring h xs" "WAYS_PER_BANK < length xs"
  shows "\<exists>h'. seed_conflict_set h (hd xs) = (h', hd xs, xs ! WAYS_PER_BANK)
           \<and> ring h' (take WAYS_PER_BANK xs) \<and> ring h' (drop WAYS_PER_BANK xs)
           \<and> same_outside (set xs) h h'"
proof -
  let ?w = WAYS_PER_BANK
  let ?as = "take ?w xs" and ?bs = "drop ?w xs"
  have w: "0 < ?w" by (simp add: WAYS_PER_BANK_def)
  have xs: "xs = ?as @ ?bs" by simp
  have ne: "?as \<noteq> []" "?bs \<noteq> []" using assms(2) w by auto
  obtain p ys where c: "xs = p # ys" using assms(2) by (cases xs) auto
  have pth: "path h (p # ys)" using assms(1) c by (simp add: ring_def)
  have hdb: "hd ?bs = xs ! ?w" using assms(2) by (simp add: hd_drop_conv_nth)
  have hda: "hd ?as = hd xs" using w by (cases xs) (auto simp: take_Suc_conv_app_nth gr0_conv_Suc)
  have la: "length ?as = ?w" using assms(2) by simp
  have "last ?as = ?as ! (?w - 1)" by (metis last_conv_nth ne(1) la)
  then have lasta: "last ?as = xs ! (?w - 1)" using w by simp
  have lastb: "last ?bs = last xs" using assms(2) by simp
  have csh: "(next_of h ^^ ?w) (hd xs) = xs ! ?w"
    using funpow_path [OF pth, of ?w] assms(2) c by simp
  have "linked h (xs ! (?w - 1)) (xs ! Suc (?w - 1))"
    using assms(1,2) w by (intro path_nth) (simp_all add: ring_def)
  then have tail1: "prev_of h (xs ! ?w) = last ?as"
    using w by (simp add: linked_def lasta)
  have tail2: "prev_of h (hd xs) = last ?bs"
    using ring_head_links(2) [of h p ys] assms(1) c lastb by simp
  define h' where "h' = fst (seed_conflict_set h (hd xs))"
  have eq: "seed_conflict_set h (hd xs) = (h', hd xs, xs ! ?w)"
    by (simp add: h'_def seed_conflict_set_def Let_def csh)
  have hb_ne: "hd xs \<noteq> xs ! ?w"
    using assms(1,2) w by (simp add: ring_def hd_conv_nth nth_eq_iff_index_eq)
  have n: "next_of h' = (next_of h)(last ?bs := hd ?bs, last ?as := hd ?as)"
    by (simp add: h'_def seed_conflict_set_def Let_def csh tail1 tail2 hdb hda)
  have p: "prev_of h' = (prev_of h)(hd ?bs := last ?bs, hd ?as := last ?as)"
    using hb_ne by (simp add: h'_def seed_conflict_set_def Let_def csh tail1 tail2 hdb hda)
  have r: "ring h (?as @ ?bs)" using assms(1) by simp
  from split_ring [OF r ne n p] eq show ?thesis by auto
qed

section \<open>Conflict-set construction\<close>


subsection \<open>Growing the conflict ring\<close>

lemma move_to_conflict_set_eq:
  "move_to_conflict_set h c cdh a =
     (insert_before (unlink h c) c a, next_of h c, if c = cdh then next_of h c else cdh)"
proof -
  have "set_next (set_prev h (next_of h c) (prev_of h c)) (prev_of h c) (next_of h c) = unlink h c"
    by (rule heap_eqI) (simp_all add: next_of_unlink prev_of_unlink)
  then show ?thesis
    by (simp only: move_to_conflict_set_def Let_def insert_before_def)
qed

lemma two_rings_card:
  assumes "ring h cs" "ring h ds" "set cs \<inter> set ds = {}"
  shows "card (set cs \<union> set ds) = length cs + length ds"
proof -
  have "distinct cs" "distinct ds" using assms(1,2) by (simp_all add: ring_def)
  then have "card (set cs) = length cs" "card (set ds) = length ds"
    by (simp_all add: distinct_card)
  then show ?thesis using assms(3) by (simp add: card_Un_disjoint)
qed

lemma move_to_conflict_set_rings:
  assumes cs: "ring h cs" and ds: "ring h ds" and dj: "set cs \<inter> set ds = {}"
    and c: "c \<in> set ds" and cdh: "cdh \<in> set ds" and len: "2 \<le> length ds"
  shows "\<exists>h' cdh' ds'. move_to_conflict_set h c cdh (hd cs) = (h', next_of h c, cdh')
           \<and> ring h' (cs @ [c]) \<and> ring h' ds' \<and> set ds' = set ds - {c}
           \<and> Suc (length ds') = length ds \<and> next_of h c \<in> set ds' \<and> cdh' \<in> set ds'
           \<and> same_outside (set cs \<union> set ds) h h'"
proof -
  obtain a ys where cs_eq: "cs = a # ys" using cs by (cases cs) (auto simp: ring_def)
  let ?h1 = "unlink h c"
  let ?h' = "insert_before ?h1 c a"
  let ?cdh' = "if c = cdh then next_of h c else cdh"
  from unlink_member(1) [OF ds c len] obtain ds' where
    r1: "ring ?h1 ds'" and s1: "set ds' = set ds - {c}" and l1: "Suc (length ds') = length ds"
    by blast
  note so1 = unlink_member(2) [OF ds c len]
  note nx = unlink_member(4) [OF ds c len]
  have ccs: "c \<notin> set cs" using c dj by auto
  have "ring ?h1 cs"
    by (rule ring_frame [OF cs so1]) (use dj in auto)
  then have r2: "ring ?h1 (a # ys)" and cn: "c \<notin> set (a # ys)" using ccs by (simp_all add: cs_eq)
  note ib = insert_before_ring [OF r2 cn]
  have rc: "ring ?h' (cs @ [c])" using ib(1) by (simp add: cs_eq)
  have rd: "ring ?h' ds'"
    by (rule ring_frame [OF r1 ib(2)]) (use s1 dj cs_eq in auto)
  have so: "same_outside (set cs \<union> set ds) h ?h'"
  proof -
    have "same_outside ((set ds - {c}) \<union> insert c (set (a # ys))) h ?h'"
      using so1 ib(2) by (rule same_outside_trans)
    then show ?thesis
      by (rule same_outside_mono) (use cs_eq c in auto)
  qed
  have cd: "?cdh' \<in> set ds'" using cdh nx s1 by auto
  have nd: "next_of h c \<in> set ds'" using nx s1 by simp
  have mv: "move_to_conflict_set h c cdh (hd cs) = (?h', next_of h c, ?cdh')"
    by (simp add: move_to_conflict_set_eq cs_eq)
  show ?thesis using mv rc rd s1 l1 nd cd so by blast
qed

lemma grow_inv_step_move:
  assumes "grow_inv U h a count c cdh" "count + 2 \<le> card U"
  shows "\<exists>h' cdh'. move_to_conflict_set h c cdh a = (h', next_of h c, cdh')
           \<and> grow_inv U h' a (count + 1) (next_of h c) cdh'"
proof -
  from assms(1) obtain cs ds where
    cs: "ring h cs" and ds: "ring h ds" and dj: "set cs \<inter> set ds = {}"
    and u: "set cs \<union> set ds = U" and hd: "hd cs = a" and l: "length cs = count"
    and c: "c \<in> set ds" and cdh: "cdh \<in> set ds"
    unfolding grow_inv_def by blast
  have "card U = length cs + length ds"
    using two_rings_card [OF cs ds dj] u by simp
  with assms(2) l have len: "2 \<le> length ds" by simp
  from move_to_conflict_set_rings [OF cs ds dj c cdh len] obtain h' cdh' ds' where
    m: "move_to_conflict_set h c cdh (hd cs) = (h', next_of h c, cdh')"
    and r1: "ring h' (cs @ [c])" and r2: "ring h' ds'" and s: "set ds' = set ds - {c}"
    and n: "next_of h c \<in> set ds'" and cd: "cdh' \<in> set ds'"
    by blast
  have ne: "cs \<noteq> []" using cs by (simp add: ring_def)
  have "set (cs @ [c]) \<inter> set ds' = {}" using s dj by auto
  moreover have "set (cs @ [c]) \<union> set ds' = U" using s u c by auto
  moreover have "hd (cs @ [c]) = a" using hd ne by simp
  moreover have "length (cs @ [c]) = count + 1" using l by simp
  ultimately have "grow_inv U h' a (count + 1) (next_of h c) cdh'"
    unfolding grow_inv_def using r1 r2 n cd by blast
  with m hd show ?thesis by blast
qed

lemma grow_inv_step_skip:
  assumes "grow_inv U h a count c cdh"
  shows "grow_inv U h a count (next_of h c) cdh"
proof -
  from assms obtain cs ds where
    *: "ring h cs" "ring h ds" "set cs \<inter> set ds = {}" "set cs \<union> set ds = U" "hd cs = a"
       "length cs = count" "c \<in> set ds" "cdh \<in> set ds"
    unfolding grow_inv_def by blast
  from ring_links(3) [OF *(2) *(7)] have "next_of h c \<in> set ds" .
  with * show ?thesis unfolding grow_inv_def by blast
qed

lemma Probe_mono: "Probe tm k h s c = Some (b, k') \<Longrightarrow> k < k'"
proof -
  assume "Probe tm k h s c = Some (b, k')"
  then obtain t where "Probe_loop tm k 0 = Some (t, k')"
    by (auto simp: Probe_def split: Option.bind_splits)
  from Probe_loop_returns [OF this] not_plausible_0 show ?thesis
    by (simp add: Probe_loop_post_def)
qed

lemma grow_conflict_set_returns:
  assumes "grow_conflict_set tm k h a count c cdh = Some r"
  shows "grow_post U tm k h a count c cdh r"
proof (rule grow_conflict_set.raw_induct [where P = "grow_post U", OF _ assms])
  fix f tm k h a count c cdh r
  assume ih: "\<And>tm k h a count c cdh r. f tm k h a count c cdh = Some r
                \<Longrightarrow> grow_post U tm k h a count c cdh r"
    and eq: "(if count < CONFLICT_SET_SIZE then
        do { (missToDRAM, k') \<leftarrow> Probe tm k h a c;
             if \<not> missToDRAM then
               (case move_to_conflict_set h c cdh a of
                  (h', nextCandidate, candidateSetHead') \<Rightarrow>
                    f tm k' h' a (count + 1) nextCandidate candidateSetHead')
             else f tm k' h a count (next_of h c) cdh }
      else Some (k, h, cdh)) = Some r"
  show "grow_post U tm k h a count c cdh r"
    unfolding grow_post_def
  proof (intro impI)
    assume pre: "grow_inv U h a count c cdh \<and> count \<le> CONFLICT_SET_SIZE
        \<and> CONFLICT_SET_SIZE + 2 \<le> card U"
    then have inv: "grow_inv U h a count c cdh" and le: "count \<le> CONFLICT_SET_SIZE"
      and big: "CONFLICT_SET_SIZE + 2 \<le> card U" by simp_all
    show "case r of (k', h', cdh') \<Rightarrow> k \<le> k' \<and> grow_inv U h' a CONFLICT_SET_SIZE cdh' cdh'"
    proof (cases "count < CONFLICT_SET_SIZE")
      case False
      with le have c240: "count = CONFLICT_SET_SIZE" by simp
      from False eq have r: "r = (k, h, cdh)" by simp
      from inv have "grow_inv U h a CONFLICT_SET_SIZE cdh cdh"
        unfolding grow_inv_def c240 by blast
      with r show ?thesis by simp
    next
      case True
      with eq obtain miss k' where pr: "Probe tm k h a c = Some (miss, k')"
        and rest: "(if \<not> miss then
               (case move_to_conflict_set h c cdh a of
                  (h', nextCandidate, candidateSetHead') \<Rightarrow>
                    f tm k' h' a (count + 1) nextCandidate candidateSetHead')
             else f tm k' h a count (next_of h c) cdh) = Some r"
        by (auto split: Option.bind_splits)
      have kk: "k < k'" by (rule Probe_mono [OF pr])
      show ?thesis
      proof (cases miss)
        case True
        with rest have "f tm k' h a count (next_of h c) cdh = Some r" by simp
        from ih [OF this] grow_inv_step_skip [OF inv] le big kk
        show ?thesis by (auto simp: grow_post_def)
      next
        case False
        have "count + 2 \<le> card U" using big \<open>count < CONFLICT_SET_SIZE\<close> by simp
        from grow_inv_step_move [OF inv this] obtain h' cdh' where
          m: "move_to_conflict_set h c cdh a = (h', next_of h c, cdh')"
          and inv': "grow_inv U h' a (count + 1) (next_of h c) cdh'" by blast
        from rest False m have "f tm k' h' a (count + 1) (next_of h c) cdh' = Some r" by simp
        from ih [OF this] inv' \<open>count < CONFLICT_SET_SIZE\<close> big kk
        show ?thesis by (auto simp: grow_post_def)
      qed
    qed
  qed
qed

text \<open>A reading inside the window that does not exceed the threshold: the probe says "hit".\<close>

lemma Probe_first_reading:
  "plausible (tm k) \<Longrightarrow> Probe tm k h s c = Some (tm k > LLC_CYCLE_THRESHOLD, k + 1)"
  using Probe_loop_run [of 0 0 tm k] not_plausible_0 by (simp add: Probe_def)

lemma Probe_hit: "plausible (tm k) \<Longrightarrow> \<not> tm k > LLC_CYCLE_THRESHOLD \<Longrightarrow>
    Probe tm k h s c = Some (False, k + 1)"
  using Probe_first_reading [of tm k h s c] by simp

lemma Probe_miss: "plausible (tm k) \<Longrightarrow> tm k > LLC_CYCLE_THRESHOLD \<Longrightarrow>
    Probe tm k h s c = Some (True, k + 1)"
  using Probe_first_reading [of tm k h s c] by simp

lemma grow_conflict_set_run:
  assumes "grow_inv U h a count c cdh" "count + n = CONFLICT_SET_SIZE"
    "CONFLICT_SET_SIZE + 2 \<le> card U"
    "\<forall>j<n. plausible (tm (k + j)) \<and> \<not> tm (k + j) > LLC_CYCLE_THRESHOLD"
  shows "\<exists>h' cdh'. grow_conflict_set tm k h a count c cdh = Some (k + n, h', cdh')
           \<and> grow_inv U h' a CONFLICT_SET_SIZE cdh' cdh'"
  using assms
proof (induction n arbitrary: h count c cdh k)
  case 0
  then have "count = CONFLICT_SET_SIZE" by simp
  moreover from 0(1) have "grow_inv U h a count cdh cdh" unfolding grow_inv_def by blast
  ultimately show ?case
    by (subst grow_conflict_set.simps) simp
next
  case (Suc n)
  have lt: "count < CONFLICT_SET_SIZE" using Suc.prems(2) by simp
  have pl: "plausible (tm k)" "\<not> tm k > LLC_CYCLE_THRESHOLD" using Suc.prems(4) by force+
  have pr: "Probe tm k h a c = Some (False, k + 1)"
    using Probe_first_reading [of tm k h a c] pl by simp
  have "count + 2 \<le> card U" using Suc.prems(3) lt by simp
  from grow_inv_step_move [OF Suc.prems(1) this] obtain h' cdh' where
    m: "move_to_conflict_set h c cdh a = (h', next_of h c, cdh')"
    and inv': "grow_inv U h' a (count + 1) (next_of h c) cdh'" by blast
  have rest: "\<forall>j<n. plausible (tm (k + 1 + j)) \<and> \<not> tm (k + 1 + j) > LLC_CYCLE_THRESHOLD"
  proof (intro allI impI)
    fix j assume "j < n"
    then have "Suc j < Suc n" by simp
    with Suc.prems(4) have "plausible (tm (k + Suc j)) \<and> \<not> tm (k + Suc j) > LLC_CYCLE_THRESHOLD"
      by blast
    then show "plausible (tm (k + 1 + j)) \<and> \<not> tm (k + 1 + j) > LLC_CYCLE_THRESHOLD" by simp
  qed
  have cn: "count + 1 + n = CONFLICT_SET_SIZE" using Suc.prems(2) by simp
  from Suc.IH [OF inv' cn Suc.prems(3) rest] obtain h'' cdh'' where
    "grow_conflict_set tm (k + 1) h' a (count + 1) (next_of h c) cdh' = Some (k + 1 + n, h'', cdh'')"
    "grow_inv U h'' a CONFLICT_SET_SIZE cdh'' cdh''" by blast
  then show ?case
    using lt pr m by (subst grow_conflict_set.simps) simp
qed


lemma warmup_run:
  "\<forall>j<n. plausible (tm (k + j)) \<Longrightarrow> warmup tm k h a c n = Some (k + n)"
proof (induction n arbitrary: k)
  case 0
  then show ?case by simp
next
  case (Suc n)
  have p: "plausible (tm k)" using Suc.prems by force
  have "\<forall>j<n. plausible (tm (k + 1 + j))"
  proof (intro allI impI)
    fix j assume "j < n"
    then have "plausible (tm (k + Suc j))" using Suc.prems by blast
    then show "plausible (tm (k + 1 + j))" by simp
  qed
  from Suc.IH [OF this] Probe_first_reading [of tm k h a c] p show ?case
    by simp
qed

lemma warmup_mono: "warmup tm k h a c n = Some k' \<Longrightarrow> k \<le> k'"
proof (induction n arbitrary: k)
  case 0
  then show ?case by simp
next
  case (Suc n)
  then obtain b k1 where p: "Probe tm k h a c = Some (b, k1)" and w: "warmup tm k1 h a c n = Some k'"
    by (auto split: Option.bind_splits)
  from Probe_mono [OF p] Suc.IH [OF w] show ?case by simp
qed

lemma grow_inv_sizes:
  assumes "grow_inv U h a count c cdh"
  shows "SizeOfLinkedList h a = Some count" "SizeOfLinkedList h cdh = Some (card U - count)"
proof -
  from assms obtain cs ds where
    *: "ring h cs" "ring h ds" "set cs \<inter> set ds = {}" "set cs \<union> set ds = U" "hd cs = a"
       "length cs = count" "cdh \<in> set ds"
    unfolding grow_inv_def by blast
  have "cs \<noteq> []" using *(1) by (simp add: ring_def)
  then have "a \<in> set cs" using *(5) by auto
  from SizeOfLinkedList_member [OF *(1) this] *(6)
  show "SizeOfLinkedList h a = Some count" by simp
  have "card U = length cs + length ds" using two_rings_card [OF *(1,2,3)] *(4) by simp
  with SizeOfLinkedList_member [OF *(2) *(7)] *(6)
  show "SizeOfLinkedList h cdh = Some (card U - count)" by simp
qed

lemma seed_grow_inv:
  assumes "ring h xs" "p \<in> set xs" "WAYS_PER_BANK < length xs"
  shows "\<exists>h1 cdh. seed_conflict_set h p = (h1, p, cdh)
           \<and> grow_inv (set xs) h1 p WAYS_PER_BANK cdh cdh"
proof -
  from ring_to_front [OF assms(1,2)] obtain ys where
    r: "ring h (p # ys)" and s: "set (p # ys) = set xs" and n: "length (p # ys) = length xs"
    by blast
  let ?xs = "p # ys"
  have len: "WAYS_PER_BANK < length ?xs" using assms(3) n by simp
  from seed_conflict_set_ring [OF r len] obtain h1 where
    eq: "seed_conflict_set h (hd ?xs) = (h1, hd ?xs, ?xs ! WAYS_PER_BANK)"
    and r1: "ring h1 (take WAYS_PER_BANK ?xs)" and r2: "ring h1 (drop WAYS_PER_BANK ?xs)"
    by blast
  have w: "0 < WAYS_PER_BANK" by (simp add: WAYS_PER_BANK_def)
  have d: "distinct ?xs" using r by (simp add: ring_def)
  have "distinct (take WAYS_PER_BANK ?xs @ drop WAYS_PER_BANK ?xs)" using d by (simp only: append_take_drop_id)
  then have dj: "set (take WAYS_PER_BANK ?xs) \<inter> set (drop WAYS_PER_BANK ?xs) = {}"
    by (simp only: distinct_append) 
  have "set (take WAYS_PER_BANK ?xs @ drop WAYS_PER_BANK ?xs) = set ?xs"
    by (simp only: append_take_drop_id)
  then have un: "set (take WAYS_PER_BANK ?xs) \<union> set (drop WAYS_PER_BANK ?xs) = set xs"
    using s by (simp only: set_append)
  have hdt: "hd (take WAYS_PER_BANK ?xs) = p" using w by (simp add: take_Cons')
  have lt: "length (take WAYS_PER_BANK ?xs) = WAYS_PER_BANK" using len by simp
  have "hd (drop WAYS_PER_BANK ?xs) = ?xs ! WAYS_PER_BANK" using len by (simp only: hd_drop_conv_nth)
  moreover have "drop WAYS_PER_BANK ?xs \<noteq> []" using len by simp
  ultimately have cm: "?xs ! WAYS_PER_BANK \<in> set (drop WAYS_PER_BANK ?xs)"
    by (metis hd_in_set)
  have "grow_inv (set xs) h1 p WAYS_PER_BANK (?xs ! WAYS_PER_BANK) (?xs ! WAYS_PER_BANK)"
    unfolding grow_inv_def using r1 r2 dj un hdt lt cm by blast
  moreover have "seed_conflict_set h p = (h1, p, ?xs ! WAYS_PER_BANK)" using eq by simp
  ultimately show ?thesis by blast
qed

lemma BuildConflictSet_unfold:
  assumes "ring h xs" "set xs = set candidates" "length xs = length candidates"
    "candidates \<noteq> []" "CONFLICT_SET_SIZE + 2 \<le> length candidates"
  shows "\<exists>h1 cdh. grow_inv (set candidates) h1 (hd candidates) WAYS_PER_BANK cdh cdh \<and>
     BuildConflictSet tm k h candidates =
       do { k \<leftarrow> warmup tm k h1 (hd candidates) cdh 10;
            (k, h, candidateSetHead) \<leftarrow>
               grow_conflict_set tm k h1 (hd candidates) WAYS_PER_BANK cdh cdh;
            count \<leftarrow> SizeOfLinkedList h (hd candidates);
            if count \<noteq> CONFLICT_SET_SIZE then Some (Inl ConflictSizeMismatch) else
            (case SanityCheckConflictSet tm k of
               Inl e \<Rightarrow> Some (Inl e)
             | Inr k \<Rightarrow>
               do { count \<leftarrow> SizeOfLinkedList h candidateSetHead;
                    if count \<noteq> length candidates - CONFLICT_SET_SIZE
                    then Some (Inl LeftoverSizeMismatch)
                    else Some (Inr (k, h, hd candidates, candidateSetHead)) }) }"
proof -
  have p: "hd candidates \<in> set xs" using assms(2,4) by simp
  have w: "WAYS_PER_BANK < length xs"
    using assms(3,5) by (simp add: CONFLICT_SET_SIZE_def LLC_BANKS_def WAYS_PER_BANK_def)
  from seed_grow_inv [OF assms(1) p w] obtain h1 cdh where
    eq: "seed_conflict_set h (hd candidates) = (h1, hd candidates, cdh)"
    and inv: "grow_inv (set xs) h1 (hd candidates) WAYS_PER_BANK cdh cdh" by blast
  have "distinct xs" using assms(1) by (simp add: ring_def)
  then have card: "card (set candidates) = length candidates"
    using assms(2,3) by (metis distinct_card)
  note sz = grow_inv_sizes [OF inv]
  have "BuildConflictSet tm k h candidates =
       do { k \<leftarrow> warmup tm k h1 (hd candidates) cdh 10;
            (k, h, candidateSetHead) \<leftarrow>
               grow_conflict_set tm k h1 (hd candidates) WAYS_PER_BANK cdh cdh;
            count \<leftarrow> SizeOfLinkedList h (hd candidates);
            if count \<noteq> CONFLICT_SET_SIZE then Some (Inl ConflictSizeMismatch) else
            (case SanityCheckConflictSet tm k of
               Inl e \<Rightarrow> Some (Inl e)
             | Inr k \<Rightarrow>
               do { count \<leftarrow> SizeOfLinkedList h candidateSetHead;
                    if count \<noteq> length candidates - CONFLICT_SET_SIZE
                    then Some (Inl LeftoverSizeMismatch)
                    else Some (Inr (k, h, hd candidates, candidateSetHead)) }) }"
    unfolding BuildConflictSet_def eq
    using sz card assms(2) by simp
  with inv assms(2) show ?thesis by auto
qed

lemma BuildConflictSet_returns:
  assumes "ring h xs" "set xs = set candidates" "length xs = length candidates"
    "candidates \<noteq> []" "CONFLICT_SET_SIZE + 2 \<le> length candidates"
    and ret: "BuildConflictSet tm k h candidates = Some (Inr (k', h', csh, cdh'))"
  shows "csh = hd candidates" "grow_inv (set candidates) h' csh CONFLICT_SET_SIZE cdh' cdh'" "k \<le> k'"
proof -
  from BuildConflictSet_unfold [OF assms(1-5), of tm k] obtain h1 cdh where
    inv: "grow_inv (set candidates) h1 (hd candidates) WAYS_PER_BANK cdh cdh"
    and eq: "BuildConflictSet tm k h candidates =
       do { k \<leftarrow> warmup tm k h1 (hd candidates) cdh 10;
            (k, h, candidateSetHead) \<leftarrow>
               grow_conflict_set tm k h1 (hd candidates) WAYS_PER_BANK cdh cdh;
            count \<leftarrow> SizeOfLinkedList h (hd candidates);
            if count \<noteq> CONFLICT_SET_SIZE then Some (Inl ConflictSizeMismatch) else
            (case SanityCheckConflictSet tm k of
               Inl e \<Rightarrow> Some (Inl e)
             | Inr k \<Rightarrow>
               do { count \<leftarrow> SizeOfLinkedList h candidateSetHead;
                    if count \<noteq> length candidates - CONFLICT_SET_SIZE
                    then Some (Inl LeftoverSizeMismatch)
                    else Some (Inr (k, h, hd candidates, candidateSetHead)) }) }"
    by blast
  from ret [unfolded eq] obtain k1 where
    w: "warmup tm k h1 (hd candidates) cdh 10 = Some k1" and
    r1: "do { (k, h, candidateSetHead) \<leftarrow>
               grow_conflict_set tm k1 h1 (hd candidates) WAYS_PER_BANK cdh cdh;
            count \<leftarrow> SizeOfLinkedList h (hd candidates);
            if count \<noteq> CONFLICT_SET_SIZE then Some (Inl ConflictSizeMismatch) else
            (case SanityCheckConflictSet tm k of
               Inl e \<Rightarrow> Some (Inl e)
             | Inr k \<Rightarrow>
               do { count \<leftarrow> SizeOfLinkedList h candidateSetHead;
                    if count \<noteq> length candidates - CONFLICT_SET_SIZE
                    then Some (Inl LeftoverSizeMismatch)
                    else Some (Inr (k, h, hd candidates, candidateSetHead)) }) }
         = Some (Inr (k', h', csh, cdh'))"
    by (rule bind_SomeE)
  from r1 obtain gr where
    g0: "grow_conflict_set tm k1 h1 (hd candidates) WAYS_PER_BANK cdh cdh = Some gr" and
    r2: "(case gr of (k, h, candidateSetHead) \<Rightarrow>
          do { count \<leftarrow> SizeOfLinkedList h (hd candidates);
            if count \<noteq> CONFLICT_SET_SIZE then Some (Inl ConflictSizeMismatch) else
            (case SanityCheckConflictSet tm k of
               Inl e \<Rightarrow> Some (Inl e)
             | Inr k \<Rightarrow>
               do { count \<leftarrow> SizeOfLinkedList h candidateSetHead;
                    if count \<noteq> length candidates - CONFLICT_SET_SIZE
                    then Some (Inl LeftoverSizeMismatch)
                    else Some (Inr (k, h, hd candidates, candidateSetHead)) }) })
         = Some (Inr (k', h', csh, cdh'))"
    by (rule bind_SomeE)
  obtain k2 h2 c2 where gr: "gr = (k2, h2, c2)" by (cases gr)
  from r2 [unfolded gr prod.case] obtain n1 where
    r3: "(if n1 \<noteq> CONFLICT_SET_SIZE then Some (Inl ConflictSizeMismatch) else
            (case SanityCheckConflictSet tm k2 of
               Inl e \<Rightarrow> Some (Inl e)
             | Inr k \<Rightarrow>
               do { count \<leftarrow> SizeOfLinkedList h2 c2;
                    if count \<noteq> length candidates - CONFLICT_SET_SIZE
                    then Some (Inl LeftoverSizeMismatch)
                    else Some (Inr (k, h2, hd candidates, c2)) }))
         = Some (Inr (k', h', csh, cdh'))"
    by (rule bind_SomeE)
  from r3 obtain k3 where s: "SanityCheckConflictSet tm k2 = Inr k3" and
    r4: "do { count \<leftarrow> SizeOfLinkedList h2 c2;
                    if count \<noteq> length candidates - CONFLICT_SET_SIZE
                    then Some (Inl LeftoverSizeMismatch)
                    else Some (Inr (k3, h2, hd candidates, c2)) }
         = Some (Inr (k', h', csh, cdh'))"
    by (cases "SanityCheckConflictSet tm k2") (simp_all split: if_splits)
  from r4 obtain n2 where
    "(if n2 \<noteq> length candidates - CONFLICT_SET_SIZE
                    then Some (Inl LeftoverSizeMismatch)
                    else Some (Inr (k3, h2, hd candidates, c2)))
         = Some (Inr (k', h', csh, cdh'))"
    by (rule bind_SomeE)
  then have c: "csh = hd candidates" and k3: "k3 = k'" and h2: "h2 = h'" and c2: "c2 = cdh'"
    by (simp_all split: if_splits)
  have g: "grow_conflict_set tm k1 h1 (hd candidates) WAYS_PER_BANK cdh cdh = Some (k2, h', cdh')"
    using g0 gr h2 c2 by simp
  have "distinct xs" using assms(1) by (simp add: ring_def)
  then have card: "card (set candidates) = length candidates"
    using assms(2,3) by (metis distinct_card)
  have wb: "WAYS_PER_BANK \<le> CONFLICT_SET_SIZE"
    by (simp add: CONFLICT_SET_SIZE_def LLC_BANKS_def WAYS_PER_BANK_def)
  from grow_conflict_set_returns [OF g, of "set candidates"] inv wb assms(5) card
  have "k1 \<le> k2" and gi: "grow_inv (set candidates) h' (hd candidates) CONFLICT_SET_SIZE cdh' cdh'"
    by (simp_all add: grow_post_def)
  moreover have "k2 \<le> k3" using s by (auto simp: SanityCheckConflictSet_def Let_def split: if_splits)
  moreover note warmup_mono [OF w]
  ultimately show "k \<le> k'" using k3 by simp
  show "csh = hd candidates" by (rule c)
  show "grow_inv (set candidates) h' csh CONFLICT_SET_SIZE cdh' cdh'" using gi c by simp
qed

lemma BuildConflictSet_run:
  assumes "ring h xs" "set xs = set candidates" "length xs = length candidates"
    "candidates \<noteq> []" "CONFLICT_SET_SIZE + 2 \<le> length candidates"
    and warm: "\<forall>j<10. plausible (tm (k + j))"
    and hits: "\<forall>j<CONFLICT_SET_SIZE - WAYS_PER_BANK.
                 plausible (tm (k + 10 + j)) \<and> \<not> tm (k + 10 + j) > LLC_CYCLE_THRESHOLD"
    and sane: "SanityCheckConflictSet tm (k + 10 + (CONFLICT_SET_SIZE - WAYS_PER_BANK)) = Inr k'"
  shows "\<exists>h' cdh'. BuildConflictSet tm k h candidates = Some (Inr (k', h', hd candidates, cdh'))
           \<and> grow_inv (set candidates) h' (hd candidates) CONFLICT_SET_SIZE cdh' cdh'"
proof -
  from BuildConflictSet_unfold [OF assms(1-5), of tm k] obtain h1 cdh where
    inv: "grow_inv (set candidates) h1 (hd candidates) WAYS_PER_BANK cdh cdh"
    and eq: "BuildConflictSet tm k h candidates =
       do { k \<leftarrow> warmup tm k h1 (hd candidates) cdh 10;
            (k, h, candidateSetHead) \<leftarrow>
               grow_conflict_set tm k h1 (hd candidates) WAYS_PER_BANK cdh cdh;
            count \<leftarrow> SizeOfLinkedList h (hd candidates);
            if count \<noteq> CONFLICT_SET_SIZE then Some (Inl ConflictSizeMismatch) else
            (case SanityCheckConflictSet tm k of
               Inl e \<Rightarrow> Some (Inl e)
             | Inr k \<Rightarrow>
               do { count \<leftarrow> SizeOfLinkedList h candidateSetHead;
                    if count \<noteq> length candidates - CONFLICT_SET_SIZE
                    then Some (Inl LeftoverSizeMismatch)
                    else Some (Inr (k, h, hd candidates, candidateSetHead)) }) }"
    by blast
  have "distinct xs" using assms(1) by (simp add: ring_def)
  then have card: "card (set candidates) = length candidates"
    using assms(2,3) by (metis distinct_card)
  have w: "warmup tm k h1 (hd candidates) cdh 10 = Some (k + 10)"
    by (rule warmup_run [OF warm])
  have n: "WAYS_PER_BANK + (CONFLICT_SET_SIZE - WAYS_PER_BANK) = CONFLICT_SET_SIZE"
    by (simp add: CONFLICT_SET_SIZE_def LLC_BANKS_def WAYS_PER_BANK_def)
  have big: "CONFLICT_SET_SIZE + 2 \<le> card (set candidates)" using assms(5) card by simp
  from grow_conflict_set_run [OF inv n big hits] obtain h' cdh' where
    g: "grow_conflict_set tm (k + 10) h1 (hd candidates) WAYS_PER_BANK cdh cdh
          = Some (k + 10 + (CONFLICT_SET_SIZE - WAYS_PER_BANK), h', cdh')"
    and gi: "grow_inv (set candidates) h' (hd candidates) CONFLICT_SET_SIZE cdh' cdh'" by blast
  note sz = grow_inv_sizes [OF gi]
  have "BuildConflictSet tm k h candidates = Some (Inr (k', h', hd candidates, cdh'))"
    unfolding eq using w g sz sane card by simp
  with gi show ?thesis by blast
qed


lemma cycle_heap_ring: "0 < n \<Longrightarrow> ring (cycle_heap n) [0..<n]"
proof (rule ring_nthI)
  fix i assume n: "0 < n" and "i < length [0..<n]"
  then have i: "i < n" by simp
  have s: "Suc i mod n < n" using n by simp
  have "(Suc i mod n + n - 1) mod n = i"
  proof (cases "Suc i = n")
    case True
    then show ?thesis by simp
  next
    case False
    with i have "Suc i < n" by simp
    then show ?thesis by simp
  qed
  then show "linked (cycle_heap n) ([0..<n] ! i) ([0..<n] ! (Suc i mod length [0..<n]))"
    using i s by (simp add: linked_def cycle_heap_def)
qed simp_all

lemma grow_inv_ring_at:
  assumes "grow_inv U h a n c cdh"
  shows "ring_at h a n" "ring_at h cdh (card U - n)"
    "set (walk h a n) \<inter> set (walk h cdh (card U - n)) = {}"
    "set (walk h a n) \<union> set (walk h cdh (card U - n)) = U"
proof -
  from assms obtain cs ds where
    *: "ring h cs" "ring h ds" "set cs \<inter> set ds = {}" "set cs \<union> set ds = U" "hd cs = a"
       "length cs = n" "cdh \<in> set ds"
    unfolding grow_inv_def by blast
  have "cs \<noteq> []" using *(1) by (simp add: ring_def)
  then have a: "a \<in> set cs" using *(5) by auto
  have card: "card U - n = length ds" using two_rings_card [OF *(1,2,3)] *(4,6) by simp
  note ra = ring_at_member [OF *(1) a, unfolded *(6)]
  note rd = ring_at_member [OF *(2) *(7), folded card]
  show "ring_at h a n" by (rule ra(1))
  show "ring_at h cdh (card U - n)" by (rule rd(1))
  show "set (walk h a n) \<inter> set (walk h cdh (card U - n)) = {}"
    using *(3) by (simp only: ra(2) rd(2))
  show "set (walk h a n) \<union> set (walk h cdh (card U - n)) = U"
    using *(4) by (simp only: ra(2) rd(2))
qed



section \<open>Slice partitioning: the isolation scan\<close>


subsection \<open>Testing a node of the conflict ring\<close>

lemma set_set_insert [simp]: "set (set_insert x xs) = insert x (set xs)"
  by (auto simp: set_insert_def set_insort_key)

lemma distinct_set_insert: "distinct xs \<Longrightarrow> distinct (set_insert x xs)"
  by (simp add: set_insert_def distinct_insort)

lemma length_set_insert:
  "length (set_insert x xs) = (if x \<in> set xs then length xs else Suc (length xs))"
  by (simp add: set_insert_def)

lemma test_node_eq:
  assumes "next_of h (prev_of h t) = t" "prev_of h (next_of h t) = t"
  shows "test_node tm k h c t es =
     do { (missToDRAM, k') \<leftarrow> Probe tm k (unlink h t) (next_of h t) c;
          Some (k', h, next_of h t, if \<not> missToDRAM then set_insert t es else es) }"
proof -
  let ?u = "unlink h t"
  have u: "set_prev (set_next h (prev_of h t) (next_of h t))
             (next_of (set_next h (prev_of h t) (next_of h t)) t)
             (prev_of (set_next h (prev_of h t) (next_of h t)) t) = ?u"
    by (simp add: unlink_def Let_def)
  have n: "next_of ?u t = next_of h t" by (simp add: next_of_unlink)
  have p: "prev_of ?u t = prev_of h t" by (simp add: prev_of_unlink)
  let ?h3 = "set_next ?u (prev_of ?u t) t"
  have n3: "next_of ?h3 = next_of h"
    using assms(1) by (auto simp: next_of_unlink p fun_eq_iff)
  have n3t: "next_of ?h3 t = next_of h t" by (simp only: n3)
  have p3: "prev_of ?h3 = prev_of ?u" by simp
  have restore: "set_prev ?h3 (next_of ?h3 t) t = h"
  proof (rule heap_eqI)
    show "next_of (set_prev ?h3 (next_of ?h3 t) t) = next_of h"
      by (simp only: next_of_set_prev n3)
    have "prev_of (set_prev ?h3 (next_of ?h3 t) t) = (prev_of ?u)(next_of h t := t)"
      by (simp only: prev_of_set_prev n3t p3)
    also have "\<dots> = prev_of h"
      using assms(2) by (auto simp: prev_of_unlink fun_eq_iff)
    finally show "prev_of (set_prev ?h3 (next_of ?h3 t) t) = prev_of h" .
  qed
  have "test_node tm k h c t es =
     do { (missToDRAM, k') \<leftarrow> Probe tm k ?u (next_of ?u t) c;
          Some (k', set_prev ?h3 (next_of ?h3 t) t, next_of (set_prev ?h3 (next_of ?h3 t) t) t,
                if \<not> missToDRAM then set_insert t es else es) }"
    unfolding test_node_def Let_def u by (rule refl)
  then show ?thesis by (simp only: restore n)
qed

lemma isolate_slice_unfold:
  "isolate_slice tm k h c t es =
     (if length es < WAYS_PER_BANK then
        if t \<in> set es then isolate_slice tm k h c (next_of h t) es
        else do { (k', h', t', es') \<leftarrow> test_node tm k h c t es;
                  isolate_slice tm k' h' c t' es' }
      else Some (k, h, es))"
  by (subst isolate_slice.simps) (rule refl)

lemma isolate_slice_returns:
  assumes "isolate_slice tm k h c t es = Some r"
  shows "isolate_post cs tm k h c t es r"
proof (rule isolate_slice.raw_induct [where P = "isolate_post cs", OF _ assms])
  fix f tm k h c t es r
  assume ih: "\<And>tm k h c t es r. f tm k h c t es = Some r \<Longrightarrow> isolate_post cs tm k h c t es r"
    and eq: "(if length es < WAYS_PER_BANK then
        if t \<in> set es then f tm k h c (next_of h t) es
        else do { (k', h', t', es') \<leftarrow> test_node tm k h c t es;
                  f tm k' h' c t' es' }
      else Some (k, h, es)) = Some r"
  show "isolate_post cs tm k h c t es r"
    unfolding isolate_post_def
  proof (intro impI)
    assume pre: "ring h cs \<and> t \<in> set cs \<and> set es \<subseteq> set cs \<and> distinct es \<and> length es \<le> WAYS_PER_BANK"
    then have r: "ring h cs" and t: "t \<in> set cs" and sub: "set es \<subseteq> set cs" and d: "distinct es"
      and le: "length es \<le> WAYS_PER_BANK" by simp_all
    note l = ring_links [OF r t]
    show "case r of (k', h', es') \<Rightarrow> k \<le> k' \<and> h' = h \<and> set es \<subseteq> set es' \<and> set es' \<subseteq> set cs
            \<and> distinct es' \<and> length es' = WAYS_PER_BANK"
    proof (cases "length es < WAYS_PER_BANK")
      case False
      with eq le d sub show ?thesis by auto
    next
      case lt: True
      show ?thesis
      proof (cases "t \<in> set es")
        case True
        with eq lt have "f tm k h c (next_of h t) es = Some r" by simp
        from ih [OF this] r l(3) sub d le show ?thesis
          by (simp add: isolate_post_def)
      next
        case False
        with eq lt have "do { (k', h', t', es') \<leftarrow> test_node tm k h c t es;
                  f tm k' h' c t' es' } = Some r" by simp
        then obtain x where tn: "test_node tm k h c t es = Some x"
          and rec0: "(case x of (k', h', t', es') \<Rightarrow> f tm k' h' c t' es') = Some r"
          by (rule bind_SomeE)
        from tn [unfolded test_node_eq [OF l(2,1)]] obtain y where
          pr: "Probe tm k (unlink h t) (next_of h t) c = Some y"
          and x0: "(case y of (miss, k') \<Rightarrow>
                  Some (k', h, next_of h t, if \<not> miss then set_insert t es else es)) = Some x"
          by (rule bind_SomeE)
        obtain miss k' where y: "y = (miss, k')" by (cases y)
        let ?es' = "if \<not> miss then set_insert t es else es"
        have x: "x = (k', h, next_of h t, ?es')" using x0 y by simp
        have rec: "f tm k' h c (next_of h t) ?es' = Some r" using rec0 x by simp
        have kk: "k < k'" using Probe_mono pr y by blast
        have "set ?es' \<subseteq> set cs" using sub t by auto
        moreover have "distinct ?es'" using d by (simp add: distinct_set_insert)
        moreover have "length ?es' \<le> WAYS_PER_BANK" using lt False by (simp add: length_set_insert)
        moreover have "set es \<subseteq> set ?es'" by auto
        ultimately show ?thesis
          using ih [OF rec] r l(3) kk by (auto simp: isolate_post_def)
      qed
    qed
  qed
qed

lemma isolate_slice_run:
  assumes "ring h xs" "WAYS_PER_BANK < length xs"
    "j + n = WAYS_PER_BANK" "set es = set (take j xs)" "length es = j" "distinct es" "t = xs ! j"
    "\<forall>i<n. plausible (tm (k + i)) \<and> \<not> tm (k + i) > LLC_CYCLE_THRESHOLD"
  shows "\<exists>es'. isolate_slice tm k h c t es = Some (k + n, h, es')
           \<and> set es' = set (take WAYS_PER_BANK xs) \<and> distinct es' \<and> length es' = WAYS_PER_BANK"
  using assms(3-8)
proof (induction n arbitrary: j es t k)
  case 0
  then have "length es = WAYS_PER_BANK" by simp
  with 0 show ?case by (subst isolate_slice_unfold) simp
next
  case (Suc n)
  have lt: "length es < WAYS_PER_BANK" using Suc.prems(1,3) by simp
  have j: "j < length xs" "Suc j < length xs" using Suc.prems(1) assms(2) by simp_all
  have d: "distinct xs" using assms(1) by (simp add: ring_def)
  have tin: "t \<in> set xs" using Suc.prems(5) j by simp
  have tnot: "t \<notin> set es"
  proof
    assume "t \<in> set es"
    then have "xs ! j \<in> set (take j xs)" using Suc.prems(2,5) by simp
    then obtain i where "i < j" "xs ! i = xs ! j" using j
      by (auto simp: in_set_conv_nth)
    with d j show False by (simp add: nth_eq_iff_index_eq)
  qed
  note l = ring_links [OF assms(1) tin]
  have "linked h (xs ! j) (xs ! Suc j)"
    using assms(1) j by (intro path_nth) (simp_all add: ring_def)
  then have nx: "next_of h t = xs ! Suc j" using Suc.prems(5) by (simp add: linked_def)
  have pl: "plausible (tm k)" "\<not> tm k > LLC_CYCLE_THRESHOLD" using Suc.prems(6) by force+
  have tn: "test_node tm k h c t es = Some (k + 1, h, xs ! Suc j, set_insert t es)"
    unfolding test_node_eq [OF l(2,1)] using Probe_hit [of tm k, OF pl] nx by simp
  have s': "set (set_insert t es) = set (take (Suc j) xs)"
    using Suc.prems(2,5) j by (simp add: take_Suc_conv_app_nth)
  have l': "length (set_insert t es) = Suc j" using tnot Suc.prems(3) by (simp add: length_set_insert)
  have d': "distinct (set_insert t es)" using Suc.prems(4) by (rule distinct_set_insert)
  have rest: "\<forall>i<n. plausible (tm (k + 1 + i)) \<and> \<not> tm (k + 1 + i) > LLC_CYCLE_THRESHOLD"
  proof (intro allI impI)
    fix i assume "i < n"
    then have "Suc i < Suc n" by simp
    with Suc.prems(6) have "plausible (tm (k + Suc i)) \<and> \<not> tm (k + Suc i) > LLC_CYCLE_THRESHOLD"
      by blast
    then show "plausible (tm (k + 1 + i)) \<and> \<not> tm (k + 1 + i) > LLC_CYCLE_THRESHOLD" by simp
  qed
  have jn: "Suc j + n = WAYS_PER_BANK" using Suc.prems(1) by simp
  from Suc.IH [OF jn s' l' d' refl rest] obtain es' where
    "isolate_slice tm (k + 1) h c (xs ! Suc j) (set_insert t es) = Some (k + 1 + n, h, es')"
    "set es' = set (take WAYS_PER_BANK xs)" "distinct es'" "length es' = WAYS_PER_BANK"
    by blast
  then show ?case
    using lt tnot tn by (subst isolate_slice_unfold) simp
qed

section \<open>Slice partitioning: the witness candidate\<close>


subsection \<open>Dropping a candidate from the leftover ring\<close>

lemma ring_next_neq:
  assumes "ring h ds" "c \<in> set ds"
  shows "next_of h c \<noteq> c \<longleftrightarrow> 2 \<le> length ds"
proof -
  from ring_to_front [OF assms] obtain ys where
    r: "ring h (c # ys)" and n: "length (c # ys) = length ds" by blast
  show ?thesis
  proof (cases ys)
    case Nil
    with r n show ?thesis by (simp add: ring_single)
  next
    case (Cons y zs)
    with ring_head_links(1) [OF r] have "next_of h c = y" by simp
    moreover have "y \<noteq> c" using r Cons by (auto simp: ring_def)
    ultimately show ?thesis using n Cons by simp
  qed
qed

lemma next_of_unlink_self [simp]: "next_of (unlink h c) c = next_of h c"
  by (simp add: next_of_unlink)

lemma leftover_post_refl: "leftover_post ds k h c (Inr (k, h, c))"
  unfolding leftover_post_def by auto

lemma leftover_post_later:
  "leftover_post ds k' h c r \<Longrightarrow> k \<le> k' \<Longrightarrow> leftover_post ds k h c r"
  unfolding leftover_post_def by (auto split: sum.splits)

text \<open>After a candidate has been dropped, whatever holds from the smaller ring on holds from the old one.\<close>

lemma leftover_post_drop:
  assumes rest: "\<And>ds'. leftover_post ds' k' (unlink h c) (next_of h c) r"
    and nx: "next_of h c \<noteq> c" and kk: "k \<le> k'"
  shows "leftover_post ds k h c r"
  unfolding leftover_post_def
proof (intro impI)
  assume "ring h ds \<and> c \<in> set ds"
  then have r: "ring h ds" and c: "c \<in> set ds" by simp_all
  have len: "2 \<le> length ds" using ring_next_neq [OF r c] nx by simp
  from unlink_member(1) [OF r c len] obtain ds1 where
    r1: "ring (unlink h c) ds1" and s1: "set ds1 = set ds - {c}" and l1: "Suc (length ds1) = length ds"
    by blast
  note so = unlink_member(2) [OF r c len]
  have n1: "next_of h c \<in> set ds1" using unlink_member(4) [OF r c len] s1 by simp
  from rest [of ds1] r1 n1
  have p: "case r of Inl e \<Rightarrow> e = CandidatesExhausted
       | Inr (k'', h', c') \<Rightarrow>
           k' \<le> k'' \<and> same_outside (set ds1) (unlink h c) h' \<and>
           (\<exists>ds'. ring h' ds' \<and> c' \<in> set ds' \<and> set ds' \<subseteq> set ds1 \<and> length ds' \<le> length ds1)"
    by (simp add: leftover_post_def)
  show "case r of Inl e \<Rightarrow> e = CandidatesExhausted
       | Inr (k'', h', c') \<Rightarrow>
           k \<le> k'' \<and> same_outside (set ds) h h' \<and>
           (\<exists>ds'. ring h' ds' \<and> c' \<in> set ds' \<and> set ds' \<subseteq> set ds \<and> length ds' \<le> length ds)"
  proof (cases r)
    case (Inl e)
    with p show ?thesis by simp
  next
    case (Inr x)
    obtain k'' h' c' where x: "x = (k'', h', c')" by (cases x)
    from p Inr x obtain ds' where
      a: "k' \<le> k''" "same_outside (set ds1) (unlink h c) h'" "ring h' ds'" "c' \<in> set ds'"
        "set ds' \<subseteq> set ds1" "length ds' \<le> length ds1" by auto
    have "same_outside ((set ds - {c}) \<union> set ds1) h h'"
      using so a(2) by (rule same_outside_trans)
    then have "same_outside (set ds) h h'"
      by (rule same_outside_mono) (use s1 in auto)
    moreover have "set ds' \<subseteq> set ds" using a(5) s1 by auto
    moreover have "length ds' \<le> length ds" using a(6) l1 by simp
    ultimately show ?thesis using Inr x a(1,3,4) kk by auto
  qed
qed

subsection \<open>The search for a witness\<close>

lemma drop_hits_unfold:
  "drop_hits tm k h csh c miss =
     (if \<not> miss then
        if \<not> next_of h c \<noteq> c then Some (Inl CandidatesExhausted)
        else do { (miss', k') \<leftarrow> Probe tm k (unlink h c) csh (next_of h c);
                  drop_hits tm k' (unlink h c) csh (next_of h c) miss' }
      else Some (Inr (k, h, c)))"
  by (subst drop_hits.simps) (simp add: Let_def)

lemma drop_hits_returns:
  assumes "drop_hits tm k h csh c miss = Some r"
  shows "drop_hits_post tm k h csh c miss r"
proof (rule drop_hits.raw_induct [where P = drop_hits_post, OF _ assms])
  fix f tm k h csh c miss r
  assume ih: "\<And>tm k h csh c miss r. f tm k h csh c miss = Some r
                \<Longrightarrow> drop_hits_post tm k h csh c miss r"
    and eq: "(if \<not> miss then
        if \<not> next_of h c \<noteq> c then Some (Inl CandidatesExhausted)
        else
          (let h = unlink h c;
               candidate = next_of h c
           in do { (missToDRAM, k') \<leftarrow> Probe tm k h csh candidate;
                   f tm k' h csh candidate missToDRAM })
      else Some (Inr (k, h, c))) = Some r"
  show "drop_hits_post tm k h csh c miss r"
  proof (cases miss)
    case True
    with eq have "r = Inr (k, h, c)" by simp
    with True show ?thesis
      by (simp add: drop_hits_post_def leftover_post_refl)
  next
    case False
    show ?thesis
    proof (cases "next_of h c = c")
      case True
      with eq False have "r = Inl CandidatesExhausted" by simp
      then show ?thesis by (simp add: drop_hits_post_def leftover_post_def)
    next
      case nx: False
      with eq False have "do { (missToDRAM, k') \<leftarrow> Probe tm k (unlink h c) csh (next_of h c);
                   f tm k' (unlink h c) csh (next_of h c) missToDRAM } = Some r"
        by (simp add: Let_def)
      then obtain y where pr: "Probe tm k (unlink h c) csh (next_of h c) = Some y"
        and rec0: "(case y of (m, k') \<Rightarrow> f tm k' (unlink h c) csh (next_of h c) m) = Some r"
        by (rule bind_SomeE)
      obtain m k' where y: "y = (m, k')" by (cases y)
      have rec: "f tm k' (unlink h c) csh (next_of h c) m = Some r" using rec0 y by simp
      have kk: "k < k'" using Probe_mono pr y by blast
      note p = ih [OF rec, unfolded drop_hits_post_def]
      have 1: "\<forall>ds. leftover_post ds k h c r"
      proof
        fix ds
        show "leftover_post ds k h c r"
          by (rule leftover_post_drop [where k' = k']) (use p nx kk in auto)
      qed
      have 2: "case r of Inl e \<Rightarrow> True
        | Inr (k'', h', c') \<Rightarrow>
          (miss \<and> k'' = k \<and> h' = h \<and> c' = c) \<or>
          (\<exists>k0\<ge>k. Probe tm k0 h' csh c' = Some (True, k''))"
      proof (cases r)
        case (Inl e)
        then show ?thesis by simp
      next
        case (Inr x)
        obtain k'' h' c' where x: "x = (k'', h', c')" by (cases x)
        from p Inr x have "(m \<and> k'' = k' \<and> h' = unlink h c \<and> c' = next_of h c) \<or>
          (\<exists>k0\<ge>k'. Probe tm k0 h' csh c' = Some (True, k''))" by simp
        then have "\<exists>k0\<ge>k. Probe tm k0 h' csh c' = Some (True, k'')"
        proof
          assume "m \<and> k'' = k' \<and> h' = unlink h c \<and> c' = next_of h c"
          with pr y show ?thesis by auto
        next
          assume "\<exists>k0\<ge>k'. Probe tm k0 h' csh c' = Some (True, k'')"
          then obtain k0 where "k' \<le> k0" "Probe tm k0 h' csh c' = Some (True, k'')" by blast
          with kk show ?thesis by (intro exI [of _ k0]) simp
        qed
        with Inr x show ?thesis by simp
      qed
      from 1 2 show ?thesis by (simp add: drop_hits_post_def)
    qed
  qed
qed

lemma probe_results_mono: "probe_results tm k h s c n = Some (bs, k') \<Longrightarrow> k \<le> k'"
proof (induction n arbitrary: k bs)
  case 0
  then show ?case by simp
next
  case (Suc n)
  from Suc.prems obtain y where pr: "Probe tm k h s c = Some y"
    and r0: "(case y of (b, k1) \<Rightarrow> do { (bs, k2) \<leftarrow> probe_results tm k1 h s c n; Some (b # bs, k2) })
               = Some (bs, k')"
    by (simp only: probe_results.simps) (rule bind_SomeE)
  obtain b k1 where y: "y = (b, k1)" by (cases y)
  from r0 [unfolded y prod.case] obtain z where pz: "probe_results tm k1 h s c n = Some z"
    and r1: "(case z of (bs', k2) \<Rightarrow> Some (b # bs', k2)) = Some (bs, k')"
    by (rule bind_SomeE)
  obtain bs' k2 where z: "z = (bs', k2)" by (cases z)
  from r1 z have "k2 = k'" by simp
  with Suc.IH [of k1 bs'] pz z Probe_mono [of tm k h s c b k1] pr y show ?case by simp
qed

text \<open>What \<^verbatim>\<open>foundCandidate\<close> says about the confirmation probes.\<close>

lemma confirm_candidate_returns:
  "confirm_candidate tm k h csh c n = Some (Inr (k', h', c', found)) \<Longrightarrow>
     (if found
      then probe_results tm k h csh c n = Some (replicate n True, k') \<and> h' = h \<and> c' = c
      else (\<exists>m<n. probe_results tm k h csh c (Suc m) = Some (replicate m True @ [False], k'))
           \<and> next_of h c \<noteq> c \<and> h' = unlink h c \<and> c' = next_of h c)"
proof (induction n arbitrary: k)
  case 0
  then show ?case by simp
next
  case (Suc n)
  from Suc.prems obtain y where pr: "Probe tm k h csh c = Some y"
    and r0: "(case y of (miss, k1) \<Rightarrow>
          if \<not> miss then
            if \<not> next_of h c \<noteq> c then Some (Inl CandidatesExhausted)
            else
              (let h = unlink h c;
                   candidate = next_of h c
               in Some (Inr (k1, h, candidate, False)))
          else confirm_candidate tm k1 h csh c n) = Some (Inr (k', h', c', found))"
    by (simp only: confirm_candidate.simps) (rule bind_SomeE)
  obtain miss k1 where y: "y = (miss, k1)" by (cases y)
  show ?case
  proof (cases miss)
    case False
    with r0 y have nx: "next_of h c \<noteq> c"
      and res: "k' = k1" "h' = unlink h c" "c' = next_of h c" "\<not> found"
      by (auto simp: Let_def split: if_splits)
    have "probe_results tm k h csh c (Suc 0) = Some (replicate 0 True @ [False], k')"
      using pr y False res(1) by simp
    then have "\<exists>m<Suc n. probe_results tm k h csh c (Suc m) = Some (replicate m True @ [False], k')"
      by blast
    with nx res show ?thesis by simp
  next
    case True
    with r0 y have rec: "confirm_candidate tm k1 h csh c n = Some (Inr (k', h', c', found))" by simp
    note ih = Suc.IH [OF rec]
    show ?thesis
    proof (cases found)
      case t: True
      with ih have "probe_results tm k1 h csh c n = Some (replicate n True, k')" "h' = h" "c' = c"
        by simp_all
      with pr y True t show ?thesis by simp
    next
      case f: False
      with ih obtain m where m: "m < n"
        "probe_results tm k1 h csh c (Suc m) = Some (replicate m True @ [False], k')"
        and rest: "next_of h c \<noteq> c" "h' = unlink h c" "c' = next_of h c" by auto
      have "probe_results tm k h csh c (Suc (Suc m)) = Some (replicate (Suc m) True @ [False], k')"
        using pr y True m(2) by (subst probe_results.simps(2)) (simp del: probe_results.simps)
      with m(1) have "\<exists>m<Suc n. probe_results tm k h csh c (Suc m) = Some (replicate m True @ [False], k')"
        by (intro exI [of _ "Suc m"]) simp
      with f rest show ?thesis by simp
    qed
  qed
qed

lemma confirm_candidate_abort:
  "confirm_candidate tm k h csh c n = Some (Inl e) \<Longrightarrow> e = CandidatesExhausted"
proof (induction n arbitrary: k)
  case 0
  then show ?case by simp
next
  case (Suc n)
  from Suc.prems obtain y where pr: "Probe tm k h csh c = Some y"
    and r0: "(case y of (miss, k1) \<Rightarrow>
          if \<not> miss then
            if \<not> next_of h c \<noteq> c then Some (Inl CandidatesExhausted)
            else
              (let h = unlink h c;
                   candidate = next_of h c
               in Some (Inr (k1, h, candidate, False)))
          else confirm_candidate tm k1 h csh c n) = Some (Inl e)"
    by (simp only: confirm_candidate.simps) (rule bind_SomeE)
  obtain miss k1 where y: "y = (miss, k1)" by (cases y)
  from r0 y Suc.IH [of k1] show ?case
    by (auto simp: Let_def split: if_splits)
qed

lemma confirm_candidate_run:
  "\<forall>j<n. plausible (tm (k + j)) \<and> tm (k + j) > LLC_CYCLE_THRESHOLD \<Longrightarrow>
     confirm_candidate tm k h csh c n = Some (Inr (k + n, h, c, True))"
proof (induction n arbitrary: k)
  case 0
  then show ?case by simp
next
  case (Suc n)
  have pl: "plausible (tm k)" "tm k > LLC_CYCLE_THRESHOLD" using Suc.prems by force+
  have "\<forall>j<n. plausible (tm (k + 1 + j)) \<and> tm (k + 1 + j) > LLC_CYCLE_THRESHOLD"
  proof (intro allI impI)
    fix j assume "j < n"
    then have "Suc j < Suc n" by simp
    with Suc.prems have "plausible (tm (k + Suc j)) \<and> tm (k + Suc j) > LLC_CYCLE_THRESHOLD"
      by blast
    then show "plausible (tm (k + 1 + j)) \<and> tm (k + 1 + j) > LLC_CYCLE_THRESHOLD" by simp
  qed
  from Suc.IH [OF this] Probe_miss [of tm k, OF pl] show ?case by simp
qed

lemma find_witness_unfold:
  "find_witness tm k h csh c =
     do { (miss, k1) \<leftarrow> Probe tm k h csh c;
          r \<leftarrow> drop_hits tm k1 h csh c miss;
          case r of
            Inl e \<Rightarrow> Some (Inl e)
          | Inr (k2, h2, c2) \<Rightarrow>
              do { r' \<leftarrow> confirm_candidate tm k2 h2 csh c2 100;
                   case r' of
                     Inl e \<Rightarrow> Some (Inl e)
                   | Inr (k3, h3, c3, found) \<Rightarrow>
                       if found then Some (Inr (k3, h3, c3))
                       else find_witness tm k3 h3 csh c3 } }"
  by (subst find_witness.simps) (rule refl)

lemma find_witness_run:
  assumes "\<forall>j<101. plausible (tm (k + j)) \<and> tm (k + j) > LLC_CYCLE_THRESHOLD"
  shows "find_witness tm k h csh c = Some (Inr (k + 101, h, c))"
proof -
  have pl: "plausible (tm k)" "tm k > LLC_CYCLE_THRESHOLD" using assms by force+
  have "\<forall>j<100. plausible (tm (k + 1 + j)) \<and> tm (k + 1 + j) > LLC_CYCLE_THRESHOLD"
  proof (intro allI impI)
    fix j :: nat assume "j < 100"
    then have "Suc j < 101" by simp
    with assms have "plausible (tm (k + Suc j)) \<and> tm (k + Suc j) > LLC_CYCLE_THRESHOLD"
      by blast
    then show "plausible (tm (k + 1 + j)) \<and> tm (k + 1 + j) > LLC_CYCLE_THRESHOLD" by simp
  qed
  from confirm_candidate_run [OF this, of h csh c]
  have c: "confirm_candidate tm (k + 1) h csh c 100 = Some (Inr (k + 1 + 100, h, c, True))" .
  have d: "drop_hits tm (k + 1) h csh c True = Some (Inr (k + 1, h, c))"
    by (subst drop_hits_unfold) simp
  show ?thesis
    by (subst find_witness_unfold) (use Probe_miss [of tm k, OF pl] d c in simp)
qed


lemma leftover_post_trans:
  assumes a: "leftover_post ds k h c (Inr (k2, h2, c2))"
    and b: "\<And>ds2. leftover_post ds2 k2 h2 c2 r"
  shows "leftover_post ds k h c r"
  unfolding leftover_post_def
proof (intro impI)
  assume pre: "ring h ds \<and> c \<in> set ds"
  with a obtain ds2 where
    a': "k \<le> k2" "same_outside (set ds) h h2" "ring h2 ds2" "c2 \<in> set ds2"
      "set ds2 \<subseteq> set ds" "length ds2 \<le> length ds"
    by (auto simp: leftover_post_def)
  from b [of ds2] a'(3,4)
  have p: "case r of Inl e \<Rightarrow> e = CandidatesExhausted
       | Inr (k', h', c') \<Rightarrow>
           k2 \<le> k' \<and> same_outside (set ds2) h2 h' \<and>
           (\<exists>ds'. ring h' ds' \<and> c' \<in> set ds' \<and> set ds' \<subseteq> set ds2 \<and> length ds' \<le> length ds2)"
    by (simp add: leftover_post_def)
  show "case r of Inl e \<Rightarrow> e = CandidatesExhausted
       | Inr (k', h', c') \<Rightarrow>
           k \<le> k' \<and> same_outside (set ds) h h' \<and>
           (\<exists>ds'. ring h' ds' \<and> c' \<in> set ds' \<and> set ds' \<subseteq> set ds \<and> length ds' \<le> length ds)"
  proof (cases r)
    case (Inl e)
    with p show ?thesis by simp
  next
    case (Inr x)
    obtain k' h' c' where x: "x = (k', h', c')" by (cases x)
    from p Inr x obtain ds' where
      q: "k2 \<le> k'" "same_outside (set ds2) h2 h'" "ring h' ds'" "c' \<in> set ds'"
        "set ds' \<subseteq> set ds2" "length ds' \<le> length ds2" by auto
    have "same_outside (set ds \<union> set ds2) h h'"
      using a'(2) q(2) by (rule same_outside_trans)
    then have "same_outside (set ds) h h'"
      by (rule same_outside_mono) (use a'(5) in auto)
    moreover have "set ds' \<subseteq> set ds" using q(5) a'(5) by auto
    moreover have "length ds' \<le> length ds" using q(6) a'(6) by simp
    ultimately show ?thesis using Inr x a'(1) q(1,3,4) by auto
  qed
qed

lemma leftover_post_advance:
  "leftover_post ds k h c (Inr (k2, h2, c2)) \<Longrightarrow> k2 \<le> k3 \<Longrightarrow>
   leftover_post ds k h c (Inr (k3, h2, c2))"
  unfolding leftover_post_def by auto

lemma find_witness_returns:
  assumes "find_witness tm k h csh c = Some r"
  shows "find_witness_post tm k h csh c r"
proof (rule find_witness.raw_induct [where P = find_witness_post, OF _ assms])
  fix f tm k h csh c r
  assume ih: "\<And>tm k h csh c r. f tm k h csh c = Some r \<Longrightarrow> find_witness_post tm k h csh c r"
    and eq: "do { (missToDRAM, k1) \<leftarrow> Probe tm k h csh c;
          r \<leftarrow> drop_hits tm k1 h csh c missToDRAM;
          case r of
            Inl e \<Rightarrow> Some (Inl e)
          | Inr (k2, h2, candidate2) \<Rightarrow>
              do { r' \<leftarrow> confirm_candidate tm k2 h2 csh candidate2 100;
                   case r' of
                     Inl e \<Rightarrow> Some (Inl e)
                   | Inr (k3, h3, candidate3, foundCandidate) \<Rightarrow>
                       if foundCandidate then Some (Inr (k3, h3, candidate3))
                       else f tm k3 h3 csh candidate3 } } = Some r"
  from eq obtain y where pr0: "Probe tm k h csh c = Some y"
    and e1: "(case y of (missToDRAM, k1) \<Rightarrow> do {
          r \<leftarrow> drop_hits tm k1 h csh c missToDRAM;
          case r of
            Inl e \<Rightarrow> Some (Inl e)
          | Inr (k2, h2, candidate2) \<Rightarrow>
              do { r' \<leftarrow> confirm_candidate tm k2 h2 csh candidate2 100;
                   case r' of
                     Inl e \<Rightarrow> Some (Inl e)
                   | Inr (k3, h3, candidate3, foundCandidate) \<Rightarrow>
                       if foundCandidate then Some (Inr (k3, h3, candidate3))
                       else f tm k3 h3 csh candidate3 } }) = Some r"
    by (rule bind_SomeE)
  obtain miss k1 where y: "y = (miss, k1)" by (cases y)
  have pr: "Probe tm k h csh c = Some (miss, k1)" using pr0 y by simp
  have kk1: "k < k1" by (rule Probe_mono [OF pr])
  from e1 [unfolded y prod.case] obtain r1 where dh: "drop_hits tm k1 h csh c miss = Some r1"
    and e2: "(case r1 of
            Inl e \<Rightarrow> Some (Inl e)
          | Inr (k2, h2, candidate2) \<Rightarrow>
              do { r' \<leftarrow> confirm_candidate tm k2 h2 csh candidate2 100;
                   case r' of
                     Inl e \<Rightarrow> Some (Inl e)
                   | Inr (k3, h3, candidate3, foundCandidate) \<Rightarrow>
                       if foundCandidate then Some (Inr (k3, h3, candidate3))
                       else f tm k3 h3 csh candidate3 }) = Some r"
    by (rule bind_SomeE)
  note dp = drop_hits_returns [OF dh, unfolded drop_hits_post_def]
  show "find_witness_post tm k h csh c r"
  proof (cases r1)
    case (Inl e)
    with e2 have "r = Inl e" by simp
    moreover have "\<forall>ds. leftover_post ds k h c (Inl e)"
      using dp Inl kk1 by (auto intro: leftover_post_later)
    ultimately show ?thesis by (simp add: find_witness_post_def)
  next
    case (Inr x)
    obtain k2 h2 c2 where x: "x = (k2, h2, c2)" by (cases x)
    have lo: "\<And>ds. leftover_post ds k h c (Inr (k2, h2, c2))"
      using dp Inr x kk1 by (auto intro: leftover_post_later)
    have pb: "(miss \<and> k2 = k1 \<and> h2 = h \<and> c2 = c) \<or>
          (\<exists>k0\<ge>k1. Probe tm k0 h2 csh c2 = Some (True, k2))"
      using dp Inr x by simp
    have first: "\<exists>k0\<ge>k. Probe tm k0 h2 csh c2 = Some (True, k2)"
      using pb
    proof
      assume "miss \<and> k2 = k1 \<and> h2 = h \<and> c2 = c"
      with pr show ?thesis by auto
    next
      assume "\<exists>k0\<ge>k1. Probe tm k0 h2 csh c2 = Some (True, k2)"
      then obtain k0 where "k1 \<le> k0" "Probe tm k0 h2 csh c2 = Some (True, k2)" by blast
      with kk1 show ?thesis by (intro exI [of _ k0]) simp
    qed
    from e2 [unfolded Inr x sum.case prod.case] obtain r2 where
      cf: "confirm_candidate tm k2 h2 csh c2 100 = Some r2"
      and e3: "(case r2 of
                     Inl e \<Rightarrow> Some (Inl e)
                   | Inr (k3, h3, candidate3, foundCandidate) \<Rightarrow>
                       if foundCandidate then Some (Inr (k3, h3, candidate3))
                       else f tm k3 h3 csh candidate3) = Some r"
      by (rule bind_SomeE)
    show ?thesis
    proof (cases r2)
      case (Inl e)
      with e3 have r: "r = Inl e" by simp
      from cf Inl have "e = CandidatesExhausted" by (simp add: confirm_candidate_abort)
      with r show ?thesis by (simp add: find_witness_post_def leftover_post_def)
    next
      case r2: (Inr z)
      obtain k3 h3 c3 found where z: "z = (k3, h3, c3, found)" by (cases z)
      note cr = confirm_candidate_returns [OF cf [unfolded r2 z]]
      show ?thesis
      proof (cases found)
        case True
        with cr have pr100: "probe_results tm k2 h2 csh c2 100 = Some (replicate 100 True, k3)"
          and same: "h3 = h2" "c3 = c2" by simp_all
        from e3 r2 z True have r: "r = Inr (k3, h2, c2)" using same by simp
        have k23: "k2 \<le> k3" by (rule probe_results_mono [OF pr100])
        from first obtain k0 where k0: "k \<le> k0" "Probe tm k0 h2 csh c2 = Some (True, k2)" by blast
        have "probe_results tm k0 h2 csh c2 (Suc 100) = Some (True # replicate 100 True, k3)"
          using k0(2) pr100 by (subst probe_results.simps(2)) (simp del: probe_results.simps)
        then have "probe_results tm k0 h2 csh c2 101 = Some (replicate 101 True, k3)"
          by (simp del: probe_results.simps add: numeral_eq_Suc)
        with k0(1) have "\<exists>k0\<ge>k. probe_results tm k0 h2 csh c2 101 = Some (replicate 101 True, k3)"
          by blast
        moreover have "\<forall>ds. leftover_post ds k h c (Inr (k3, h2, c2))"
          using lo k23 by (auto intro: leftover_post_advance)
        ultimately show ?thesis using r by (simp add: find_witness_post_def)
      next
        case False
        with cr obtain m where m: "m < 100"
          "probe_results tm k2 h2 csh c2 (Suc m) = Some (replicate m True @ [False], k3)"
          and nx: "next_of h2 c2 \<noteq> c2" and h3: "h3 = unlink h2 c2" and c3: "c3 = next_of h2 c2"
          by auto
        have k23: "k2 \<le> k3" by (rule probe_results_mono [OF m(2)])
        from e3 r2 z False have rec: "f tm k3 h3 csh c3 = Some r" by simp
        note p = ih [OF rec, unfolded find_witness_post_def h3 c3]
        have "\<forall>ds. leftover_post ds k h c r"
        proof
          fix ds
          have "\<And>ds2. leftover_post ds2 k2 h2 c2 r"
            by (rule leftover_post_drop [where k' = k3]) (use p nx k23 in auto)
          with lo [of ds] show "leftover_post ds k h c r" by (rule leftover_post_trans)
        qed
        moreover have "case r of Inl e \<Rightarrow> True
          | Inr (k', h', c') \<Rightarrow>
              \<exists>k0\<ge>k. probe_results tm k0 h' csh c' 101 = Some (replicate 101 True, k')"
        proof (cases r)
          case (Inl e)
          then show ?thesis by simp
        next
          case (Inr w)
          obtain k' h' c' where w: "w = (k', h', c')" by (cases w)
          from p Inr w obtain k0 where "k3 \<le> k0"
            "probe_results tm k0 h' csh c' 101 = Some (replicate 101 True, k')" by auto
          moreover have "k \<le> k3" using lo [of "[]"] k23 kk1 dp Inr x
            by (metis Probe_mono first le_trans less_imp_le)
          ultimately have "\<exists>k0\<ge>k. probe_results tm k0 h' csh c' 101 = Some (replicate 101 True, k')"
            by (intro exI [of _ k0]) simp
          with Inr w show ?thesis by simp
        qed
        ultimately show ?thesis by (simp add: find_witness_post_def)
      qed
    qed
  qed
qed


lemma confirm_candidate_drop:
  "probe_results tm k h csh c (Suc m) = Some (replicate m True @ [False], k') \<Longrightarrow> m < n \<Longrightarrow>
     confirm_candidate tm k h csh c n =
       (if next_of h c = c then Some (Inl CandidatesExhausted)
        else Some (Inr (k', unlink h c, next_of h c, False)))"
proof (induction m arbitrary: k n)
  case 0
  then obtain n' where n: "n = Suc n'" by (cases n) auto
  from 0(1) obtain y where pr: "Probe tm k h csh c = Some y"
    and r0: "(case y of (b, k1) \<Rightarrow> do { (bs, k2) \<leftarrow> probe_results tm k1 h csh c 0; Some (b # bs, k2) })
               = Some (replicate 0 True @ [False], k')"
    by (simp only: probe_results.simps(2)) (rule bind_SomeE)
  obtain b k1 where y: "y = (b, k1)" by (cases y)
  from r0 y have "b = False" "k1 = k'" by simp_all
  with pr y show ?case by (simp add: n Let_def)
next
  case (Suc m)
  then obtain n' where n: "n = Suc n'" and mn: "m < n'" by (cases n) auto
  from Suc.prems(1) obtain y where pr: "Probe tm k h csh c = Some y"
    and r0: "(case y of (b, k1) \<Rightarrow>
                do { (bs, k2) \<leftarrow> probe_results tm k1 h csh c (Suc m); Some (b # bs, k2) })
               = Some (replicate (Suc m) True @ [False], k')"
    by (simp only: probe_results.simps(2)) (rule bind_SomeE)
  obtain b k1 where y: "y = (b, k1)" by (cases y)
  from r0 [unfolded y prod.case] obtain z where pz: "probe_results tm k1 h csh c (Suc m) = Some z"
    and r1: "(case z of (bs, k2) \<Rightarrow> Some (b # bs, k2)) = Some (replicate (Suc m) True @ [False], k')"
    by (rule bind_SomeE)
  obtain bs k2 where z: "z = (bs, k2)" by (cases z)
  from r1 z have b: "b = True" and bs: "bs = replicate m True @ [False]" and k2: "k2 = k'"
    by simp_all
  from pz z bs k2 have "probe_results tm k1 h csh c (Suc m) = Some (replicate m True @ [False], k')"
    by simp
  from Suc.IH [OF this mn] pr y b show ?case by (simp add: n)
qed

lemma find_witness_first_hit:
  assumes "Probe tm k h csh c = Some (False, k1)"
  shows "find_witness tm k h csh c =
     (if next_of h c = c then Some (Inl CandidatesExhausted)
      else find_witness tm k1 (unlink h c) csh (next_of h c))"
proof (cases "next_of h c = c")
  case True
  then show ?thesis
    by (subst find_witness_unfold) (simp add: assms drop_hits_unfold)
next
  case False
  show ?thesis
  proof (cases "Probe tm k1 (unlink h c) csh (next_of h c)")
    case None
    then show ?thesis
      using False
      by (subst find_witness_unfold, subst (2) find_witness_unfold)
         (simp add: assms drop_hits_unfold [of tm k1 h])
  next
    case (Some y)
    obtain m k2 where y: "y = (m, k2)" by (cases y)
    show ?thesis
      using False Some y
      by (subst find_witness_unfold, subst (2) find_witness_unfold)
         (simp add: assms drop_hits_unfold [of tm k1 h])
  qed
qed

lemma find_witness_confirm_hit:
  assumes "Probe tm k h csh c = Some (True, k1)"
    "probe_results tm k1 h csh c (Suc m) = Some (replicate m True @ [False], k2)" "m < 100"
  shows "find_witness tm k h csh c =
     (if next_of h c = c then Some (Inl CandidatesExhausted)
      else find_witness tm k2 (unlink h c) csh (next_of h c))"
  by (subst find_witness_unfold)
     (simp add: assms(1) drop_hits_unfold [of tm k1 h csh c True]
        confirm_candidate_drop [OF assms(2,3)])

subsection \<open>The candidates a search drops on its way\<close>

lemma drops_to_trans:
  "drops_to tm csh k h c k1 h1 c1 \<Longrightarrow> drops_to tm csh k1 h1 c1 k2 h2 c2 \<Longrightarrow>
     drops_to tm csh k h c k2 h2 c2"
proof (induction rule: drops_to.induct)
  case (here k h c)
  then show ?case .
next
  case (initial_probe k h c ka k' h' c')
  then show ?case by (blast intro: drops_to.initial_probe)
next
  case (confirmation k h c ka m kb k' h' c')
  then show ?case by (blast intro: drops_to.confirmation)
qed

lemma drops_to_mono: "drops_to tm csh k h c k' h' c' \<Longrightarrow> k \<le> k'"
proof (induction rule: drops_to.induct)
  case (here k h c)
  then show ?case by simp
next
  case (initial_probe k h c ka k' h' c')
  with Probe_mono [of tm k h csh c False ka] show ?case by simp
next
  case (confirmation k h c ka m kb k' h' c')
  from confirmation(3) have "ka \<le> kb" using probe_results_mono by blast
  with confirmation Probe_mono [of tm k h csh c True ka] show ?case by simp
qed


lemma probe_results_split:
  assumes "probe_results tm k h s c (Suc n) = Some (b # bs, k')"
  obtains k1 where "Probe tm k h s c = Some (b, k1)" "probe_results tm k1 h s c n = Some (bs, k')"
proof -
  from assms obtain y where pr: "Probe tm k h s c = Some y"
    and r0: "(case y of (b', k1) \<Rightarrow> do { (bs', k2) \<leftarrow> probe_results tm k1 h s c n; Some (b' # bs', k2) })
               = Some (b # bs, k')"
    by (simp only: probe_results.simps(2)) (rule bind_SomeE)
  obtain b' k1 where y: "y = (b', k1)" by (cases y)
  from r0 [unfolded y prod.case] obtain z where pz: "probe_results tm k1 h s c n = Some z"
    and r1: "(case z of (bs', k2) \<Rightarrow> Some (b' # bs', k2)) = Some (b # bs, k')"
    by (rule bind_SomeE)
  obtain bs' k2 where z: "z = (bs', k2)" by (cases z)
  from r1 z have "b' = b" "bs' = bs" "k2 = k'" by simp_all
  with pr y pz z show thesis by (intro that [of k1]) simp_all
qed

lemma probe_results_join:
  "Probe tm k h s c = Some (b, k1) \<Longrightarrow> probe_results tm k1 h s c n = Some (bs, k') \<Longrightarrow>
     probe_results tm k h s c (Suc n) = Some (b # bs, k')"
  by simp

lemma confirm_candidate_all:
  "probe_results tm k h csh c n = Some (replicate n True, k') \<Longrightarrow>
     confirm_candidate tm k h csh c n = Some (Inr (k', h, c, True))"
proof (induction n arbitrary: k)
  case 0
  then show ?case by simp
next
  case (Suc n)
  from Suc.prems have "probe_results tm k h csh c (Suc n) = Some (True # replicate n True, k')"
    by simp
  then obtain k1 where pr: "Probe tm k h csh c = Some (True, k1)"
    and rest: "probe_results tm k1 h csh c n = Some (replicate n True, k')"
    by (rule probe_results_split)
  from Suc.IH [OF rest] pr show ?case by simp
qed

lemma find_witness_success:
  assumes "Probe tm k h csh c = Some (True, k1)"
    "probe_results tm k1 h csh c 100 = Some (replicate 100 True, k2)"
  shows "find_witness tm k h csh c = Some (Inr (k2, h, c))"
  by (subst find_witness_unfold)
     (simp add: assms(1) drop_hits_unfold [of tm k1 h csh c True]
        confirm_candidate_all [OF assms(2)])

lemma drop_hits_trace:
  assumes "drop_hits tm k1 h csh c miss = Some r"
  shows "\<forall>k. Probe tm k h csh c = Some (miss, k1) \<longrightarrow>
     (case r of Inl e \<Rightarrow> True
      | Inr (k2, h2, c2) \<Rightarrow>
          (\<exists>kp. drops_to tm csh k h c kp h2 c2 \<and> Probe tm kp h2 csh c2 = Some (True, k2)))"
proof (rule drop_hits.raw_induct
    [where P = "\<lambda>tm k1 h csh c miss r. \<forall>k. Probe tm k h csh c = Some (miss, k1) \<longrightarrow>
     (case r of Inl e \<Rightarrow> True
      | Inr (k2, h2, c2) \<Rightarrow>
          (\<exists>kp. drops_to tm csh k h c kp h2 c2 \<and> Probe tm kp h2 csh c2 = Some (True, k2)))",
      OF _ assms])
  fix f tm k1 h csh c miss r
  assume ih: "\<And>tm k1 h csh c miss r. f tm k1 h csh c miss = Some r
                \<Longrightarrow> \<forall>k. Probe tm k h csh c = Some (miss, k1) \<longrightarrow>
     (case r of Inl e \<Rightarrow> True
      | Inr (k2, h2, c2) \<Rightarrow>
          (\<exists>kp. drops_to tm csh k h c kp h2 c2 \<and> Probe tm kp h2 csh c2 = Some (True, k2)))"
    and eq: "(if \<not> miss then
        if \<not> next_of h c \<noteq> c then Some (Inl CandidatesExhausted)
        else
          (let h = unlink h c;
               candidate = next_of h c
           in do { (missToDRAM, k') \<leftarrow> Probe tm k1 h csh candidate;
                   f tm k' h csh candidate missToDRAM })
      else Some (Inr (k1, h, c))) = Some r"
  show "\<forall>k. Probe tm k h csh c = Some (miss, k1) \<longrightarrow>
     (case r of Inl e \<Rightarrow> True
      | Inr (k2, h2, c2) \<Rightarrow>
          (\<exists>kp. drops_to tm csh k h c kp h2 c2 \<and> Probe tm kp h2 csh c2 = Some (True, k2)))"
  proof (intro allI impI)
    fix k assume p0: "Probe tm k h csh c = Some (miss, k1)"
    show "case r of Inl e \<Rightarrow> True
      | Inr (k2, h2, c2) \<Rightarrow>
          (\<exists>kp. drops_to tm csh k h c kp h2 c2 \<and> Probe tm kp h2 csh c2 = Some (True, k2))"
    proof (cases r)
      case (Inl e)
      then show ?thesis by simp
    next
      case (Inr t)
      obtain k2 h2 c2 where t: "t = (k2, h2, c2)" by (cases t)
      note r = Inr [unfolded t]
      show ?thesis
      proof (cases miss)
        case True
        with eq r have e: "k2 = k1" "h2 = h" "c2 = c" by simp_all
        have "drops_to tm csh k h c k h c" by (rule drops_to.here)
        with p0 True e r show ?thesis by auto
      next
        case False
        with eq r have nx: "next_of h c \<noteq> c" by (auto split: if_splits)
        let ?u = "unlink h c"
        have n: "next_of ?u c = next_of h c" by simp
        from p0 False have p0': "Probe tm k h csh c = Some (False, k1)" by simp
        from eq False nx obtain y where pr: "Probe tm k1 ?u csh (next_of h c) = Some y"
          and rec0: "(case y of (m, k') \<Rightarrow> f tm k' ?u csh (next_of h c) m) = Some r"
          by (simp add: Let_def n) (erule bind_SomeE)
        obtain m k' where y: "y = (m, k')" by (cases y)
        from rec0 y have rec: "f tm k' ?u csh (next_of h c) m = Some r" by simp
        from ih [OF rec, rule_format, OF pr [unfolded y]] r obtain kp where
          d: "drops_to tm csh k1 ?u (next_of h c) kp h2 c2"
          and p: "Probe tm kp h2 csh c2 = Some (True, k2)" by auto
        have "drops_to tm csh k h c kp h2 c2"
          by (rule drops_to.initial_probe [OF p0' nx d])
        with p r show ?thesis by auto
      qed
    qed
  qed
qed


lemma find_witness_trace:
  assumes "find_witness tm k h csh c = Some r"
  shows "case r of Inl e \<Rightarrow> True
         | Inr (k', h', w) \<Rightarrow>
             (\<exists>k0. drops_to tm csh k h c k0 h' w
                  \<and> probe_results tm k0 h' csh w 101 = Some (replicate 101 True, k'))"
proof (rule find_witness.raw_induct
    [where P = "\<lambda>tm k h csh c r. case r of Inl e \<Rightarrow> True
         | Inr (k', h', w) \<Rightarrow>
             (\<exists>k0. drops_to tm csh k h c k0 h' w
                  \<and> probe_results tm k0 h' csh w 101 = Some (replicate 101 True, k'))",
      OF _ assms])
  fix f tm k h csh c r
  assume ih: "\<And>tm k h csh c r. f tm k h csh c = Some r
                \<Longrightarrow> (case r of Inl e \<Rightarrow> True
         | Inr (k', h', w) \<Rightarrow>
             (\<exists>k0. drops_to tm csh k h c k0 h' w
                  \<and> probe_results tm k0 h' csh w 101 = Some (replicate 101 True, k')))"
    and eq: "do { (missToDRAM, k1) \<leftarrow> Probe tm k h csh c;
          r \<leftarrow> drop_hits tm k1 h csh c missToDRAM;
          case r of
            Inl e \<Rightarrow> Some (Inl e)
          | Inr (k2, h2, candidate2) \<Rightarrow>
              do { r' \<leftarrow> confirm_candidate tm k2 h2 csh candidate2 100;
                   case r' of
                     Inl e \<Rightarrow> Some (Inl e)
                   | Inr (k3, h3, candidate3, foundCandidate) \<Rightarrow>
                       if foundCandidate then Some (Inr (k3, h3, candidate3))
                       else f tm k3 h3 csh candidate3 } } = Some r"
  show "case r of Inl e \<Rightarrow> True
         | Inr (k', h', w) \<Rightarrow>
             (\<exists>k0. drops_to tm csh k h c k0 h' w
                  \<and> probe_results tm k0 h' csh w 101 = Some (replicate 101 True, k'))"
  proof (cases r)
    case (Inl e)
    then show ?thesis by simp
  next
    case (Inr t)
    obtain k' h' w where t: "t = (k', h', w)" by (cases t)
    note r = Inr [unfolded t]
    from eq obtain y where pr: "Probe tm k h csh c = Some y" and
      c1: "(case y of (missToDRAM, k1) \<Rightarrow>
          do { r \<leftarrow> drop_hits tm k1 h csh c missToDRAM;
          case r of
            Inl e \<Rightarrow> Some (Inl e)
          | Inr (k2, h2, candidate2) \<Rightarrow>
              do { r' \<leftarrow> confirm_candidate tm k2 h2 csh candidate2 100;
                   case r' of
                     Inl e \<Rightarrow> Some (Inl e)
                   | Inr (k3, h3, candidate3, foundCandidate) \<Rightarrow>
                       if foundCandidate then Some (Inr (k3, h3, candidate3))
                       else f tm k3 h3 csh candidate3 } }) = Some r"
      by (rule bind_SomeE)
    obtain m k1 where y: "y = (m, k1)" by (cases y)
    from c1 [unfolded y] obtain d where dh: "drop_hits tm k1 h csh c m = Some d"
      and c2: "(case d of
            Inl e \<Rightarrow> Some (Inl e)
          | Inr (k2, h2, candidate2) \<Rightarrow>
              do { r' \<leftarrow> confirm_candidate tm k2 h2 csh candidate2 100;
                   case r' of
                     Inl e \<Rightarrow> Some (Inl e)
                   | Inr (k3, h3, candidate3, foundCandidate) \<Rightarrow>
                       if foundCandidate then Some (Inr (k3, h3, candidate3))
                       else f tm k3 h3 csh candidate3 }) = Some r"
      by simp (erule bind_SomeE)
    from c2 r obtain k2 h2 c2' where d: "d = Inr (k2, h2, c2')"
      by (cases d) auto
    from drop_hits_trace [OF dh, rule_format, OF pr [unfolded y]] d obtain kp where
      tr: "drops_to tm csh k h c kp h2 c2'"
      and pp: "Probe tm kp h2 csh c2' = Some (True, k2)" by auto
    from c2 [unfolded d] obtain r' where cc: "confirm_candidate tm k2 h2 csh c2' 100 = Some r'"
      and c3: "(case r' of
                     Inl e \<Rightarrow> Some (Inl e)
                   | Inr (k3, h3, candidate3, foundCandidate) \<Rightarrow>
                       if foundCandidate then Some (Inr (k3, h3, candidate3))
                       else f tm k3 h3 csh candidate3) = Some r"
      by simp (erule bind_SomeE)
    from c3 r obtain k3 h3 c3' found where r': "r' = Inr (k3, h3, c3', found)"
      by (cases r') auto
    note cr = confirm_candidate_returns [OF cc [unfolded r']]
    show ?thesis
    proof (cases found)
      case True
      with cr have pr100: "probe_results tm k2 h2 csh c2' 100 = Some (replicate 100 True, k3)"
        and e: "h3 = h2" "c3' = c2'" by simp_all
      from c3 r' True r e have e': "k' = k3" "h' = h2" "w = c2'" by simp_all
      have "probe_results tm kp h2 csh c2' (Suc 100) = Some (True # replicate 100 True, k3)"
        by (rule probe_results_join [OF pp pr100])
      then have "probe_results tm kp h2 csh c2' 101 = Some (replicate 101 True, k3)"
        by (simp add: numeral_eq_Suc)
      with tr e' r show ?thesis by auto
    next
      case False
      with cr obtain j where j: "j < 100"
        and prj: "probe_results tm k2 h2 csh c2' (Suc j) = Some (replicate j True @ [False], k3)"
        and nx: "next_of h2 c2' \<noteq> c2'" and e: "h3 = unlink h2 c2'" "c3' = next_of h2 c2'"
        by auto
      from c3 r' False have rec: "f tm k3 h3 csh c3' = Some r" by simp
      from ih [OF rec] r obtain k0 where
        d2: "drops_to tm csh k3 h3 c3' k0 h' w"
        and p2: "probe_results tm k0 h' csh w 101 = Some (replicate 101 True, k')" by auto
      have "drops_to tm csh kp h2 c2' k0 h' w"
        by (rule drops_to.confirmation [OF pp j prj nx d2 [unfolded e]])
      with tr have "drops_to tm csh k h c k0 h' w" by (rule drops_to_trans)
      with p2 r show ?thesis by auto
    qed
  qed
qed

text \<open>
  Claim C4. When the search returns a candidate \<open>w\<close>, the run consisted of dropping candidates
  one after the other, each after a probe of it had said "not evicted", until it stood at \<open>w\<close>;
  there the initial probe of \<open>w\<close> and its 100 confirmation probes all said "evicted", and
  \<open>w\<close> is a node of the leftover ring the search started on. A candidate whose 101 probes
  all say "evicted" is returned at once, with the memory untouched. When the initial probe of
  a candidate says "not evicted", or one of its first 100 confirmation probes does, the
  candidate is taken out of the leftover ring and the search starts again with its
  neighbour (or the run aborts, when the candidate was the last one left).
\<close>

theorem find_witness_confirms:
  "(find_witness tm k h csh c = Some (Inr (k', h', w)) \<longrightarrow>
      (\<exists>k0\<ge>k. drops_to tm csh k h c k0 h' w
          \<and> probe_results tm k0 h' csh w 101 = Some (replicate 101 True, k')
          \<and> find_witness tm k0 h' csh w = Some (Inr (k', h', w)))
      \<and> (\<forall>ds. ring h ds \<and> c \<in> set ds \<longrightarrow>
            w \<in> set ds \<and> same_outside (set ds) h h'
            \<and> (\<exists>ds'. ring h' ds' \<and> w \<in> set ds' \<and> set ds' \<subseteq> set ds))) \<and>
   (Probe tm k h csh c = Some (True, k1) \<and>
    probe_results tm k1 h csh c 100 = Some (replicate 100 True, k2) \<longrightarrow>
      find_witness tm k h csh c = Some (Inr (k2, h, c))) \<and>
   (Probe tm k h csh c = Some (False, k1) \<longrightarrow>
      find_witness tm k h csh c =
        (if next_of h c = c then Some (Inl CandidatesExhausted)
         else find_witness tm k1 (unlink h c) csh (next_of h c))) \<and>
   (Probe tm k h csh c = Some (True, k1) \<and> m < 100 \<and>
    probe_results tm k1 h csh c (Suc m) = Some (replicate m True @ [False], k2) \<longrightarrow>
      find_witness tm k h csh c =
        (if next_of h c = c then Some (Inl CandidatesExhausted)
         else find_witness tm k2 (unlink h c) csh (next_of h c))) \<and>
   (ring h ds \<and> c \<in> set ds \<and> next_of h c \<noteq> c \<longrightarrow>
      (\<exists>ds'. ring (unlink h c) ds' \<and> set ds' = set ds - {c} \<and> next_of h c \<in> set ds'))"
proof (intro conjI impI allI)
  assume ret: "find_witness tm k h csh c = Some (Inr (k', h', w))"
  from find_witness_trace [OF ret] obtain k0 where
    tr: "drops_to tm csh k h c k0 h' w"
    and pr: "probe_results tm k0 h' csh w 101 = Some (replicate 101 True, k')" by auto
  from pr have "probe_results tm k0 h' csh w (Suc 100) = Some (True # replicate 100 True, k')"
    by (simp add: numeral_eq_Suc)
  then obtain ka where p1: "Probe tm k0 h' csh w = Some (True, ka)"
    and p100: "probe_results tm ka h' csh w 100 = Some (replicate 100 True, k')"
    by (rule probe_results_split)
  note fw = find_witness_success [OF p1 p100]
  from drops_to_mono [OF tr] tr pr fw
  show "\<exists>k0\<ge>k. drops_to tm csh k h c k0 h' w
          \<and> probe_results tm k0 h' csh w 101 = Some (replicate 101 True, k')
          \<and> find_witness tm k0 h' csh w = Some (Inr (k', h', w))" by blast
  {
    fix ds assume a: "ring h ds \<and> c \<in> set ds"
    from find_witness_returns [OF ret] have "leftover_post ds k h c (Inr (k', h', w))"
      by (simp add: find_witness_post_def)
    with a have "same_outside (set ds) h h' \<and>
        (\<exists>ds'. ring h' ds' \<and> w \<in> set ds' \<and> set ds' \<subseteq> set ds)"
      unfolding leftover_post_def by auto
  }
  note lo = this
  fix ds assume a: "ring h ds \<and> c \<in> set ds"
  from lo [OF a] show "w \<in> set ds" by auto
  from lo [OF a] show "same_outside (set ds) h h'" by simp
  from lo [OF a] show "\<exists>ds'. ring h' ds' \<and> w \<in> set ds' \<and> set ds' \<subseteq> set ds" by simp
next
  assume "Probe tm k h csh c = Some (True, k1) \<and>
    probe_results tm k1 h csh c 100 = Some (replicate 100 True, k2)"
  then show "find_witness tm k h csh c = Some (Inr (k2, h, c))"
    using find_witness_success by blast
next
  assume "Probe tm k h csh c = Some (False, k1)"
  then show "find_witness tm k h csh c =
        (if next_of h c = c then Some (Inl CandidatesExhausted)
         else find_witness tm k1 (unlink h c) csh (next_of h c))"
    by (rule find_witness_first_hit)
next
  assume "Probe tm k h csh c = Some (True, k1) \<and> m < 100 \<and>
    probe_results tm k1 h csh c (Suc m) = Some (replicate m True @ [False], k2)"
  then show "find_witness tm k h csh c =
        (if next_of h c = c then Some (Inl CandidatesExhausted)
         else find_witness tm k2 (unlink h c) csh (next_of h c))"
    using find_witness_confirm_hit by blast
next
  assume a: "ring h ds \<and> c \<in> set ds \<and> next_of h c \<noteq> c"
  then have r: "ring h ds" and c: "c \<in> set ds" and len: "2 \<le> length ds"
    using ring_next_neq by auto
  from unlink_member(1) [OF r c len] unlink_member(4) [OF r c len]
  show "\<exists>ds'. ring (unlink h c) ds' \<and> set ds' = set ds - {c} \<and> next_of h c \<in> set ds'"
    by auto
qed

lemma drop_timer_miss: "0 < k \<Longrightarrow> plausible (drop_timer k) \<and> drop_timer k > LLC_CYCLE_THRESHOLD"
  by (simp add: drop_timer_def plausible_def LLC_CYCLE_THRESHOLD_def)

theorem find_witness_confirms_witness:
  "find_witness drop_timer 0 (cycle_heap 3) 7 0 = Some (Inr (102, unlink (cycle_heap 3) 0, 1)) \<and>
   (\<exists>k0. drops_to drop_timer 7 0 (cycle_heap 3) 0 k0 (unlink (cycle_heap 3) 0) 1 \<and>
      probe_results drop_timer k0 (unlink (cycle_heap 3) 0) 7 1 101
           = Some (replicate 101 True, 102)) \<and>
   (\<exists>ds'. ring (unlink (cycle_heap 3) 0) ds' \<and> set ds' = {1, 2}) \<and>
   find_witness (\<lambda>k. if k = 3 then 50 else 150) 2 (cycle_heap 3) 7 0
     = Some (Inr (105, unlink (cycle_heap 3) 0, 1))"
proof -
  let ?h = "cycle_heap 3"
  let ?tm = "\<lambda>k :: nat. if k = 3 then 50 else 150 :: 64 word"
  have nx: "next_of ?h 0 = 1" by (simp add: cycle_heap_def)
  have p0: "Probe drop_timer 0 ?h 7 0 = Some (False, 0 + 1)"
    by (rule Probe_hit) (simp_all add: drop_timer_def plausible_def LLC_CYCLE_THRESHOLD_def)
  have run: "find_witness drop_timer 1 (unlink ?h 0) 7 1 = Some (Inr (1 + 101, unlink ?h 0, 1))"
    by (rule find_witness_run) (simp add: drop_timer_miss)
  note t = find_witness_confirms [of drop_timer 0 ?h 7 0 102 "unlink ?h 0" 1 1 0 0 "[0, 1, 2]"]
  have fw: "find_witness drop_timer 0 ?h 7 0 = Some (Inr (102, unlink ?h 0, 1))"
    using t p0 run nx by simp
  have "[0..<3] = [0, 1, 2::nat]" by (simp add: upt_conv_Cons)
  then have r: "ring ?h [0, 1, 2]"
    using cycle_heap_ring [of 3] by simp
  from t fw have "\<exists>k0\<ge>0. drops_to drop_timer 7 0 ?h 0 k0 (unlink ?h 0) 1 \<and>
      probe_results drop_timer k0 (unlink ?h 0) 7 1 101 = Some (replicate 101 True, 102)
      \<and> find_witness drop_timer k0 (unlink ?h 0) 7 1 = Some (Inr (102, unlink ?h 0, 1))"
    by blast
  then have a: "\<exists>k0. drops_to drop_timer 7 0 ?h 0 k0 (unlink ?h 0) 1 \<and>
      probe_results drop_timer k0 (unlink ?h 0) 7 1 101 = Some (replicate 101 True, 102)"
    by blast
  from t r nx have "\<exists>ds'. ring (unlink ?h 0) ds' \<and> set ds' = set [0, 1, 2] - {0}"
    by auto
  then have b: "\<exists>ds'. ring (unlink ?h 0) ds' \<and> set ds' = {1, 2}" by auto
  have q0: "Probe ?tm 2 ?h 7 0 = Some (True, 2 + 1)"
    by (rule Probe_miss) (simp_all add: plausible_def LLC_CYCLE_THRESHOLD_def)
  have q1: "Probe ?tm 3 ?h 7 0 = Some (False, 3 + 1)"
    by (rule Probe_hit) (simp_all add: plausible_def LLC_CYCLE_THRESHOLD_def)
  have q: "probe_results ?tm 3 ?h 7 0 (Suc 0) = Some (replicate 0 True @ [False], 4)"
    using q1 by simp
  have run2: "find_witness ?tm 4 (unlink ?h 0) 7 1 = Some (Inr (4 + 101, unlink ?h 0, 1))"
    by (rule find_witness_run) (simp add: plausible_def LLC_CYCLE_THRESHOLD_def)
  note t2 = find_witness_confirms [of ?tm 2 ?h 7 0 105 "unlink ?h 0" 1 3 4 0 "[0, 1, 2]"]
  have fw2: "find_witness ?tm 2 ?h 7 0 = Some (Inr (105, unlink ?h 0, 1))"
    using t2 q0 q run2 nx by simp
  show ?thesis using fw a b fw2 by blast
qed


section \<open>Slice partitioning: a test leaves the conflict ring as it was\<close>


text \<open>
  Claim C8. On a conflict ring \<open>cs\<close>, one test of a node of the ring takes the node out for
  the probe (the ring without it is a ring), puts it back whatever the probe says, and
  returns the memory exactly as it was, so the ring and every link are unchanged; the
  outcome is recorded in the scratch set alone, which gains the node when the probe says
  "not evicted". The whole scan therefore returns the memory it started with.
\<close>

theorem test_node_restores:
  assumes "ring h cs" and "testNode \<in> set cs"
  shows
  "(\<forall>tm k candidate es k' h' t' es'.
      test_node tm k h candidate testNode es = Some (k', h', t', es') \<longrightarrow>
        h' = h \<and> ring h' cs \<and> t' = next_of h testNode \<and>
        (\<exists>miss. Probe tm k (unlink h testNode) (next_of h testNode) candidate = Some (miss, k')
               \<and> es' = (if miss then es else set_insert testNode es))) \<and>
   (2 \<le> length cs \<longrightarrow> (\<exists>ys. ring (unlink h testNode) ys \<and> set ys = set cs - {testNode})) \<and>
   (\<forall>tm k candidate es k' h' es'.
      set es \<subseteq> set cs \<and> distinct es \<and> length es \<le> WAYS_PER_BANK \<and>
      isolate_slice tm k h candidate testNode es = Some (k', h', es') \<longrightarrow>
        h' = h \<and> set es' \<subseteq> set cs \<and> distinct es' \<and> length es' = WAYS_PER_BANK)"
proof (intro conjI allI impI)
  note l = ring_links [OF assms]
  {
    fix tm k candidate es k' h' t' es'
    assume a: "test_node tm k h candidate testNode es = Some (k', h', t', es')"
    from a [unfolded test_node_eq [OF l(2,1)]] obtain y where
      pr: "Probe tm k (unlink h testNode) (next_of h testNode) candidate = Some y"
      and x0: "(case y of (miss, k') \<Rightarrow>
                  Some (k', h, next_of h testNode, if \<not> miss then set_insert testNode es else es))
               = Some (k', h', t', es')"
      by (rule bind_SomeE)
    obtain miss k1 where y: "y = (miss, k1)" by (cases y)
    from x0 y have e: "k1 = k'" "h' = h" "t' = next_of h testNode"
      "es' = (if miss then es else set_insert testNode es)" by auto
    show "h' = h" by (rule e(2))
    show "ring h' cs" using assms(1) e(2) by simp
    show "t' = next_of h testNode" by (rule e(3))
    show "\<exists>miss. Probe tm k (unlink h testNode) (next_of h testNode) candidate = Some (miss, k')
               \<and> es' = (if miss then es else set_insert testNode es)"
      using pr y e(1,4) by blast
  }
  {
    assume "2 \<le> length cs"
    from unlink_member(1) [OF assms this]
    show "\<exists>ys. ring (unlink h testNode) ys \<and> set ys = set cs - {testNode}" by blast
  }
  {
    fix tm k candidate es k' h' es'
    assume a: "set es \<subseteq> set cs \<and> distinct es \<and> length es \<le> WAYS_PER_BANK \<and>
      isolate_slice tm k h candidate testNode es = Some (k', h', es')"
    then have "isolate_slice tm k h candidate testNode es = Some (k', h', es')" by simp
    from isolate_slice_returns [OF this, of cs] a assms
    have p: "h' = h \<and> set es' \<subseteq> set cs \<and> distinct es' \<and> length es' = WAYS_PER_BANK"
      by (simp add: isolate_post_def)
    show "h' = h" "set es' \<subseteq> set cs" "distinct es'" "length es' = WAYS_PER_BANK"
      using p by simp_all
  }
qed

theorem test_node_restores_witness:
  "(\<exists>k' es'. test_node drop_timer 0 (cycle_heap 3) 7 0 [] = Some (k', cycle_heap 3, 1, es')
      \<and> es' = [0]) \<and>
   (\<exists>k' es'. test_node drop_timer 5 (cycle_heap 3) 7 2 [0] = Some (k', cycle_heap 3, 0, es')
      \<and> es' = [0]) \<and>
   (\<exists>k' es'. isolate_slice hit_timer 0 (cycle_heap 40) 7 0 [] = Some (k', cycle_heap 40, es')
      \<and> length es' = WAYS_PER_BANK)"
proof -
  let ?h = "cycle_heap 3"
  have "[0..<3] = [0, 1, 2::nat]" by (simp add: upt_conv_Cons)
  then have r: "ring ?h [0, 1, 2]" using cycle_heap_ring [of 3] by simp
  have l0: "next_of ?h (prev_of ?h 0) = 0" "prev_of ?h (next_of ?h 0) = 0" "next_of ?h 0 = 1"
    and l1: "next_of ?h (prev_of ?h 2) = 2" "prev_of ?h (next_of ?h 2) = 2" "next_of ?h 2 = 0"
    by (simp_all add: cycle_heap_def)
  have p0: "Probe drop_timer 0 (unlink ?h 0) 1 7 = Some (False, 0 + 1)"
    by (rule Probe_hit) (simp_all add: drop_timer_def plausible_def LLC_CYCLE_THRESHOLD_def)
  have p1: "Probe drop_timer 5 (unlink ?h 2) 0 7 = Some (True, 5 + 1)"
    by (rule Probe_miss) (simp_all add: drop_timer_miss)
  have t0: "test_node drop_timer 0 ?h 7 0 [] = Some (1, ?h, 1, set_insert 0 [])"
    unfolding test_node_eq [OF l0(1,2)] using p0 by (simp add: l0(3))
  have t1: "test_node drop_timer 5 ?h 7 2 [0] = Some (6, ?h, 0, [0])"
    unfolding test_node_eq [OF l1(1,2)] using p1 by (simp add: l1(3))
  have m0: "(0::nat) \<in> set [0, 1, 2]" and m1: "(2::nat) \<in> set [0, 1, 2]" by simp_all
  note T0 = test_node_restores [OF r m0, THEN conjunct1, rule_format, OF t0]
  note T1 = test_node_restores [OF r m1, THEN conjunct1, rule_format, OF t1]
  have si: "set_insert 0 [] = [0]" by (simp add: set_insert_def)
  have c1: "\<exists>k' es'. test_node drop_timer 0 ?h 7 0 [] = Some (k', ?h, 1, es') \<and> es' = [0]"
    using t0 si T0 by simp
  have c2: "\<exists>k' es'. test_node drop_timer 5 ?h 7 2 [0] = Some (k', ?h, 0, es') \<and> es' = [0]"
    using t1 T1 by simp
  let ?g = "cycle_heap 40"
  have r40: "ring ?g [0..<40]" by (rule cycle_heap_ring) simp
  have hits: "\<forall>i<WAYS_PER_BANK. plausible (hit_timer (0 + i)) \<and> \<not> hit_timer (0 + i) > LLC_CYCLE_THRESHOLD"
    by (simp add: hit_timer_def plausible_def LLC_CYCLE_THRESHOLD_def)
  have "\<exists>es'. isolate_slice hit_timer 0 ?g 7 0 [] = Some (0 + WAYS_PER_BANK, ?g, es')
           \<and> set es' = set (take WAYS_PER_BANK [0..<40]) \<and> distinct es' \<and> length es' = WAYS_PER_BANK"
  proof (rule isolate_slice_run [OF r40 _ _ _ _ _ _ hits, where j = 0])
    show "WAYS_PER_BANK < length [0..<40]" by (simp add: WAYS_PER_BANK_def)
    show "0 + WAYS_PER_BANK = WAYS_PER_BANK" by simp
    show "set [] = set (take 0 [0..<40])" by simp
    show "length [] = 0" by simp
    show "distinct []" by simp
    show "(0::nat) = [0..<40] ! 0" by simp
  qed
  then obtain es' where
    run: "isolate_slice hit_timer 0 ?g 7 0 [] = Some (0 + WAYS_PER_BANK, ?g, es')" by blast
  have m40: "(0::nat) \<in> set [0..<40]" by simp
  have pre: "set [] \<subseteq> set [0..<40] \<and> distinct [] \<and> length [] \<le> WAYS_PER_BANK \<and>
      isolate_slice hit_timer 0 ?g 7 0 [] = Some (0 + WAYS_PER_BANK, ?g, es')"
    using run by simp
  note T2 = test_node_restores [OF r40 m40, THEN conjunct2, THEN conjunct2, rule_format, OF pre]
  have c3: "\<exists>k' es'. isolate_slice hit_timer 0 ?g 7 0 [] = Some (k', ?g, es')
      \<and> length es' = WAYS_PER_BANK"
    using run T2 by blast
  from c1 c2 c3 show ?thesis by (intro conjI)
qed

subsection \<open>Splicing the marked nodes out\<close>

lemma splice_rest_Cons:
  assumes "node \<noteq> esh"
  shows "splice_rest h esh csh (node # nodes) =
     splice_rest (insert_before (unlink h node) node esh) esh
       (if node = csh then next_of h csh else csh) nodes"
proof -
  let ?u = "unlink h node"
  let ?h2 = "set_next ?u node esh"
  let ?h3 = "set_prev ?h2 node (prev_of ?u esh)"
  let ?h4 = "set_prev ?h3 esh node"
  let ?h5 = "set_next ?h4 (prev_of ?u esh) node"
  have a: "prev_of ?h2 esh = prev_of ?u esh" by simp
  have b: "next_of ?h3 node = esh" by simp
  have c: "prev_of ?h4 node = prev_of ?u esh" using assms by simp
  have "set_next (set_prev (set_prev ?h2 node (prev_of ?h2 esh))
            (next_of (set_prev ?h2 node (prev_of ?h2 esh)) node) node)
          (prev_of (set_prev (set_prev ?h2 node (prev_of ?h2 esh))
            (next_of (set_prev ?h2 node (prev_of ?h2 esh)) node) node) node) node
        = insert_before ?u node esh"
    unfolding a b c insert_before_def ..
  then show ?thesis
    by (simp only: splice_rest.simps Let_def unlink_rev_eq)
qed

lemma splice_rest_rings:
  assumes "ring h (esh # rs)" "ring h cs" "set (esh # rs) \<inter> set cs = {}" "csh \<in> set cs"
    "set nodes \<subseteq> set cs" "distinct nodes" "length nodes < length cs"
  shows "\<exists>h' csh' cs'. splice_rest h esh csh nodes = (h', csh')
           \<and> ring h' (esh # rs @ nodes) \<and> ring h' cs' \<and> set cs' = set cs - set nodes
           \<and> length cs' + length nodes = length cs \<and> csh' \<in> set cs'
           \<and> same_outside (set (esh # rs) \<union> set cs) h h'"
  using assms
proof (induction nodes arbitrary: h csh rs cs)
  case Nil
  then show ?case by auto
next
  case (Cons node nodes)
  note er = Cons.prems(1) and cr = Cons.prems(2) and dj = Cons.prems(3) and ch = Cons.prems(4)
  have nin: "node \<in> set cs" using Cons.prems(5) by simp
  have len: "2 \<le> length cs" using Cons.prems(7) by simp
  have ne: "node \<noteq> esh" using nin dj by auto
  have nr: "node \<notin> set (esh # rs)" using nin dj by auto
  let ?u = "unlink h node"
  let ?h2 = "insert_before ?u node esh"
  let ?csh = "if node = csh then next_of h csh else csh"
  from unlink_member(1) [OF cr nin len] obtain cs1 where
    r1: "ring ?u cs1" and s1: "set cs1 = set cs - {node}" and l1: "Suc (length cs1) = length cs"
    by blast
  note so1 = unlink_member(2) [OF cr nin len]
  note nx = unlink_member(4) [OF cr nin len]
  have ch1: "?csh \<in> set cs1" using ch nx s1 by auto
  have eu: "ring ?u (esh # rs)"
    by (rule ring_frame [OF er so1]) (use dj in auto)
  note ib = insert_before_ring [OF eu nr]
  have e2: "ring ?h2 (esh # (rs @ [node]))" using ib(1) by simp
  have c2: "ring ?h2 cs1"
    by (rule ring_frame [OF r1 ib(2)]) (use s1 dj in auto)
  have dj2: "set (esh # (rs @ [node])) \<inter> set cs1 = {}" using dj s1 by auto
  have sub2: "set nodes \<subseteq> set cs1" using Cons.prems(5,6) s1 by auto
  have d2: "distinct nodes" using Cons.prems(6) by simp
  have l2: "length nodes < length cs1" using Cons.prems(7) l1 by simp
  from Cons.IH [OF e2 c2 dj2 ch1 sub2 d2 l2] obtain h' csh' cs' where
    res: "splice_rest ?h2 esh ?csh nodes = (h', csh')"
    and r: "ring h' (esh # (rs @ [node]) @ nodes)" "ring h' cs'" "set cs' = set cs1 - set nodes"
      "length cs' + length nodes = length cs1" "csh' \<in> set cs'"
    and so3: "same_outside (set (esh # (rs @ [node])) \<union> set cs1) ?h2 h'"
    by blast
  have eq: "splice_rest h esh csh (node # nodes) = (h', csh')"
    using splice_rest_Cons [OF ne] res by simp
  have "same_outside ((set cs - {node}) \<union> insert node (set (esh # rs))) h ?h2"
    using so1 ib(2) by (rule same_outside_trans)
  then have "same_outside (((set cs - {node}) \<union> insert node (set (esh # rs)))
                \<union> (set (esh # (rs @ [node])) \<union> set cs1)) h h'"
    using so3 by (rule same_outside_trans)
  then have so: "same_outside (set (esh # rs) \<union> set cs) h h'"
    by (rule same_outside_mono) (use s1 nin in auto)
  have "ring h' (esh # rs @ node # nodes)" using r(1) by simp
  moreover have "set cs' = set cs - set (node # nodes)" using r(3) s1 by auto
  moreover have "length cs' + length (node # nodes) = length cs" using r(4) l1 by simp
  ultimately show ?case using eq r(2,5) so by blast
qed

lemma splice_head_rings:
  assumes "ring h cs" "e \<in> set cs" "2 \<le> length cs" "csh \<in> set cs"
  shows "\<exists>h' csh' cs'. splice_head h e csh = (h', csh')
           \<and> ring h' [e] \<and> ring h' cs' \<and> set cs' = set cs - {e}
           \<and> Suc (length cs') = length cs \<and> csh' \<in> set cs' \<and> same_outside (set cs) h h'"
proof -
  let ?u = "unlink h e"
  let ?h' = "set_prev (set_next ?u e e) e e"
  let ?csh = "if e = csh then next_of h csh else csh"
  from unlink_member(1) [OF assms(1-3)] obtain cs1 where
    r1: "ring ?u cs1" and s1: "set cs1 = set cs - {e}" and l1: "Suc (length cs1) = length cs"
    by blast
  note so1 = unlink_member(2) [OF assms(1-3)]
  note nx = unlink_member(4) [OF assms(1-3)]
  have so2: "same_outside {e} ?u ?h'" by (simp add: same_outside_def)
  have c: "ring ?h' cs1"
    by (rule ring_frame [OF r1 so2]) (use s1 in auto)
  have e: "ring ?h' [e]" by (simp add: ring_single)
  have "same_outside ((set cs - {e}) \<union> {e}) h ?h'"
    using so1 so2 by (rule same_outside_trans)
  then have so: "same_outside (set cs) h ?h'"
    by (rule same_outside_mono) (use assms(2) in auto)
  have ch: "?csh \<in> set cs1" using assms(4) nx s1 by auto
  have "splice_head h e csh = (?h', ?csh)"
    by (simp add: splice_head_def Let_def unlink_rev_eq)
  with e c s1 l1 ch so show ?thesis by blast
qed

lemma splice_out_rings:
  assumes "ring h cs" "csh \<in> set cs" "es \<noteq> []" "distinct es" "set es \<subseteq> set cs"
    "length es < length cs"
  shows "\<exists>h' csh' cs'. splice_out h es csh = (h', csh')
           \<and> ring h' es \<and> ring h' cs' \<and> set cs' = set cs - set es
           \<and> length cs' + length es = length cs \<and> csh' \<in> set cs'
           \<and> same_outside (set cs) h h'"
proof -
  obtain e rest where es: "es = e # rest" using assms(3) by (cases es) auto
  have ein: "e \<in> set cs" using assms(5) es by simp
  have len: "2 \<le> length cs" using assms(6) es by simp
  from splice_head_rings [OF assms(1) ein len assms(2)] obtain h1 csh1 cs1 where
    sh: "splice_head h e csh = (h1, csh1)"
    and r1: "ring h1 [e]" "ring h1 cs1" "set cs1 = set cs - {e}" "Suc (length cs1) = length cs"
      "csh1 \<in> set cs1"
    and so1: "same_outside (set cs) h h1" by blast
  have dj: "set (e # []) \<inter> set cs1 = {}" using r1(3) by auto
  have sub: "set rest \<subseteq> set cs1" using assms(4,5) es r1(3) by auto
  have d: "distinct rest" using assms(4) es by simp
  have l: "length rest < length cs1" using assms(6) es r1(4) by simp
  from splice_rest_rings [OF r1(1) r1(2) dj r1(5) sub d l] obtain h' csh' cs' where
    sr: "splice_rest h1 e csh1 rest = (h', csh')"
    and r: "ring h' (e # [] @ rest)" "ring h' cs'" "set cs' = set cs1 - set rest"
      "length cs' + length rest = length cs1" "csh' \<in> set cs'"
    and so2: "same_outside (set (e # []) \<union> set cs1) h1 h'" by blast
  have eq: "splice_out h es csh = (h', csh')"
    using sh sr by (simp add: splice_out_def es)
  have "same_outside (set cs \<union> (set (e # []) \<union> set cs1)) h h'"
    using so1 so2 by (rule same_outside_trans)
  then have so: "same_outside (set cs) h h'"
    by (rule same_outside_mono) (use r1(3) ein in auto)
  have "ring h' es" using r(1) es by simp
  moreover have "set cs' = set cs - set es" using r(3) r1(3) es by auto
  moreover have "length cs' + length es = length cs" using r(4) r1(4) es by simp
  ultimately show ?thesis using eq r(2,5) so by blast
qed


subsection \<open>Partitioning the conflict set\<close>

lemma part_inv_weaken: "part_inv C m h rss csh c \<Longrightarrow> n \<le> m \<Longrightarrow> part_inv C n h rss csh c"
proof -
  assume inv: "part_inv C m h rss csh c" and nm: "n \<le> m"
  from inv obtain cs ds where
    *: "ring h cs" "csh \<in> set cs" "ring h ds" "c \<in> set ds" "m \<le> length ds" "set ds \<inter> C = {}"
      "\<forall>r\<in>set rss. ring h r \<and> length r = WAYS_PER_BANK" "distinct (concat rss)"
      "set (concat rss) \<inter> set cs = {}" "set cs \<union> set (concat rss) = C"
      "length cs + WAYS_PER_BANK * length rss = CONFLICT_SET_SIZE"
    unfolding part_inv_def by blast
  from *(5) nm have "n \<le> length ds" by simp
  with *(1-4,6-11) show ?thesis unfolding part_inv_def by blast
qed

lemma part_inv_length:
  assumes "part_inv C m h rss csh c"
  shows "length rss \<le> LLC_BANKS - 1"
proof -
  from assms obtain cs where r: "ring h cs"
    and l: "length cs + WAYS_PER_BANK * length rss = CONFLICT_SET_SIZE"
    unfolding part_inv_def by blast
  from r have "0 < length cs" by (cases cs) (simp_all add: ring_def)
  with l show ?thesis
    unfolding CONFLICT_SET_SIZE_def LLC_BANKS_def WAYS_PER_BANK_def by linarith
qed

lemma part_inv_after_witness:
  assumes inv: "part_inv C m h rss csh c"
    and lo: "\<And>ds. leftover_post ds k h c (Inr (k1, h1, c1))"
  shows "part_inv C 0 h1 rss csh c1" "k \<le> k1"
proof -
  from inv obtain cs ds where
    cs: "ring h cs" "csh \<in> set cs" and ds: "ring h ds" "c \<in> set ds" "set ds \<inter> C = {}"
    and rs: "\<forall>r\<in>set rss. ring h r \<and> length r = WAYS_PER_BANK"
    and rest: "distinct (concat rss)" "set (concat rss) \<inter> set cs = {}"
      "set cs \<union> set (concat rss) = C"
      "length cs + WAYS_PER_BANK * length rss = CONFLICT_SET_SIZE"
    unfolding part_inv_def by blast
  from lo [of ds] ds(1,2) obtain ds' where
    kk: "k \<le> k1" and so: "same_outside (set ds) h h1"
    and ds': "ring h1 ds'" "c1 \<in> set ds'" "set ds' \<subseteq> set ds"
    unfolding leftover_post_def by auto
  show "k \<le> k1" by (rule kk)
  have cs1: "ring h1 cs"
    by (rule ring_frame [OF cs(1) so]) (use ds(3) rest(3) in auto)
  have rs1: "\<forall>r\<in>set rss. ring h1 r \<and> length r = WAYS_PER_BANK"
  proof
    fix r assume r: "r \<in> set rss"
    then have "set r \<subseteq> C" using rest(3) by auto
    then have "set r \<inter> set ds = {}" using ds(3) by auto
    with rs r so show "ring h1 r \<and> length r = WAYS_PER_BANK"
      by (auto intro: ring_frame)
  qed
  have "set ds' \<inter> C = {}" using ds'(3) ds(3) by auto
  with cs1 cs(2) ds'(1,2) rs1 rest show "part_inv C 0 h1 rss csh c1"
    unfolding part_inv_def by blast
qed

lemma part_inv_round:
  assumes inv: "part_inv C m h rss csh c" and lt: "length rss < LLC_BANKS - 1"
    and iso: "isolate_slice tm k h c csh [] = Some (k2, h2, es)"
    and sp: "splice_out h2 es csh = (h3, csh3)"
  shows "h2 = h" "k \<le> k2" "length es = WAYS_PER_BANK"
    "2 \<le> m \<Longrightarrow> next_of h3 c \<noteq> c"
    "next_of h3 c \<noteq> c \<Longrightarrow>
       part_inv C (m - 1) (unlink h3 c) (rss @ [es]) csh3 (next_of (unlink h3 c) c)"
proof -
  from inv obtain cs ds where
    cs: "ring h cs" "csh \<in> set cs" and ds: "ring h ds" "c \<in> set ds" "set ds \<inter> C = {}"
    and m: "m \<le> length ds"
    and rs: "\<forall>r\<in>set rss. ring h r \<and> length r = WAYS_PER_BANK"
    and rest: "distinct (concat rss)" "set (concat rss) \<inter> set cs = {}"
      "set cs \<union> set (concat rss) = C"
      "length cs + WAYS_PER_BANK * length rss = CONFLICT_SET_SIZE"
    unfolding part_inv_def by blast
  from isolate_slice_returns [OF iso, of cs] cs have
    i: "k \<le> k2" "h2 = h" "set es \<subseteq> set cs" "distinct es" "length es = WAYS_PER_BANK"
    unfolding isolate_post_def by simp_all
  show "h2 = h" "k \<le> k2" "length es = WAYS_PER_BANK" by (rule i)+
  have ne: "es \<noteq> []" using i(5) by (auto simp: WAYS_PER_BANK_def)
  have len: "length es < length cs"
    using i(5) rest(4) lt by (simp add: CONFLICT_SET_SIZE_def LLC_BANKS_def WAYS_PER_BANK_def)
  from splice_out_rings [OF cs ne i(4,3) len] sp i(2) obtain cs' where
    es3: "ring h3 es" and cs3: "ring h3 cs'" "set cs' = set cs - set es"
      "length cs' + length es = length cs" "csh3 \<in> set cs'"
    and so: "same_outside (set cs) h h3" by auto
  have dc: "set ds \<inter> set cs = {}" using ds(3) rest(3) by auto
  have ds3: "ring h3 ds"
    by (rule ring_frame [OF ds(1) so]) (use dc in auto)
  have rs3: "\<forall>r\<in>set rss. ring h3 r \<and> length r = WAYS_PER_BANK"
  proof
    fix r assume r: "r \<in> set rss"
    then have "set r \<inter> set cs = {}" using rest(2) by auto
    with rs r so show "ring h3 r \<and> length r = WAYS_PER_BANK"
      by (auto intro: ring_frame)
  qed
  show "next_of h3 c \<noteq> c" if "2 \<le> m"
    using ring_next_neq [OF ds3 ds(2)] that m by simp
  show "part_inv C (m - 1) (unlink h3 c) (rss @ [es]) csh3 (next_of (unlink h3 c) c)"
    if nx: "next_of h3 c \<noteq> c"
  proof -
    let ?u = "unlink h3 c"
    have l2: "2 \<le> length ds" using ring_next_neq [OF ds3 ds(2)] nx by simp
    from unlink_member(1) [OF ds3 ds(2) l2] obtain ds2 where
      d2: "ring ?u ds2" "set ds2 = set ds - {c}" "Suc (length ds2) = length ds" by blast
    note so2 = unlink_member(2) [OF ds3 ds(2) l2]
    have nxt: "next_of ?u c \<in> set ds2"
      using unlink_member(3,4) [OF ds3 ds(2) l2] d2(2) by simp
    have csu: "ring ?u cs'"
      by (rule ring_frame [OF cs3(1) so2]) (use dc cs3(2) in auto)
    have esu: "ring ?u es"
      by (rule ring_frame [OF es3 so2]) (use dc i(3) in auto)
    have rsu: "\<forall>r\<in>set (rss @ [es]). ring ?u r \<and> length r = WAYS_PER_BANK"
    proof
      fix r assume r: "r \<in> set (rss @ [es])"
      show "ring ?u r \<and> length r = WAYS_PER_BANK"
      proof (cases "r = es")
        case True
        with esu i(5) show ?thesis by simp
      next
        case False
        with r have r': "r \<in> set rss" by simp
        then have "set r \<subseteq> C" using rest(3) by auto
        then have "set r \<inter> (set ds - {c}) = {}" using ds(3) by auto
        with rs3 r' so2 show ?thesis by (auto intro: ring_frame)
      qed
    qed
    have a: "m - 1 \<le> length ds2" using m d2(3) by simp
    have b: "set ds2 \<inter> C = {}" using d2(2) ds(3) by auto
    have c: "distinct (concat (rss @ [es]))" using rest(1,2) i(3,4) by auto
    have d: "set (concat (rss @ [es])) \<inter> set cs' = {}" using rest(2) cs3(2) by auto
    have e: "set cs' \<union> set (concat (rss @ [es])) = C" using rest(3) cs3(2) i(3) by auto
    have f: "length cs' + WAYS_PER_BANK * length (rss @ [es]) = CONFLICT_SET_SIZE"
      using rest(4) cs3(3) i(5) by simp
    from csu cs3(4) d2(1) nxt a b rsu c d e f show ?thesis
      unfolding part_inv_def by blast
  qed
qed

lemma partition_loop_unfold:
  "partition_loop tm k h evictionSetHeads candidate conflictSetHead =
     (if length evictionSetHeads < LLC_BANKS - 1 then
        do { r \<leftarrow> find_witness tm k h conflictSetHead candidate;
             case r of
               Inl e \<Rightarrow> Some (Inl e)
             | Inr (k, h, candidate) \<Rightarrow>
                 do { (k, h, evictionSet) \<leftarrow> isolate_slice tm k h candidate conflictSetHead [];
                      case splice_out h evictionSet conflictSetHead of
                        (h, conflictSetHead) \<Rightarrow>
                          if \<not> next_of h candidate \<noteq> candidate then Some (Inl CandidatesExhausted)
                          else
                            (let h = unlink h candidate;
                                 candidate = next_of h candidate
                             in partition_loop tm k h (evictionSetHeads @ [hd evictionSet])
                                  candidate conflictSetHead) } }
      else Some (Inr (k, h, evictionSetHeads, conflictSetHead)))"
  by (subst partition_loop.simps) (rule refl)

lemma partition_loop_returns:
  assumes "partition_loop tm k h heads c csh = Some r"
  shows "partition_post C tm k h heads c csh r"
proof (rule partition_loop.raw_induct [where P = "partition_post C", OF _ assms])
  fix f tm k h heads c csh r
  assume ih: "\<And>tm k h heads c csh r. f tm k h heads c csh = Some r
                \<Longrightarrow> partition_post C tm k h heads c csh r"
    and eq: "(if length heads < LLC_BANKS - 1 then
        do { r \<leftarrow> find_witness tm k h csh c;
             case r of
               Inl e \<Rightarrow> Some (Inl e)
             | Inr (k, h, candidate) \<Rightarrow>
                 do { (k, h, evictionSet) \<leftarrow> isolate_slice tm k h candidate csh [];
                      case splice_out h evictionSet csh of
                        (h, conflictSetHead) \<Rightarrow>
                          if \<not> next_of h candidate \<noteq> candidate then Some (Inl CandidatesExhausted)
                          else
                            (let h = unlink h candidate;
                                 candidate = next_of h candidate
                             in f tm k h (heads @ [hd evictionSet])
                                  candidate conflictSetHead) } }
      else Some (Inr (k, h, heads, csh))) = Some r"
  show "partition_post C tm k h heads c csh r"
    unfolding partition_post_def
  proof (intro allI impI)
    fix rss
    assume pre: "part_inv C 0 h rss csh c \<and> heads = map hd rss"
    then have inv: "part_inv C 0 h rss csh c" and hd: "heads = map hd rss" by simp_all
    let ?goal = "case r of
           Inl e \<Rightarrow> e = CandidatesExhausted
         | Inr (k', h', heads', csh') \<Rightarrow>
             k \<le> k' \<and>
             (\<exists>more candidate'. part_inv C 0 h' (rss @ more) csh' candidate'
                \<and> heads' = map hd (rss @ more)
                \<and> length (rss @ more) = LLC_BANKS - 1)"
    show ?goal
    proof (cases "length heads < LLC_BANKS - 1")
      case False
      with eq have r: "r = Inr (k, h, heads, csh)" by simp
      have "length rss = LLC_BANKS - 1"
        using part_inv_length [OF inv] False hd by simp
      with inv hd have "part_inv C 0 h (rss @ []) csh c \<and> heads = map hd (rss @ [])
                \<and> length (rss @ []) = LLC_BANKS - 1" by simp
      then show ?thesis unfolding r by (simp del: append_Nil2) blast
    next
      case lt: True
      with eq obtain w where fw: "find_witness tm k h csh c = Some w"
        and c1: "(case w of
               Inl e \<Rightarrow> Some (Inl e)
             | Inr (k, h, candidate) \<Rightarrow>
                 do { (k, h, evictionSet) \<leftarrow> isolate_slice tm k h candidate csh [];
                      case splice_out h evictionSet csh of
                        (h, conflictSetHead) \<Rightarrow>
                          if \<not> next_of h candidate \<noteq> candidate then Some (Inl CandidatesExhausted)
                          else
                            (let h = unlink h candidate;
                                 candidate = next_of h candidate
                             in f tm k h (heads @ [hd evictionSet])
                                  candidate conflictSetHead) }) = Some r"
        by (simp only: if_True) (erule bind_SomeE)
      from find_witness_returns [OF fw] have lo: "\<And>ds. leftover_post ds k h c w"
        unfolding find_witness_post_def by simp
      from inv obtain ds where ds: "ring h ds" "c \<in> set ds"
        unfolding part_inv_def by blast
      show ?thesis
      proof (cases w)
        case (Inl e)
        with c1 have r: "r = Inl e" by simp
        from lo [of ds] ds Inl have "e = CandidatesExhausted"
          unfolding leftover_post_def by simp
        with r show ?thesis by simp
      next
        case (Inr t)
        obtain k1 h1 c1' where t: "t = (k1, h1, c1')" by (cases t)
        note w = Inr [unfolded t]
        note aw = part_inv_after_witness [OF inv lo [unfolded w]]
        from c1 [unfolded w] obtain x where
          iso0: "isolate_slice tm k1 h1 c1' csh [] = Some x"
          and c2: "(case x of (k, h, evictionSet) \<Rightarrow>
                      case splice_out h evictionSet csh of
                        (h, conflictSetHead) \<Rightarrow>
                          if \<not> next_of h c1' \<noteq> c1' then Some (Inl CandidatesExhausted)
                          else
                            (let h = unlink h c1';
                                 candidate = next_of h c1'
                             in f tm k h (heads @ [hd evictionSet])
                                  candidate conflictSetHead)) = Some r"
          by simp (erule bind_SomeE)
        obtain k2 h2 es where x: "x = (k2, h2, es)" by (cases x)
        obtain h3 csh3 where sp: "splice_out h2 es csh = (h3, csh3)" by (cases "splice_out h2 es csh")
        note iso = iso0 [unfolded x]
        have lt': "length rss < LLC_BANKS - 1" using lt hd by simp
        note rd = part_inv_round [OF aw(1) lt' iso sp]
        show ?thesis
        proof (cases "next_of h3 c1' \<noteq> c1'")
          case False
          with c2 x sp have "r = Inl CandidatesExhausted" by simp
          then show ?thesis by simp
        next
          case True
          with c2 x sp have rec: "f tm k2 (unlink h3 c1') (heads @ [hd es])
              (next_of (unlink h3 c1') c1') csh3 = Some r" by (simp add: Let_def)
          have inv': "part_inv C 0 (unlink h3 c1') (rss @ [es]) csh3 (next_of (unlink h3 c1') c1')"
            using rd(5) [OF True] by simp
          have hd': "heads @ [hd es] = map hd (rss @ [es])" using hd by simp
          from ih [OF rec, unfolded partition_post_def] inv' hd'
          have post: "case r of
             Inl e \<Rightarrow> e = CandidatesExhausted
           | Inr (k', h', heads', csh') \<Rightarrow>
             k2 \<le> k' \<and>
             (\<exists>more candidate'. part_inv C 0 h' ((rss @ [es]) @ more) csh' candidate'
                \<and> heads' = map hd ((rss @ [es]) @ more)
                \<and> length ((rss @ [es]) @ more) = LLC_BANKS - 1)" by blast
          have kk: "k \<le> k2" using aw(2) rd(2) by simp
          show ?thesis
          proof (cases r)
            case (Inl e)
            with post show ?thesis by simp
          next
            case (Inr y)
            obtain k' h' heads' csh' where y: "y = (k', h', heads', csh')" by (cases y)
            from post [unfolded Inr y] obtain more cand' where
              p: "k2 \<le> k'" "part_inv C 0 h' ((rss @ [es]) @ more) csh' cand'"
                "heads' = map hd ((rss @ [es]) @ more)"
                "length ((rss @ [es]) @ more) = LLC_BANKS - 1" by auto
            have "part_inv C 0 h' (rss @ (es # more)) csh' cand'
                \<and> heads' = map hd (rss @ (es # more))
                \<and> length (rss @ (es # more)) = LLC_BANKS - 1" using p(2-4) by simp
            then have "\<exists>more candidate'. part_inv C 0 h' (rss @ more) csh' candidate'
                \<and> heads' = map hd (rss @ more)
                \<and> length (rss @ more) = LLC_BANKS - 1" by blast
            with p(1) kk show ?thesis unfolding Inr y by simp
          qed
        qed
      qed
    qed
  qed
qed


lemma walk_take: "n \<le> m \<Longrightarrow> take n (walk h p m) = walk h p n"
proof (induction n arbitrary: p m)
  case 0
  then show ?case by simp
next
  case (Suc n)
  then obtain m' where "m = Suc m'" by (cases m) simp_all
  with Suc show ?case by simp
qed

lemma part_isolate_run:
  assumes inv: "part_inv C m h rss csh c" and lt: "length rss < LLC_BANKS - 1"
    and hits: "\<forall>i<WAYS_PER_BANK. plausible (tm (k + i)) \<and> \<not> tm (k + i) > LLC_CYCLE_THRESHOLD"
  shows "\<exists>es. isolate_slice tm k h c csh [] = Some (k + WAYS_PER_BANK, h, es)
           \<and> set es = set (walk h csh WAYS_PER_BANK)"
proof -
  from inv obtain cs where cs: "ring h cs" "csh \<in> set cs"
    and l: "length cs + WAYS_PER_BANK * length rss = CONFLICT_SET_SIZE"
    unfolding part_inv_def by blast
  from ring_to_front [OF cs] obtain ys where
    r: "ring h (csh # ys)" and n: "length (csh # ys) = length cs" by blast
  have len: "WAYS_PER_BANK < length (csh # ys)"
    using n l lt by (simp add: CONFLICT_SET_SIZE_def LLC_BANKS_def WAYS_PER_BANK_def)
  have "\<exists>es'. isolate_slice tm k h c csh [] = Some (k + WAYS_PER_BANK, h, es')
           \<and> set es' = set (take WAYS_PER_BANK (csh # ys)) \<and> distinct es'
           \<and> length es' = WAYS_PER_BANK"
    by (rule isolate_slice_run [OF r len, where j = 0 and n = WAYS_PER_BANK and es = "[]"])
      (use hits in simp_all)
  moreover have "take WAYS_PER_BANK (csh # ys) = walk h csh WAYS_PER_BANK"
    using walk_take [of WAYS_PER_BANK "Suc (length ys)" h csh] walk_ring [OF r] len by simp
  ultimately show ?thesis by auto
qed

lemma partition_loop_run:
  assumes "part_inv C m h rss csh c" "heads = map hd rss" "length rss + n = LLC_BANKS - 1" "n < m"
    "\<forall>i<n. (\<forall>j<101. plausible (tm (k + 121 * i + j)) \<and> tm (k + 121 * i + j) > LLC_CYCLE_THRESHOLD)
          \<and> (\<forall>j<WAYS_PER_BANK. plausible (tm (k + 121 * i + 101 + j))
                \<and> \<not> tm (k + 121 * i + 101 + j) > LLC_CYCLE_THRESHOLD)"
  shows "\<exists>h' more csh' c'. partition_loop tm k h heads c csh
             = Some (Inr (k + 121 * n, h', map hd (rss @ more), csh'))
           \<and> part_inv C (m - n) h' (rss @ more) csh' c' \<and> length (rss @ more) = LLC_BANKS - 1"
  using assms
proof (induction n arbitrary: k h rss heads c csh m)
  case 0
  then have "partition_loop tm k h heads c csh
      = Some (Inr (k + 121 * 0, h, map hd (rss @ []), csh))"
    by (subst partition_loop_unfold) simp
  moreover have "part_inv C (m - 0) h (rss @ []) csh c" using 0(1) by simp
  moreover have "length (rss @ []) = LLC_BANKS - 1" using 0(3) by simp
  ultimately show ?case by blast
next
  case (Suc n)
  note inv = Suc.prems(1) and hd = Suc.prems(2)
  have lt: "length rss < LLC_BANKS - 1" using Suc.prems(3) by simp
  have first: "(\<forall>j<101. plausible (tm (k + j)) \<and> tm (k + j) > LLC_CYCLE_THRESHOLD)
          \<and> (\<forall>j<WAYS_PER_BANK. plausible (tm (k + 101 + j))
                \<and> \<not> tm (k + 101 + j) > LLC_CYCLE_THRESHOLD)"
    using Suc.prems(5) [rule_format, of 0] by simp
  then have miss: "\<forall>j<101. plausible (tm (k + j)) \<and> tm (k + j) > LLC_CYCLE_THRESHOLD"
    and hits: "\<forall>j<WAYS_PER_BANK. plausible (tm (k + 101 + j))
                \<and> \<not> tm (k + 101 + j) > LLC_CYCLE_THRESHOLD" by simp_all
  note fw = find_witness_run [OF miss, of h csh c]
  from part_isolate_run [OF inv lt hits] obtain es where
    iso: "isolate_slice tm (k + 101) h c csh [] = Some (k + 101 + WAYS_PER_BANK, h, es)" by blast
  obtain h3 csh3 where sp: "splice_out h es csh = (h3, csh3)" by (cases "splice_out h es csh")
  note rd = part_inv_round [OF inv lt iso sp]
  have m2: "2 \<le> m" using Suc.prems(4) by simp
  note nx = rd(4) [OF m2]
  note inv' = rd(5) [OF nx]
  let ?u = "unlink h3 c"
  have step: "partition_loop tm k h heads c csh
      = partition_loop tm (k + 121) ?u (heads @ [hd es]) (next_of ?u c) csh3"
    using lt hd fw iso sp nx
    by (subst partition_loop_unfold) (simp add: Let_def WAYS_PER_BANK_def add.commute)
  have hd': "heads @ [hd es] = map hd (rss @ [es])" using hd by simp
  have l': "length (rss @ [es]) + n = LLC_BANKS - 1" using Suc.prems(3) by simp
  have nm: "n < m - 1" using Suc.prems(4) by simp
  have pat: "\<forall>i<n. (\<forall>j<101. plausible (tm (k + 121 + 121 * i + j))
                \<and> tm (k + 121 + 121 * i + j) > LLC_CYCLE_THRESHOLD)
          \<and> (\<forall>j<WAYS_PER_BANK. plausible (tm (k + 121 + 121 * i + 101 + j))
                \<and> \<not> tm (k + 121 + 121 * i + 101 + j) > LLC_CYCLE_THRESHOLD)"
  proof (intro allI impI)
    fix i assume "i < n"
    then have "Suc i < Suc n" by simp
    from Suc.prems(5) [rule_format, OF this]
    show "(\<forall>j<101. plausible (tm (k + 121 + 121 * i + j))
                \<and> tm (k + 121 + 121 * i + j) > LLC_CYCLE_THRESHOLD)
          \<and> (\<forall>j<WAYS_PER_BANK. plausible (tm (k + 121 + 121 * i + 101 + j))
                \<and> \<not> tm (k + 121 + 121 * i + 101 + j) > LLC_CYCLE_THRESHOLD)"
      by (simp add: add.assoc add.left_commute)
  qed
  from Suc.IH [OF inv' hd' l' nm pat] obtain h' more csh' c' where
    res: "partition_loop tm (k + 121) ?u (heads @ [hd es]) (next_of ?u c) csh3
             = Some (Inr (k + 121 + 121 * n, h', map hd ((rss @ [es]) @ more), csh'))"
    and inv'': "part_inv C (m - 1 - n) h' ((rss @ [es]) @ more) csh' c'"
    and len: "length ((rss @ [es]) @ more) = LLC_BANKS - 1" by blast
  have "partition_loop tm k h heads c csh
             = Some (Inr (k + 121 * Suc n, h', map hd (rss @ (es # more)), csh'))"
    using step res by simp
  moreover have "part_inv C (m - Suc n) h' (rss @ (es # more)) csh' c'" using inv'' by simp
  moreover have "length (rss @ (es # more)) = LLC_BANKS - 1" using len by simp
  ultimately show ?case by blast
qed

lemma part_inv_final:
  assumes "part_inv C m h rss csh c" "length rss = LLC_BANKS - 1"
  shows "\<exists>r. eviction_rings C h (rss @ [r]) \<and> hd r = csh"
proof -
  from assms(1) obtain cs where
    cs: "ring h cs" "csh \<in> set cs"
    and rs: "\<forall>r\<in>set rss. ring h r \<and> length r = WAYS_PER_BANK"
    and rest: "distinct (concat rss)" "set (concat rss) \<inter> set cs = {}"
      "set cs \<union> set (concat rss) = C"
      "length cs + WAYS_PER_BANK * length rss = CONFLICT_SET_SIZE"
    unfolding part_inv_def by blast
  from ring_to_front [OF cs] obtain ys where
    r: "ring h (csh # ys)" and s: "set (csh # ys) = set cs"
    and n: "length (csh # ys) = length cs" by blast
  have l: "length (csh # ys) = WAYS_PER_BANK"
    using n rest(4) assms(2) by (simp add: CONFLICT_SET_SIZE_def LLC_BANKS_def WAYS_PER_BANK_def)
  have d: "distinct (csh # ys)" using r by (simp add: ring_def)
  have "length (rss @ [csh # ys]) = LLC_BANKS" using assms(2) by (simp add: LLC_BANKS_def)
  moreover have "\<forall>r\<in>set (rss @ [csh # ys]). ring h r \<and> length r = WAYS_PER_BANK"
    using rs r l by auto
  moreover have "distinct (concat (rss @ [csh # ys]))"
    using rest(1,2) d s by auto
  moreover have "set (concat (rss @ [csh # ys])) = C" using rest(3) s by auto
  ultimately have "eviction_rings C h (rss @ [csh # ys])" unfolding eviction_rings_def by blast
  then show ?thesis by force
qed

lemma PartitionConflictSet_returns:
  assumes inv: "part_inv C m h [] csh cdh"
    and ret: "PartitionConflictSet tm k h csh cdh = Some (Inr (k', h', heads))"
  shows "\<exists>rss. eviction_rings C h' rss \<and> heads = map hd rss" "k \<le> k'"
proof -
  from ret obtain w where pl: "partition_loop tm k h [] cdh csh = Some w"
    and c1: "(case w of Inl e \<Rightarrow> Some (Inl e)
              | Inr (k, h, evictionSetHeads, conflictSetHead) \<Rightarrow>
                  Some (Inr (k, h, evictionSetHeads @ [conflictSetHead])))
             = Some (Inr (k', h', heads))"
    unfolding PartitionConflictSet_def bindr_def
    by (cases "partition_loop tm k h [] cdh csh") (simp_all split: sum.splits)
  from c1 obtain hs csh' where w: "w = Inr (k', h', hs, csh')" and hs: "heads = hs @ [csh']"
    by (cases w) auto
  have inv0: "part_inv C 0 h [] csh cdh" using inv by (rule part_inv_weaken) simp
  from partition_loop_returns [OF pl, of C, unfolded partition_post_def w] inv0
  obtain more c' where kk: "k \<le> k'" and p: "part_inv C 0 h' more csh' c'" "hs = map hd more"
    "length more = LLC_BANKS - 1" by auto
  show "k \<le> k'" by (rule kk)
  from part_inv_final [OF p(1,3)] obtain r where "eviction_rings C h' (more @ [r])" "hd r = csh'"
    by blast
  moreover from this(2) hs p(2) have "heads = map hd (more @ [r])" by simp
  ultimately show "\<exists>rss. eviction_rings C h' rss \<and> heads = map hd rss" by blast
qed

lemma PartitionConflictSet_run:
  assumes inv: "part_inv C m h [] csh cdh" and m: "LLC_BANKS - 1 < m"
    and pat: "\<forall>i<LLC_BANKS - 1.
          (\<forall>j<101. plausible (tm (k + 121 * i + j)) \<and> tm (k + 121 * i + j) > LLC_CYCLE_THRESHOLD)
          \<and> (\<forall>j<WAYS_PER_BANK. plausible (tm (k + 121 * i + 101 + j))
                \<and> \<not> tm (k + 121 * i + 101 + j) > LLC_CYCLE_THRESHOLD)"
  shows "\<exists>h' rss. PartitionConflictSet tm k h csh cdh
             = Some (Inr (k + 121 * (LLC_BANKS - 1), h', map hd rss))
           \<and> eviction_rings C h' rss"
proof -
  from partition_loop_run [OF inv _ _ m pat, of "[]"] obtain h' more csh' c' where
    pl: "partition_loop tm k h [] cdh csh
             = Some (Inr (k + 121 * (LLC_BANKS - 1), h', map hd more, csh'))"
    and p: "part_inv C (m - (LLC_BANKS - 1)) h' more csh' c'" "length more = LLC_BANKS - 1"
    by auto
  from part_inv_final [OF p] obtain r where r: "eviction_rings C h' (more @ [r])" "hd r = csh'"
    by blast
  have "PartitionConflictSet tm k h csh cdh
             = Some (Inr (k + 121 * (LLC_BANKS - 1), h', map hd (more @ [r])))"
    unfolding PartitionConflictSet_def bindr_def using pl r(2) by simp
  with r(1) show ?thesis by blast
qed

lemma part_inv_start:
  assumes "grow_inv U h csh CONFLICT_SET_SIZE c cdh"
  shows "part_inv (set (walk h csh CONFLICT_SET_SIZE)) (card U - CONFLICT_SET_SIZE) h [] csh cdh"
proof -
  from assms obtain cs ds where
    *: "ring h cs" "ring h ds" "set cs \<inter> set ds = {}" "set cs \<union> set ds = U" "hd cs = csh"
       "length cs = CONFLICT_SET_SIZE" "cdh \<in> set ds"
    unfolding grow_inv_def by blast
  have "cs \<noteq> []" using *(1) by (simp add: ring_def)
  then have a: "csh \<in> set cs" using *(5) by auto
  have w: "set (walk h csh CONFLICT_SET_SIZE) = set cs"
    using ring_at_member(2) [OF *(1) a] *(6) by simp
  have "card U = length cs + length ds" using two_rings_card [OF *(1,2,3)] *(4) by simp
  then have l: "card U - CONFLICT_SET_SIZE \<le> length ds" using *(6) by simp
  from *(1) a *(2,7) l *(3,6) show ?thesis
    unfolding part_inv_def w by (auto simp: Int_commute)
qed


subsection \<open>The final sanity check on rings\<close>

lemma bindr_InrE:
  assumes "bindr m f = Some (Inr y)"
  obtains x where "m = Some (Inr x)" "f x = Some (Inr y)"
  using assms unfolding bindr_def by (auto split: option.splits sum.splits)

lemma collect_ring_path:
  "path h (node # zs) \<Longrightarrow> head \<notin> set (node # zs) \<Longrightarrow> next_of h (last (node # zs)) = head \<Longrightarrow>
     collect_ring h head node allNodes sz
       = Some (fold set_insert (node # zs) allNodes, sz + Suc (length zs))"
proof (induction zs arbitrary: node sz allNodes)
  case Nil
  then show ?case
    by (subst collect_ring.simps, subst collect_ring.simps) simp
next
  case (Cons z zs)
  then have "next_of h node = z" "path h (z # zs)" "head \<notin> set (z # zs)"
    "next_of h (last (z # zs)) = head" "node \<noteq> head"
    by (auto simp: linked_def)
  with Cons.IH [of z "set_insert node allNodes" "sz + 1"] show ?case
    by (subst collect_ring.simps) simp
qed

lemma collect_ring_ring:
  assumes "ring h (p # ys)"
  shows "collect_ring h p (next_of h p) (set_insert p allNodes) 1
           = Some (fold set_insert (p # ys) allNodes, Suc (length ys))"
proof (cases ys)
  case Nil
  with assms show ?thesis
    by (subst collect_ring.simps) (simp add: ring_single)
next
  case (Cons y zs)
  note l = ring_head_links [OF assms]
  have n: "next_of h p = y" using l(1) Cons by simp
  have "collect_ring h p y (set_insert p allNodes) 1
          = Some (fold set_insert (y # zs) (set_insert p allNodes), 1 + Suc (length zs))"
  proof (rule collect_ring_path)
    show "path h (y # zs)" using assms Cons by (simp add: ring_def)
    show "p \<notin> set (y # zs)" using assms Cons by (simp add: ring_def)
    show "next_of h (last (y # zs)) = p" using assms Cons by (simp add: ring_def linked_def)
  qed
  then show ?thesis by (simp add: n Cons)
qed

lemma check_sizes_rings:
  assumes "\<forall>r\<in>set rss. ring h r \<and> length r = WAYS_PER_BANK"
  shows "check_sizes h (map hd rss) allNodes = Some (Inr (fold set_insert (concat rss) allNodes))"
  using assms
proof (induction rss arbitrary: allNodes)
  case Nil
  then show ?case by simp
next
  case (Cons r rss)
  then have r: "ring h r" and l: "length r = WAYS_PER_BANK" by simp_all
  from r obtain p ys where pys: "r = p # ys" by (cases r) (simp_all add: ring_def)
  note c = collect_ring_ring [OF r [unfolded pys], of allNodes]
  have "check_sizes h (map hd (r # rss)) allNodes
          = check_sizes h (map hd rss) (fold set_insert r allNodes)"
    using c l by (simp add: pys)
  also have "\<dots> = Some (Inr (fold set_insert (concat rss) (fold set_insert r allNodes)))"
    using Cons.prems by (intro Cons.IH) simp
  finally show ?case by simp
qed

lemma set_fold_set_insert: "set (fold set_insert xs ys) = set xs \<union> set ys"
  by (induction xs arbitrary: ys) auto

lemma distinct_fold_set_insert: "distinct ys \<Longrightarrow> distinct (fold set_insert xs ys)"
  by (induction xs arbitrary: ys) (simp_all add: distinct_set_insert)

lemma length_fold_set_insert:
  assumes "distinct xs"
  shows "length (fold set_insert xs []) = length xs"
proof -
  have "distinct (fold set_insert xs [])" by (rule distinct_fold_set_insert) simp
  then have "length (fold set_insert xs []) = card (set (fold set_insert xs []))"
    by (simp add: distinct_card)
  also have "\<dots> = card (set xs)" by (simp add: set_fold_set_insert)
  also have "\<dots> = length xs" using assms by (simp add: distinct_card)
  finally show ?thesis .
qed

lemma check_times_run:
  assumes "\<forall>j<length heads. 25 < tm (k + j) div 2400000 \<and> tm (k + j) div 2400000 < 55"
  shows "check_times tm k heads = Inr (k + length heads)"
  using assms
proof (induction heads arbitrary: k)
  case Nil
  then show ?case by simp
next
  case (Cons p heads)
  from Cons.prems [rule_format, of 0]
  have a: "25 < tm k div 2400000 \<and> tm k div 2400000 < 55" by simp
  have "\<forall>j<length heads. 25 < tm (k + 1 + j) div 2400000 \<and> tm (k + 1 + j) div 2400000 < 55"
  proof (intro allI impI)
    fix j assume "j < length heads"
    then have "Suc j < length (p # heads)" by simp
    from Cons.prems [rule_format, OF this]
    show "25 < tm (k + 1 + j) div 2400000 \<and> tm (k + 1 + j) div 2400000 < 55" by simp
  qed
  from Cons.IH [OF this] a show ?case
    by (simp add: Let_def LLC_BANKS_def WAYS_PER_BANK_def)
qed

lemma length_concat_rings:
  assumes "\<forall>r\<in>set rss. length r = n"
  shows "length (concat rss) = n * length rss"
  using assms by (induction rss) simp_all

lemma SanityCheckEvictionSets_run:
  assumes "eviction_rings C h rss"
    and "\<forall>j<LLC_BANKS. 25 < tm (k + j) div 2400000 \<and> tm (k + j) div 2400000 < 55"
  shows "SanityCheckEvictionSets tm k h (map hd rss) = Some (Inr (k + LLC_BANKS))"
proof -
  from assms(1) have len: "length rss = LLC_BANKS"
    and rs: "\<forall>r\<in>set rss. ring h r \<and> length r = WAYS_PER_BANK"
    and d: "distinct (concat rss)"
    unfolding eviction_rings_def by simp_all
  have "length (concat rss) = WAYS_PER_BANK * length rss"
    using rs by (intro length_concat_rings) simp
  then have l: "length (fold set_insert (concat rss) []) = CONFLICT_SET_SIZE"
    using length_fold_set_insert [OF d] len by (simp add: CONFLICT_SET_SIZE_def mult.commute)
  have t: "check_times tm k (map hd rss) = Inr (k + length (map hd rss))"
    by (rule check_times_run) (use assms(2) len in simp)
  show ?thesis
    unfolding SanityCheckEvictionSets_def bindr_def check_sizes_rings [OF rs]
    using l t len by simp
qed

subsection \<open>The rings that \<^verbatim>\<open>GetEvictionSet\<close> returns\<close>

lemma FindCandidates_aligned:
  assumes "FindCandidates array setIndex = Inr candidates"
  shows "array AND CACHE_LINE_BITS = 0"
proof (rule ccontr)
  assume "array AND CACHE_LINE_BITS \<noteq> 0"
  then have "FindCandidates array setIndex = Inl NodeMisaligned"
    unfolding FindCandidates_def
    by (subst FindCandidates_loop.simps)
       (simp add: node_address_def ARRAY_ENTRIES_def ARRAY_SIZE_def CACHE_LINE_SIZE_def)
  with assms show False by simp
qed

lemma FindCandidates_distinct:
  assumes "FindCandidates array setIndex = Inr candidates" "setIndex < SETS_PER_BANK"
  shows "distinct candidates"
proof -
  note al = FindCandidates_aligned [OF assms(1)]
  from FindCandidates_loop_filter [OF al assms(2), of 0 "[]"] assms(1)
  have "candidates = filter (\<lambda>j. maps_to_set (node_address array j) setIndex) [0..<ARRAY_ENTRIES]"
    by (simp add: FindCandidates_def)
  then show ?thesis by simp
qed

lemma eviction_rings_walk:
  assumes "eviction_rings C h rss" "r \<in> set rss"
  shows "walk h (hd r) WAYS_PER_BANK = r"
proof -
  from assms have r: "ring h r" and l: "length r = WAYS_PER_BANK"
    unfolding eviction_rings_def by simp_all
  from r obtain p ys where pys: "r = p # ys" by (cases r) (simp_all add: ring_def)
  have "walk h p (Suc (length ys)) = p # ys" by (rule walk_ring [OF r [unfolded pys]])
  with l show ?thesis unfolding pys by (metis length_Cons list.sel(1))
qed

lemma eviction_rings_heads:
  assumes "eviction_rings C h rss"
  shows "length (map hd rss) = LLC_BANKS"
    "\<forall>p\<in>set (map hd rss). ring_at h p WAYS_PER_BANK"
    "\<forall>i<LLC_BANKS. \<forall>j<LLC_BANKS. i \<noteq> j \<longrightarrow>
        set (walk h (map hd rss ! i) WAYS_PER_BANK) \<inter> set (walk h (map hd rss ! j) WAYS_PER_BANK) = {}"
    "(\<Union>p\<in>set (map hd rss). set (walk h p WAYS_PER_BANK)) = C"
proof -
  from assms have len: "length rss = LLC_BANKS"
    and rs: "\<forall>r\<in>set rss. ring h r \<and> length r = WAYS_PER_BANK"
    and d: "distinct (concat rss)" and u: "set (concat rss) = C"
    unfolding eviction_rings_def by simp_all
  note w = eviction_rings_walk [OF assms]
  show "length (map hd rss) = LLC_BANKS" using len by simp
  show "\<forall>p\<in>set (map hd rss). ring_at h p WAYS_PER_BANK"
    using rs w by (auto simp: ring_at_def)
  have ne: "[] \<notin> set rss" using rs by (auto simp: ring_def)
  then have ra: "removeAll [] rss = rss" by simp
  from d have drss: "distinct rss"
    and dj: "\<And>ys zs. ys \<in> set rss \<Longrightarrow> zs \<in> set rss \<Longrightarrow> ys \<noteq> zs \<Longrightarrow> set ys \<inter> set zs = {}"
    unfolding distinct_concat_iff ra by blast+
  show "\<forall>i<LLC_BANKS. \<forall>j<LLC_BANKS. i \<noteq> j \<longrightarrow>
        set (walk h (map hd rss ! i) WAYS_PER_BANK) \<inter> set (walk h (map hd rss ! j) WAYS_PER_BANK) = {}"
  proof (intro allI impI)
    fix i j assume ij: "i < LLC_BANKS" "j < LLC_BANKS" "i \<noteq> j"
    then have m: "rss ! i \<in> set rss" "rss ! j \<in> set rss" using len by simp_all
    have "rss ! i \<noteq> rss ! j" using drss ij len by (simp add: nth_eq_iff_index_eq)
    from dj [OF m this] show
      "set (walk h (map hd rss ! i) WAYS_PER_BANK) \<inter> set (walk h (map hd rss ! j) WAYS_PER_BANK) = {}"
      using ij len w [OF m(1)] w [OF m(2)] by simp
  qed
  have "(\<Union>p\<in>set (map hd rss). set (walk h p WAYS_PER_BANK)) = (\<Union>r\<in>set rss. set r)"
    using w by simp
  also have "\<dots> = C" using u by simp
  finally show "(\<Union>p\<in>set (map hd rss). set (walk h p WAYS_PER_BANK)) = C" .
qed

lemma GetEvictionSet_from_returns:
  assumes "GetEvictionSet_from candidates base shuffle tm h0 = Some (Inr (heads, arr, h, k))"
  obtains k0 k1 h1 csh cdh k2 where
    "2 * LLC_BANKS * WAYS_PER_BANK \<le> length candidates"
    "SanityCheckCandidates tm 0 = Inr k0"
    "BuildConflictSet tm k0 (RandomizeLinkedList h0 candidates shuffle) candidates
       = Some (Inr (k1, h1, csh, cdh))"
    "PartitionConflictSet tm k1 h1 csh cdh = Some (Inr (k2, h, heads))"
    "SanityCheckEvictionSets tm k2 h heads = Some (Inr k)" "arr = base"
proof -
  let ?h = "RandomizeLinkedList h0 candidates shuffle"
  have len: "2 * LLC_BANKS * WAYS_PER_BANK \<le> length candidates"
    using assms unfolding GetEvictionSet_from_def by (auto split: if_splits)
  with assms obtain count where "SizeOfLinkedList ?h (hd candidates) = Some count"
    and c1: "(if count \<noteq> length candidates then Some (Inl ChainSizeMismatch)
                 else
                   (case SanityCheckCandidates tm 0 of
                      Inl e \<Rightarrow> Some (Inl e)
                    | Inr k \<Rightarrow>
                        bindr (BuildConflictSet tm k ?h candidates)
                          (\<lambda>(k, h, conflictSetHead, candidateSetHead).
                        bindr (PartitionConflictSet tm k h conflictSetHead candidateSetHead)
                          (\<lambda>(k, h, evictionSetHeads).
                        bindr (SanityCheckEvictionSets tm k h evictionSetHeads)
                          (\<lambda>k. Some (Inr (evictionSetHeads, base, h, k)))))))
              = Some (Inr (heads, arr, h, k))"
    unfolding GetEvictionSet_from_def Let_def by simp (erule bind_SomeE)
  from c1 obtain k0 where sc: "SanityCheckCandidates tm 0 = Inr k0"
    and c2: "bindr (BuildConflictSet tm k0 ?h candidates)
                          (\<lambda>(k, h, conflictSetHead, candidateSetHead).
                        bindr (PartitionConflictSet tm k h conflictSetHead candidateSetHead)
                          (\<lambda>(k, h, evictionSetHeads).
                        bindr (SanityCheckEvictionSets tm k h evictionSetHeads)
                          (\<lambda>k. Some (Inr (evictionSetHeads, base, h, k)))))
              = Some (Inr (heads, arr, h, k))"
    by (cases "SanityCheckCandidates tm 0") (simp_all split: if_splits)
  from c2 obtain x where b: "BuildConflictSet tm k0 ?h candidates = Some (Inr x)"
    and c3: "(case x of (k, h, conflictSetHead, candidateSetHead) \<Rightarrow>
                        bindr (PartitionConflictSet tm k h conflictSetHead candidateSetHead)
                          (\<lambda>(k, h, evictionSetHeads).
                        bindr (SanityCheckEvictionSets tm k h evictionSetHeads)
                          (\<lambda>k. Some (Inr (evictionSetHeads, base, h, k)))))
              = Some (Inr (heads, arr, h, k))"
    by (rule bindr_InrE)
  obtain k1 h1 csh cdh where x: "x = (k1, h1, csh, cdh)" by (cases x)
  from c3 [unfolded x] obtain y where p: "PartitionConflictSet tm k1 h1 csh cdh = Some (Inr y)"
    and c4: "(case y of (k, h, evictionSetHeads) \<Rightarrow>
                        bindr (SanityCheckEvictionSets tm k h evictionSetHeads)
                          (\<lambda>k. Some (Inr (evictionSetHeads, base, h, k))))
              = Some (Inr (heads, arr, h, k))"
    by simp (erule bindr_InrE)
  obtain k2 h2 hs where y: "y = (k2, h2, hs)" by (cases y)
  from c4 [unfolded y] have "bindr (SanityCheckEvictionSets tm k2 h2 hs)
      (\<lambda>k. Some (Inr (hs, base, h2, k))) = Some (Inr (heads, arr, h, k))" by simp
  then obtain k' where s: "SanityCheckEvictionSets tm k2 h2 hs = Some (Inr k')"
    and c5: "Some (Inr (hs, base, h2, k')) = Some (Inr (heads, arr, h, k))"
    by (rule bindr_InrE) blast
  from c5 have e: "hs = heads" "arr = base" "h2 = h" "k' = k" by simp_all
  show thesis
    by (rule that [OF len sc b [unfolded x] p [unfolded y e] s [unfolded e] e(2)])
qed


subsection \<open>A run in which every reading is as the program expects\<close>

lemma filter_mod_block:
  assumes "t < m"
  shows "filter (\<lambda>j. j mod m = t) [m * q..<m * q + m] = [m * q + t]"
proof -
  have "[m * q..<m * q + t + (m - t)] = [m * q..<m * q + t] @ [m * q + t..<m * q + t + (m - t)]"
    by (rule upt_add_eq_append) simp
  moreover have "m * q + t + (m - t) = m * q + m" using assms by simp
  moreover have "[m * q + t..<m * q + m] = (m * q + t) # [Suc (m * q + t)..<m * q + m]"
    using assms by (simp add: upt_conv_Cons)
  ultimately have split:
    "[m * q..<m * q + m] = [m * q..<m * q + t] @ (m * q + t) # [Suc (m * q + t)..<m * q + m]"
    by simp
  have a: "filter (\<lambda>j. j mod m = t) [m * q..<m * q + t] = []"
  proof (rule filter_False, rule ballI)
    fix j assume j: "j \<in> set [m * q..<m * q + t]"
    define d where "d = j - m * q"
    have "j = m * q + d" "d < t" using j by (auto simp: d_def)
    then have "j mod m = d" using assms by simp
    with \<open>d < t\<close> show "j mod m \<noteq> t" by simp
  qed
  have b: "filter (\<lambda>j. j mod m = t) [Suc (m * q + t)..<m * q + m] = []"
  proof (rule filter_False, rule ballI)
    fix j assume j: "j \<in> set [Suc (m * q + t)..<m * q + m]"
    define d where "d = j - m * q"
    have "j = m * q + d" "t < d" "d < m" using j by (auto simp: d_def)
    then have "j mod m = d" by simp
    with \<open>t < d\<close> show "j mod m \<noteq> t" by simp
  qed
  have c: "(m * q + t) mod m = t" using assms by simp
  show ?thesis unfolding split
    by (simp only: filter_append a b filter.simps c if_True append_Nil append_Nil2 refl)
qed

lemma length_filter_mod:
  assumes "t < m"
  shows "length (filter (\<lambda>j. j mod m = t) [0..<m * q]) = q"
proof (induction q)
  case 0
  then show ?case by simp
next
  case (Suc q)
  have e: "m * Suc q = m * q + m" by simp
  have "[0..<m * q + m] = [0..<m * q] @ [m * q..<m * q + m]"
    by (rule upt_add_eq_append) simp
  then have "filter (\<lambda>j. j mod m = t) [0..<m * Suc q]
      = filter (\<lambda>j. j mod m = t) [0..<m * q] @ [m * q + t]"
    unfolding e by (simp only: filter_append filter_mod_block [OF assms])
  then have "length (filter (\<lambda>j. j mod m = t) [0..<m * Suc q])
      = length (filter (\<lambda>j. j mod m = t) [0..<m * q]) + 1"
    by (simp only: length_append list.size)
  with Suc show ?case by (simp only: Suc_eq_plus1)
qed

lemma maps_to_set_index:
  assumes "j < ARRAY_ENTRIES"
  shows "maps_to_set (node_address 0x7F3A40000000 j) 27 \<longleftrightarrow> j mod 2048 = 27"
proof -
  have j: "j < 1048576"
    using assms by (simp add: ARRAY_ENTRIES_def ARRAY_SIZE_def CACHE_LINE_SIZE_def)
  let ?a = "node_address 0x7F3A40000000 j"
  have "unat ?a = (0x7F3A40000000 + 64 * j) mod 2 ^ 64"
    by (simp add: node_address_def unat_word_ariths unat_of_nat mod_simps)
  also have "\<dots> = 0x7F3A40000000 + 64 * j" using j by simp
  finally have u: "unat ?a = 0x7F3A40000000 + 64 * j" .
  have "(0x7F3A40000000 :: nat) = 64 * (2048 * 1067261952)" by simp
  then have "(0x7F3A40000000 + 64 * j) div 64 = 2048 * 1067261952 + j" by simp
  then have m: "(0x7F3A40000000 + 64 * j) div 64 mod 2048 = j mod 2048"
    by (simp only: mod_mult_self4)
  have "maps_to_set ?a 27 \<longleftrightarrow> unat (take_bit 11 (drop_bit 6 ?a)) = 27"
    by (simp add: maps_to_set_alt word_unat_eq_iff)
  also have "unat (take_bit 11 (drop_bit 6 ?a)) = unat ?a div 64 mod 2048"
    by (simp add: take_bit_eq_mod drop_bit_eq_div unat_div unat_mod)
  finally show ?thesis by (simp only: u m)
qed

lemma FindCandidates_count:
  "\<exists>candidates. FindCandidates 0x7F3A40000000 27 = Inr candidates \<and> length candidates = 512"
proof -
  have a: "(0x7F3A40000000 :: 64 word) AND CACHE_LINE_BITS = 0"
    by (simp add: CACHE_LINE_BITS_def)
  have b: "(27 :: 64 word) < SETS_PER_BANK"
    by (simp add: SETS_PER_BANK_def)
  have n: "ARRAY_ENTRIES = 2048 * 512"
    by (simp add: ARRAY_ENTRIES_def ARRAY_SIZE_def CACHE_LINE_SIZE_def)
  have "filter (\<lambda>j. maps_to_set (node_address 0x7F3A40000000 j) 27) [0..<ARRAY_ENTRIES]
      = filter (\<lambda>j. j mod 2048 = 27) [0..<ARRAY_ENTRIES]"
    by (rule filter_cong [OF refl]) (simp add: maps_to_set_index)
  moreover have "length (filter (\<lambda>j. j mod 2048 = 27) [0..<ARRAY_ENTRIES]) = 512"
    unfolding n by (rule length_filter_mod) simp
  ultimately show ?thesis
    using FindCandidates_loop_filter [OF a b, of 0 "[]"] by (simp add: FindCandidates_def)
qed

lemma good_timer_readings:
  "SanityCheckCandidates good_timer 0 = Inr 1"
  "\<forall>j<10. plausible (good_timer (1 + j))"
  "\<forall>j<CONFLICT_SET_SIZE - WAYS_PER_BANK.
     plausible (good_timer (1 + 10 + j)) \<and> \<not> good_timer (1 + 10 + j) > LLC_CYCLE_THRESHOLD"
  "SanityCheckConflictSet good_timer (1 + 10 + (CONFLICT_SET_SIZE - WAYS_PER_BANK)) = Inr 232"
  "\<forall>i<LLC_BANKS - 1.
      (\<forall>j<101. plausible (good_timer (232 + 121 * i + j))
          \<and> good_timer (232 + 121 * i + j) > LLC_CYCLE_THRESHOLD)
      \<and> (\<forall>j<WAYS_PER_BANK. plausible (good_timer (232 + 121 * i + 101 + j))
                \<and> \<not> good_timer (232 + 121 * i + 101 + j) > LLC_CYCLE_THRESHOLD)"
  "\<forall>j<LLC_BANKS. 25 < good_timer (232 + 121 * (LLC_BANKS - 1) + j) div 2400000
      \<and> good_timer (232 + 121 * (LLC_BANKS - 1) + j) div 2400000 < 55"
proof -
  show "SanityCheckCandidates good_timer 0 = Inr 1"
    by (simp add: SanityCheckCandidates_def good_timer_def LLC_BANKS_def WAYS_PER_BANK_def)
  show "\<forall>j<10. plausible (good_timer (1 + j))"
    by (simp add: good_timer_def plausible_def)
  show "\<forall>j<CONFLICT_SET_SIZE - WAYS_PER_BANK.
     plausible (good_timer (1 + 10 + j)) \<and> \<not> good_timer (1 + 10 + j) > LLC_CYCLE_THRESHOLD"
    by (simp add: good_timer_def plausible_def CONFLICT_SET_SIZE_def LLC_BANKS_def
        WAYS_PER_BANK_def LLC_CYCLE_THRESHOLD_def)
  show "SanityCheckConflictSet good_timer (1 + 10 + (CONFLICT_SET_SIZE - WAYS_PER_BANK)) = Inr 232"
    by (simp add: SanityCheckConflictSet_def good_timer_def CONFLICT_SET_SIZE_def LLC_BANKS_def
        WAYS_PER_BANK_def)
  show "\<forall>i<LLC_BANKS - 1.
      (\<forall>j<101. plausible (good_timer (232 + 121 * i + j))
          \<and> good_timer (232 + 121 * i + j) > LLC_CYCLE_THRESHOLD)
      \<and> (\<forall>j<WAYS_PER_BANK. plausible (good_timer (232 + 121 * i + 101 + j))
                \<and> \<not> good_timer (232 + 121 * i + 101 + j) > LLC_CYCLE_THRESHOLD)"
  proof (intro allI impI conjI)
    fix i j :: nat assume i: "i < LLC_BANKS - 1" and j: "j < 101"
    define n where "n = 232 + 121 * i + j"
    have "n - 232 = 121 * i + j" by (simp add: n_def)
    then have "(n - 232) mod 121 = j" using j by simp
    moreover have "n < 1563" "\<not> n \<le> 230" "n \<noteq> 231" "n \<noteq> 0"
      using i j by (simp_all add: n_def LLC_BANKS_def)
    ultimately have "good_timer n = 150" using j by (simp add: good_timer_def)
    then show "plausible (good_timer (232 + 121 * i + j))"
      "good_timer (232 + 121 * i + j) > LLC_CYCLE_THRESHOLD"
      unfolding n_def by (simp_all add: plausible_def LLC_CYCLE_THRESHOLD_def)
  next
    fix i j :: nat assume i: "i < LLC_BANKS - 1" and j: "j < WAYS_PER_BANK"
    define n where "n = 232 + 121 * i + 101 + j"
    have "n - 232 = 121 * i + (101 + j)" by (simp add: n_def)
    moreover have "(121 * i + (101 + j)) mod 121 = 101 + j"
      using j by (simp add: WAYS_PER_BANK_def)
    ultimately have "\<not> (n - 232) mod 121 < 101" by simp
    moreover have "n < 1563" "\<not> n \<le> 230" "n \<noteq> 231" "n \<noteq> 0"
      using i j by (simp_all add: n_def LLC_BANKS_def WAYS_PER_BANK_def)
    ultimately have "good_timer n = 50" by (simp add: good_timer_def)
    then show "plausible (good_timer (232 + 121 * i + 101 + j))"
      "\<not> good_timer (232 + 121 * i + 101 + j) > LLC_CYCLE_THRESHOLD"
      unfolding n_def by (simp_all add: plausible_def LLC_CYCLE_THRESHOLD_def)
  qed
  show "\<forall>j<LLC_BANKS. 25 < good_timer (232 + 121 * (LLC_BANKS - 1) + j) div 2400000
      \<and> good_timer (232 + 121 * (LLC_BANKS - 1) + j) div 2400000 < 55"
    by (simp add: good_timer_def LLC_BANKS_def)
qed

lemma GetEvictionSet_run:
  assumes fc: "FindCandidates base setIndex = Inr candidates" and s: "setIndex < SETS_PER_BANK"
    and len: "2 * LLC_BANKS * WAYS_PER_BANK \<le> length candidates"
    and sh: "shuffled (shuffle (length candidates)) (length candidates)"
    and t0: "SanityCheckCandidates tm 0 = Inr 1"
    and warm: "\<forall>j<10. plausible (tm (1 + j))"
    and hits: "\<forall>j<CONFLICT_SET_SIZE - WAYS_PER_BANK.
                 plausible (tm (1 + 10 + j)) \<and> \<not> tm (1 + 10 + j) > LLC_CYCLE_THRESHOLD"
    and sane: "SanityCheckConflictSet tm (1 + 10 + (CONFLICT_SET_SIZE - WAYS_PER_BANK)) = Inr 232"
    and pat: "\<forall>i<LLC_BANKS - 1.
      (\<forall>j<101. plausible (tm (232 + 121 * i + j)) \<and> tm (232 + 121 * i + j) > LLC_CYCLE_THRESHOLD)
      \<and> (\<forall>j<WAYS_PER_BANK. plausible (tm (232 + 121 * i + 101 + j))
                \<and> \<not> tm (232 + 121 * i + 101 + j) > LLC_CYCLE_THRESHOLD)"
    and fin: "\<forall>j<LLC_BANKS. 25 < tm (232 + 121 * (LLC_BANKS - 1) + j) div 2400000
      \<and> tm (232 + 121 * (LLC_BANKS - 1) + j) div 2400000 < 55"
  shows "\<exists>heads h. GetEvictionSet 0 setIndex base shuffle tm h0
           = Some (Inr (heads, base, h, 232 + 121 * (LLC_BANKS - 1) + LLC_BANKS))"
proof -
  let ?h = "RandomizeLinkedList h0 candidates shuffle"
  have d: "distinct candidates" by (rule FindCandidates_distinct [OF fc s])
  have ne: "candidates \<noteq> []" using len by (auto simp: LLC_BANKS_def WAYS_PER_BANK_def)
  from RandomizeLinkedList_ring [of candidates shuffle h0, OF d ne sh] obtain xs where
    xs: "ring ?h xs" "set xs = set candidates" "length xs = length candidates" by blast
  have big: "CONFLICT_SET_SIZE + 2 \<le> length candidates"
    using len by (simp add: CONFLICT_SET_SIZE_def LLC_BANKS_def WAYS_PER_BANK_def)
  have "hd candidates \<in> set xs" using ne xs(2) by simp
  from SizeOfLinkedList_member [OF xs(1) this] xs(3)
  have sz: "SizeOfLinkedList ?h (hd candidates) = Some (length candidates)" by simp
  from BuildConflictSet_run [OF xs ne big warm hits sane] obtain h1 cdh where
    b: "BuildConflictSet tm 1 ?h candidates = Some (Inr (232, h1, hd candidates, cdh))"
    and gi: "grow_inv (set candidates) h1 (hd candidates) CONFLICT_SET_SIZE cdh cdh" by blast
  note pi = part_inv_start [OF gi]
  have "card (set candidates) = length candidates" using d by (simp add: distinct_card)
  then have m: "LLC_BANKS - 1 < card (set candidates) - CONFLICT_SET_SIZE"
    using len by (simp add: CONFLICT_SET_SIZE_def LLC_BANKS_def WAYS_PER_BANK_def)
  from PartitionConflictSet_run [OF pi m pat] obtain h rss where
    p: "PartitionConflictSet tm 232 h1 (hd candidates) cdh
             = Some (Inr (232 + 121 * (LLC_BANKS - 1), h, map hd rss))"
    and er: "eviction_rings (set (walk h1 (hd candidates) CONFLICT_SET_SIZE)) h rss" by blast
  note sc = SanityCheckEvictionSets_run [OF er fin]
  have "GetEvictionSet_from candidates base shuffle tm h0
      = Some (Inr (map hd rss, base, h, 232 + 121 * (LLC_BANKS - 1) + LLC_BANKS))"
    unfolding GetEvictionSet_from_def Let_def using len sz t0 b p sc
    by (simp add: bindr_def)
  then show ?thesis
    unfolding GetEvictionSet_def using s fc by simp
qed

text \<open>
  Claim C1. Whenever \<^verbatim>\<open>GetEvictionSet\<close> returns (the permutation drawn by
  \<^verbatim>\<open>std::random_shuffle\<close> being a rearrangement of \<open>0, \<dots>, n - 1\<close>), the vector it returns has
  \<^verbatim>\<open>LLC_BANKS\<close> handles; walking \<^verbatim>\<open>WAYS_PER_BANK\<close> steps from each handle gives a closed
  doubly-linked ring of that many distinct nodes; the rings of two different handles share no
  node; and together they hold exactly the \<^verbatim>\<open>CONFLICT_SET_SIZE\<close> nodes of the conflict ring that
  the construction phase had built.
\<close>

theorem eviction_sets_partition:
  assumes ret: "GetEvictionSet array_in setIndex base shuffle tm h0 = Some (Inr (heads, arr, h, k))"
    and sh: "\<forall>n. shuffled (shuffle n) n"
  shows "\<exists>candidates k0 k1 h1 csh cdh.
      FindCandidates base setIndex = Inr candidates \<and>
      BuildConflictSet tm k0 (RandomizeLinkedList h0 candidates shuffle) candidates
        = Some (Inr (k1, h1, csh, cdh)) \<and>
      ring_at h1 csh CONFLICT_SET_SIZE \<and>
      length heads = LLC_BANKS \<and>
      (\<forall>p\<in>set heads. ring_at h p WAYS_PER_BANK) \<and>
      (\<forall>i<LLC_BANKS. \<forall>j<LLC_BANKS. i \<noteq> j \<longrightarrow>
         set (walk h (heads ! i) WAYS_PER_BANK) \<inter> set (walk h (heads ! j) WAYS_PER_BANK) = {}) \<and>
      (\<Union>p\<in>set heads. set (walk h p WAYS_PER_BANK)) = set (walk h1 csh CONFLICT_SET_SIZE)"
proof -
  from ret have s: "setIndex < SETS_PER_BANK"
    unfolding GetEvictionSet_def by (auto split: if_splits)
  from ret s obtain candidates where fc: "FindCandidates base setIndex = Inr candidates"
    and fr: "GetEvictionSet_from candidates base shuffle tm h0 = Some (Inr (heads, arr, h, k))"
    unfolding GetEvictionSet_def by (auto split: if_splits sum.splits)
  let ?h = "RandomizeLinkedList h0 candidates shuffle"
  from fr obtain k0 k1 h1 csh cdh k2 where
    len: "2 * LLC_BANKS * WAYS_PER_BANK \<le> length candidates"
    and b: "BuildConflictSet tm k0 ?h candidates = Some (Inr (k1, h1, csh, cdh))"
    and p: "PartitionConflictSet tm k1 h1 csh cdh = Some (Inr (k2, h, heads))"
    by (rule GetEvictionSet_from_returns)
  have d: "distinct candidates" by (rule FindCandidates_distinct [OF fc s])
  have ne: "candidates \<noteq> []" using len by (auto simp: LLC_BANKS_def WAYS_PER_BANK_def)
  have "shuffled (shuffle (length candidates)) (length candidates)" using sh by simp
  from RandomizeLinkedList_ring [of candidates shuffle h0, OF d ne this] obtain xs where
    xs: "ring ?h xs" "set xs = set candidates" "length xs = length candidates" by blast
  have big: "CONFLICT_SET_SIZE + 2 \<le> length candidates"
    using len by (simp add: CONFLICT_SET_SIZE_def LLC_BANKS_def WAYS_PER_BANK_def)
  note gi = BuildConflictSet_returns(2) [OF xs ne big b]
  note ra = grow_inv_ring_at(1) [OF gi]
  note pi = part_inv_start [OF gi]
  from PartitionConflictSet_returns(1) [OF pi p] obtain rss where
    er: "eviction_rings (set (walk h1 csh CONFLICT_SET_SIZE)) h rss" and hs: "heads = map hd rss"
    by blast
  note eh = eviction_rings_heads [OF er, folded hs]
  from fc b ra eh show ?thesis by blast
qed


theorem eviction_sets_partition_witness:
  "\<exists>heads arr h k.
      GetEvictionSet 0 27 0x7F3A40000000 (\<lambda>n. [0..<n]) good_timer
          \<lparr>next_of = (\<lambda>i. 0), prev_of = (\<lambda>i. 0)\<rparr>
        = Some (Inr (heads, arr, h, k)) \<and>
      length heads = LLC_BANKS \<and>
      (\<forall>p\<in>set heads. ring_at h p WAYS_PER_BANK) \<and>
      (\<forall>i<LLC_BANKS. \<forall>j<LLC_BANKS. i \<noteq> j \<longrightarrow>
         set (walk h (heads ! i) WAYS_PER_BANK) \<inter> set (walk h (heads ! j) WAYS_PER_BANK) = {})"
proof -
  let ?h0 = "\<lparr>next_of = (\<lambda>i. 0), prev_of = (\<lambda>i. 0)\<rparr>"
  from FindCandidates_count obtain candidates where
    fc: "FindCandidates 0x7F3A40000000 27 = Inr candidates" and l: "length candidates = 512"
    by blast
  have s: "(27 :: 64 word) < SETS_PER_BANK" by (simp add: SETS_PER_BANK_def)
  have len: "2 * LLC_BANKS * WAYS_PER_BANK \<le> length candidates"
    using l by (simp add: LLC_BANKS_def WAYS_PER_BANK_def)
  have sh: "\<forall>n. shuffled ((\<lambda>n. [0..<n]) n) n"
    by (auto simp: shuffled_def)
  have sh1: "shuffled ((\<lambda>n. [0..<n]) (length candidates)) (length candidates)"
    using sh by blast
  from GetEvictionSet_run [of _ _ candidates "\<lambda>n. [0..<n]" good_timer ?h0,
      OF fc s len sh1 good_timer_readings]
  obtain heads h where
    run: "GetEvictionSet 0 27 0x7F3A40000000 (\<lambda>n. [0..<n]) good_timer ?h0
           = Some (Inr (heads, 0x7F3A40000000, h, 232 + 121 * (LLC_BANKS - 1) + LLC_BANKS))"
    by blast
  from eviction_sets_partition [OF run sh] have
    r: "length heads = LLC_BANKS" "\<forall>p\<in>set heads. ring_at h p WAYS_PER_BANK"
      "\<forall>i<LLC_BANKS. \<forall>j<LLC_BANKS. i \<noteq> j \<longrightarrow>
         set (walk h (heads ! i) WAYS_PER_BANK) \<inter> set (walk h (heads ! j) WAYS_PER_BANK) = {}"
    by blast+
  show ?thesis
    by (intro exI conjI) (rule run r)+
qed


subsection \<open>Which assertion can fail where\<close>

lemma drop_hits_abort:
  assumes "drop_hits tm k h csh c miss = Some r"
  shows "case r of Inl e \<Rightarrow> e = CandidatesExhausted | Inr x \<Rightarrow> True"
proof (rule drop_hits.raw_induct
    [where P = "\<lambda>tm k h csh c miss r. case r of Inl e \<Rightarrow> e = CandidatesExhausted | Inr x \<Rightarrow> True",
      OF _ assms])
  fix f tm k h csh c miss r
  assume ih: "\<And>tm k h csh c miss r. f tm k h csh c miss = Some r
                \<Longrightarrow> (case r of Inl e \<Rightarrow> e = CandidatesExhausted | Inr x \<Rightarrow> True)"
    and eq: "(if \<not> miss then
        if \<not> next_of h c \<noteq> c then Some (Inl CandidatesExhausted)
        else
          (let h = unlink h c;
               candidate = next_of h c
           in do { (missToDRAM, k') \<leftarrow> Probe tm k h csh candidate;
                   f tm k' h csh candidate missToDRAM })
      else Some (Inr (k, h, c))) = Some r"
  show "case r of Inl e \<Rightarrow> e = CandidatesExhausted | Inr x \<Rightarrow> True"
  proof (cases "miss \<or> next_of h c = c")
    case True
    with eq show ?thesis by (auto split: if_splits)
  next
    case False
    with eq have "do { (missToDRAM, k') \<leftarrow> Probe tm k (unlink h c) csh (next_of (unlink h c) c);
                   f tm k' (unlink h c) csh (next_of (unlink h c) c) missToDRAM } = Some r"
      by (simp add: Let_def)
    then obtain y where
      rec0: "(case y of (m, k') \<Rightarrow> f tm k' (unlink h c) csh (next_of (unlink h c) c) m) = Some r"
      by (rule bind_SomeE)
    obtain m k' where y: "y = (m, k')" by (cases y)
    from rec0 [unfolded y] show ?thesis by (simp add: ih)
  qed
qed

lemma find_witness_abort:
  assumes "find_witness tm k h csh c = Some r"
  shows "case r of Inl e \<Rightarrow> e = CandidatesExhausted | Inr x \<Rightarrow> True"
proof (rule find_witness.raw_induct
    [where P = "\<lambda>tm k h csh c r. case r of Inl e \<Rightarrow> e = CandidatesExhausted | Inr x \<Rightarrow> True",
      OF _ assms])
  fix f tm k h csh c r
  assume ih: "\<And>tm k h csh c r. f tm k h csh c = Some r
                \<Longrightarrow> (case r of Inl e \<Rightarrow> e = CandidatesExhausted | Inr x \<Rightarrow> True)"
    and eq: "do { (missToDRAM, k1) \<leftarrow> Probe tm k h csh c;
          r \<leftarrow> drop_hits tm k1 h csh c missToDRAM;
          case r of
            Inl e \<Rightarrow> Some (Inl e)
          | Inr (k2, h2, candidate2) \<Rightarrow>
              do { r' \<leftarrow> confirm_candidate tm k2 h2 csh candidate2 100;
                   case r' of
                     Inl e \<Rightarrow> Some (Inl e)
                   | Inr (k3, h3, candidate3, foundCandidate) \<Rightarrow>
                       if foundCandidate then Some (Inr (k3, h3, candidate3))
                       else f tm k3 h3 csh candidate3 } } = Some r"
  from eq obtain y where
    c1: "(case y of (missToDRAM, k1) \<Rightarrow>
          do { r \<leftarrow> drop_hits tm k1 h csh c missToDRAM;
          case r of
            Inl e \<Rightarrow> Some (Inl e)
          | Inr (k2, h2, candidate2) \<Rightarrow>
              do { r' \<leftarrow> confirm_candidate tm k2 h2 csh candidate2 100;
                   case r' of
                     Inl e \<Rightarrow> Some (Inl e)
                   | Inr (k3, h3, candidate3, foundCandidate) \<Rightarrow>
                       if foundCandidate then Some (Inr (k3, h3, candidate3))
                       else f tm k3 h3 csh candidate3 } }) = Some r"
    by (rule bind_SomeE)
  obtain m k1 where y: "y = (m, k1)" by (cases y)
  from c1 [unfolded y] obtain d where dh: "drop_hits tm k1 h csh c m = Some d"
    and c2: "(case d of
            Inl e \<Rightarrow> Some (Inl e)
          | Inr (k2, h2, candidate2) \<Rightarrow>
              do { r' \<leftarrow> confirm_candidate tm k2 h2 csh candidate2 100;
                   case r' of
                     Inl e \<Rightarrow> Some (Inl e)
                   | Inr (k3, h3, candidate3, foundCandidate) \<Rightarrow>
                       if foundCandidate then Some (Inr (k3, h3, candidate3))
                       else f tm k3 h3 csh candidate3 }) = Some r"
    by simp (erule bind_SomeE)
  show "case r of Inl e \<Rightarrow> e = CandidatesExhausted | Inr x \<Rightarrow> True"
  proof (cases d)
    case (Inl e)
    with drop_hits_abort [OF dh] c2 show ?thesis by auto
  next
    case (Inr t)
    obtain k2 h2 c2' where t: "t = (k2, h2, c2')" by (cases t)
    from c2 [unfolded Inr t] obtain r' where cc: "confirm_candidate tm k2 h2 csh c2' 100 = Some r'"
      and c3: "(case r' of
                     Inl e \<Rightarrow> Some (Inl e)
                   | Inr (k3, h3, candidate3, foundCandidate) \<Rightarrow>
                       if foundCandidate then Some (Inr (k3, h3, candidate3))
                       else f tm k3 h3 csh candidate3) = Some r"
      by simp (erule bind_SomeE)
    show ?thesis
    proof (cases r')
      case (Inl e)
      with confirm_candidate_abort [of tm k2 h2 csh c2' 100 e] cc c3 show ?thesis by auto
    next
      case (Inr u)
      obtain k3 h3 c3' found where u: "u = (k3, h3, c3', found)" by (cases u)
      from c3 [unfolded Inr u] show ?thesis
        by (cases found) (auto simp: ih)
    qed
  qed
qed

lemma partition_loop_abort:
  assumes "partition_loop tm k h heads c csh = Some r"
  shows "case r of Inl e \<Rightarrow> e = CandidatesExhausted | Inr x \<Rightarrow> True"
proof (rule partition_loop.raw_induct
    [where P = "\<lambda>tm k h heads c csh r. case r of Inl e \<Rightarrow> e = CandidatesExhausted | Inr x \<Rightarrow> True",
      OF _ assms])
  fix f tm k h heads c csh r
  assume ih: "\<And>tm k h heads c csh r. f tm k h heads c csh = Some r
                \<Longrightarrow> (case r of Inl e \<Rightarrow> e = CandidatesExhausted | Inr x \<Rightarrow> True)"
    and eq: "(if length heads < LLC_BANKS - 1 then
        do { r \<leftarrow> find_witness tm k h csh c;
             case r of
               Inl e \<Rightarrow> Some (Inl e)
             | Inr (k, h, candidate) \<Rightarrow>
                 do { (k, h, evictionSet) \<leftarrow> isolate_slice tm k h candidate csh [];
                      case splice_out h evictionSet csh of
                        (h, conflictSetHead) \<Rightarrow>
                          if \<not> next_of h candidate \<noteq> candidate then Some (Inl CandidatesExhausted)
                          else
                            (let h = unlink h candidate;
                                 candidate = next_of h candidate
                             in f tm k h (heads @ [hd evictionSet])
                                  candidate conflictSetHead) } }
      else Some (Inr (k, h, heads, csh))) = Some r"
  show "case r of Inl e \<Rightarrow> e = CandidatesExhausted | Inr x \<Rightarrow> True"
  proof (cases "length heads < LLC_BANKS - 1")
    case False
    with eq show ?thesis by auto
  next
    case lt: True
    with eq obtain w where fw: "find_witness tm k h csh c = Some w"
      and c1: "(case w of
               Inl e \<Rightarrow> Some (Inl e)
             | Inr (k, h, candidate) \<Rightarrow>
                 do { (k, h, evictionSet) \<leftarrow> isolate_slice tm k h candidate csh [];
                      case splice_out h evictionSet csh of
                        (h, conflictSetHead) \<Rightarrow>
                          if \<not> next_of h candidate \<noteq> candidate then Some (Inl CandidatesExhausted)
                          else
                            (let h = unlink h candidate;
                                 candidate = next_of h candidate
                             in f tm k h (heads @ [hd evictionSet])
                                  candidate conflictSetHead) }) = Some r"
      by (simp only: if_True) (erule bind_SomeE)
    show ?thesis
    proof (cases w)
      case (Inl e)
      with find_witness_abort [OF fw] c1 show ?thesis by auto
    next
      case (Inr t)
      obtain k1 h1 c1' where t: "t = (k1, h1, c1')" by (cases t)
      from c1 [unfolded Inr t] obtain x where
        c2: "(case x of (k, h, evictionSet) \<Rightarrow>
                      case splice_out h evictionSet csh of
                        (h, conflictSetHead) \<Rightarrow>
                          if \<not> next_of h c1' \<noteq> c1' then Some (Inl CandidatesExhausted)
                          else
                            (let h = unlink h c1';
                                 candidate = next_of h c1'
                             in f tm k h (heads @ [hd evictionSet])
                                  candidate conflictSetHead)) = Some r"
        by simp (erule bind_SomeE)
      obtain k2 h2 es where x: "x = (k2, h2, es)" by (cases x)
      obtain h3 csh3 where sp: "splice_out h2 es csh = (h3, csh3)" by (cases "splice_out h2 es csh")
      from c2 [unfolded x] sp show ?thesis
        by (cases "next_of h3 c1' = c1'") (auto simp: Let_def ih)
    qed
  qed
qed

lemma PartitionConflictSet_abort:
  assumes "PartitionConflictSet tm k h csh cdh = Some (Inl e)"
  shows "e = CandidatesExhausted"
proof -
  from assms obtain w where pl: "partition_loop tm k h [] cdh csh = Some w"
    and w: "w = Inl e"
    unfolding PartitionConflictSet_def bindr_def
    by (cases "partition_loop tm k h [] cdh csh") (auto split: sum.splits)
  from partition_loop_abort [OF pl] w show ?thesis by simp
qed

lemma check_sizes_abort:
  "check_sizes h heads allNodes = Some (Inl e) \<Longrightarrow> e = EvictionSetSizeMismatch"
proof (induction heads arbitrary: allNodes)
  case Nil
  then show ?case by simp
next
  case (Cons p heads)
  from Cons.prems obtain y where
    c: "(case y of (allNodes', evictionSetSize) \<Rightarrow>
          if evictionSetSize \<noteq> WAYS_PER_BANK then Some (Inl EvictionSetSizeMismatch)
          else check_sizes h heads allNodes') = Some (Inl e)"
    by (simp only: check_sizes.simps) (erule bind_SomeE)
  obtain a n where y: "y = (a, n)" by (cases y)
  from c [unfolded y] Cons.IH [of a] show ?case by (auto split: if_splits)
qed

lemma check_times_abort:
  "check_times tm k heads = Inl e \<Longrightarrow> e = SanityOracleFailed EvictionOracle"
  by (induction heads arbitrary: k) (auto simp: Let_def split: if_splits)

lemma SanityCheckEvictionSets_abort:
  assumes "SanityCheckEvictionSets tm k h heads = Some (Inl e)"
  shows "e \<in> {EvictionSetSizeMismatch, EvictionSetsOverlap, SanityOracleFailed EvictionOracle}"
proof (cases "check_sizes h heads []")
  case None
  with assms show ?thesis by (simp add: SanityCheckEvictionSets_def bindr_def)
next
  case (Some w)
  show ?thesis
  proof (cases w)
    case (Inl e')
    with Some assms check_sizes_abort [of h heads "[]" e'] show ?thesis
      by (simp add: SanityCheckEvictionSets_def bindr_def)
  next
    case (Inr a)
    with Some assms check_times_abort [of tm k heads e] show ?thesis
      by (auto simp: SanityCheckEvictionSets_def bindr_def split: if_splits)
  qed
qed

lemma BuildConflictSet_abort:
  assumes "BuildConflictSet tm k h candidates = Some (Inl e)"
  shows "e \<in> {SeedSizeMismatch, LeftoverSizeMismatch, ConflictSizeMismatch,
               SanityOracleFailed ConflictOracle}"
  using assms unfolding BuildConflictSet_def SanityCheckConflictSet_def
  by (auto simp: bind_eq_Some_conv Let_def split: prod.splits if_splits sum.splits)


subsection \<open>The assertion on the number of candidates\<close>

lemma GetEvictionSet_from_insufficient:
  "GetEvictionSet_from candidates base shuffle tm h0 = Some (Inl InsufficientCandidates)
     \<longleftrightarrow> length candidates < 2 * LLC_BANKS * WAYS_PER_BANK"
proof
  assume "length candidates < 2 * LLC_BANKS * WAYS_PER_BANK"
  then show "GetEvictionSet_from candidates base shuffle tm h0 = Some (Inl InsufficientCandidates)"
    by (simp add: GetEvictionSet_from_def)
next
  assume a: "GetEvictionSet_from candidates base shuffle tm h0 = Some (Inl InsufficientCandidates)"
  show "length candidates < 2 * LLC_BANKS * WAYS_PER_BANK"
  proof (rule ccontr)
    assume "\<not> length candidates < 2 * LLC_BANKS * WAYS_PER_BANK"
    then have len: "2 * LLC_BANKS * WAYS_PER_BANK \<le> length candidates" by simp
    let ?h = "RandomizeLinkedList h0 candidates shuffle"
    from a len obtain count where
      c1: "(if count \<noteq> length candidates then Some (Inl ChainSizeMismatch)
                 else
                   (case SanityCheckCandidates tm 0 of
                      Inl e \<Rightarrow> Some (Inl e)
                    | Inr k \<Rightarrow>
                        bindr (BuildConflictSet tm k ?h candidates)
                          (\<lambda>(k, h, conflictSetHead, candidateSetHead).
                        bindr (PartitionConflictSet tm k h conflictSetHead candidateSetHead)
                          (\<lambda>(k, h, evictionSetHeads).
                        bindr (SanityCheckEvictionSets tm k h evictionSetHeads)
                          (\<lambda>k. Some (Inr (evictionSetHeads, base, h, k)))))))
              = Some (Inl InsufficientCandidates)"
      unfolding GetEvictionSet_from_def Let_def by simp (erule bind_SomeE)
    have sc: "SanityCheckCandidates tm 0 \<noteq> Inl InsufficientCandidates"
      by (simp add: SanityCheckCandidates_def Let_def)
    from c1 sc obtain k0 where
      c2: "bindr (BuildConflictSet tm k0 ?h candidates)
                          (\<lambda>(k, h, conflictSetHead, candidateSetHead).
                        bindr (PartitionConflictSet tm k h conflictSetHead candidateSetHead)
                          (\<lambda>(k, h, evictionSetHeads).
                        bindr (SanityCheckEvictionSets tm k h evictionSetHeads)
                          (\<lambda>k. Some (Inr (evictionSetHeads, base, h, k)))))
              = Some (Inl InsufficientCandidates)"
      by (cases "SanityCheckCandidates tm 0") (auto split: if_splits)
    show False
    proof (cases "BuildConflictSet tm k0 ?h candidates")
      case None
      with c2 show False by (simp add: bindr_def)
    next
      case (Some w)
      show False
      proof (cases w)
        case (Inl e)
        with Some c2 BuildConflictSet_abort [of tm k0 ?h candidates e] show False
          by (auto simp: bindr_def)
      next
        case (Inr x)
        obtain k1 h1 csh cdh where x: "x = (k1, h1, csh, cdh)" by (cases x)
        from c2 Some Inr x have
          c3: "bindr (PartitionConflictSet tm k1 h1 csh cdh)
                          (\<lambda>(k, h, evictionSetHeads).
                        bindr (SanityCheckEvictionSets tm k h evictionSetHeads)
                          (\<lambda>k. Some (Inr (evictionSetHeads, base, h, k))))
              = Some (Inl InsufficientCandidates)"
          by (simp add: bindr_def)
        show False
        proof (cases "PartitionConflictSet tm k1 h1 csh cdh")
          case None
          with c3 show False by (simp add: bindr_def)
        next
          case (Some w')
          show False
          proof (cases w')
            case (Inl e)
            with Some c3 PartitionConflictSet_abort [of tm k1 h1 csh cdh e] show False
              by (auto simp: bindr_def)
          next
            case (Inr y)
            obtain k2 h2 hs where y: "y = (k2, h2, hs)" by (cases y)
            from c3 Some Inr y have
              c4: "bindr (SanityCheckEvictionSets tm k2 h2 hs)
                          (\<lambda>k. Some (Inr (hs, base, h2, k)))
                    = Some (Inl InsufficientCandidates)"
              by (simp add: bindr_def)
            then have "SanityCheckEvictionSets tm k2 h2 hs = Some (Inl InsufficientCandidates)"
              unfolding bindr_def by (auto split: option.splits sum.splits)
            from SanityCheckEvictionSets_abort [OF this] show False by simp
          qed
        qed
      qed
    qed
  qed
qed

text \<open>
  Claim C7. Called as its interface requires (\<^verbatim>\<open>*array\<close> null, the set index below
  \<^verbatim>\<open>SETS_PER_BANK\<close>, the region line-aligned), \<^verbatim>\<open>GetEvictionSet\<close> enumerates the candidates
  without failing and goes on with them; and what follows the enumeration fails the assertion
  on the number of candidates exactly when there are fewer than
  \<open>2 * LLC_BANKS * WAYS_PER_BANK\<close> of them: no later assertion of the function reports the
  same failure, and with at least that many the construction is entered.
\<close>

theorem insufficient_candidates:
  assumes "array_in = 0" "setIndex < SETS_PER_BANK" "base AND CACHE_LINE_BITS = 0"
  shows
  "FindCandidates base setIndex
     = Inr (filter (\<lambda>i. maps_to_set (node_address base i) setIndex) [0..<ARRAY_ENTRIES])
   \<and> GetEvictionSet array_in setIndex base shuffle tm h0
     = GetEvictionSet_from
         (filter (\<lambda>i. maps_to_set (node_address base i) setIndex) [0..<ARRAY_ENTRIES])
         base shuffle tm h0
   \<and> (GetEvictionSet_from candidates base shuffle tm h0 = Some (Inl InsufficientCandidates)
        \<longleftrightarrow> length candidates < 2 * LLC_BANKS * WAYS_PER_BANK)"
proof (intro conjI)
  show fc: "FindCandidates base setIndex
     = Inr (filter (\<lambda>i. maps_to_set (node_address base i) setIndex) [0..<ARRAY_ENTRIES])"
    using FindCandidates_loop_filter [OF assms(3,2), of 0 "[]"] by (simp add: FindCandidates_def)
  show "GetEvictionSet array_in setIndex base shuffle tm h0
     = GetEvictionSet_from
         (filter (\<lambda>i. maps_to_set (node_address base i) setIndex) [0..<ARRAY_ENTRIES])
         base shuffle tm h0"
    unfolding GetEvictionSet_def using assms(1,2) by (simp add: fc)
  show "GetEvictionSet_from candidates base shuffle tm h0 = Some (Inl InsufficientCandidates)
        \<longleftrightarrow> length candidates < 2 * LLC_BANKS * WAYS_PER_BANK"
    by (rule GetEvictionSet_from_insufficient)
qed

theorem insufficient_candidates_witness:
  "GetEvictionSet_from [] 0x7F3A40000000 (\<lambda>n. [0..<n]) good_timer
       \<lparr>next_of = (\<lambda>i. 0), prev_of = (\<lambda>i. 0)\<rparr> = Some (Inl InsufficientCandidates)
   \<and> GetEvictionSet 0 27 0x7F3A40000000 (\<lambda>n. [0..<n]) good_timer
       \<lparr>next_of = (\<lambda>i. 0), prev_of = (\<lambda>i. 0)\<rparr> \<noteq> Some (Inl InsufficientCandidates)"
proof -
  let ?h0 = "\<lparr>next_of = (\<lambda>i. 0), prev_of = (\<lambda>i. 0)\<rparr>"
  let ?cs = "filter (\<lambda>i. maps_to_set (node_address 0x7F3A40000000 i) 27) [0..<ARRAY_ENTRIES]"
  have a: "(0x7F3A40000000 :: 64 word) AND CACHE_LINE_BITS = 0"
    by (simp add: CACHE_LINE_BITS_def)
  have b: "(27 :: 64 word) < SETS_PER_BANK"
    by (simp add: SETS_PER_BANK_def)
  note t1 = insufficient_candidates [OF refl b a, of "\<lambda>n. [0..<n]" good_timer ?h0 "[]"]
  note t2 = insufficient_candidates [OF refl b a, of "\<lambda>n. [0..<n]" good_timer ?h0 ?cs]
  from FindCandidates_count t2 have l: "length ?cs = 512" by auto
  have "\<not> length ?cs < 2 * LLC_BANKS * WAYS_PER_BANK"
    unfolding l by (simp add: LLC_BANKS_def WAYS_PER_BANK_def)
  with t2 have "GetEvictionSet 0 27 0x7F3A40000000 (\<lambda>n. [0..<n]) good_timer ?h0
      \<noteq> Some (Inl InsufficientCandidates)" by (simp only: simp_thms)
  moreover from t1 have "GetEvictionSet_from [] 0x7F3A40000000 (\<lambda>n. [0..<n]) good_timer ?h0
      = Some (Inl InsufficientCandidates)"
    by (simp add: LLC_BANKS_def WAYS_PER_BANK_def)
  ultimately show ?thesis by (rule conjI [rotated])
qed


section \<open>Dependence on the readings\<close>

lemma agree_sub: "agree tm tm' k k' \<Longrightarrow> k \<le> a \<Longrightarrow> b \<le> k' \<Longrightarrow> agree tm tm' a b"
  by (simp add: agree_def)

lemma agree_at: "agree tm tm' k k' \<Longrightarrow> k \<le> j \<Longrightarrow> j < k' \<Longrightarrow> tm' j = tm j"
  by (simp add: agree_def)

lemma Probe_agree:
  assumes "Probe tm k h s c = Some (b, k')" "agree tm tm' k k'"
  shows "Probe tm' k h' s' c' = Some (b, k')"
proof -
  from assms(1) obtain t where l: "Probe_loop tm k 0 = Some (t, k')"
    and b: "b = (t > LLC_CYCLE_THRESHOLD)"
    by (auto simp: Probe_def split: Option.bind_splits)
  from Probe_loop_returns [OF l, unfolded Probe_loop_post_def] not_plausible_0
  have p: "plausible t" "k < k'" "t = tm (k' - 1)"
    "\<forall>j. k \<le> j \<and> j < k' - 1 \<longrightarrow> \<not> plausible (tm j)"
    by auto
  define n where "n = k' - 1 - k"
  have kn: "k + n = k' - 1" "k + n + 1 = k'" using p(2) by (auto simp: n_def)
  have 1: "\<forall>j<n. \<not> plausible (tm' (k + j))"
  proof (intro allI impI)
    fix j assume "j < n"
    then have "k \<le> k + j" "k + j < k' - 1" using kn by simp_all
    then show "\<not> plausible (tm' (k + j))"
      using p(4) agree_at [OF assms(2), of "k + j"] by simp
  qed
  have "tm' (k + n) = tm (k + n)"
    by (rule agree_at [OF assms(2)]) (use kn p(2) in simp_all)
  then have 2: "plausible (tm' (k + n))" using p(1,3) kn by simp
  from Probe_loop_run [OF not_plausible_0 1 2] \<open>tm' (k + n) = tm (k + n)\<close>
  show ?thesis using b p(3) kn by (simp add: Probe_def)
qed

lemma warmup_agree:
  "warmup tm k h a c n = Some k' \<Longrightarrow> agree tm tm' k k' \<Longrightarrow> warmup tm' k h a c n = Some k'"
proof (induction n arbitrary: k)
  case 0
  then show ?case by simp
next
  case (Suc n)
  from Suc.prems(1) obtain y where pr: "Probe tm k h a c = Some y"
    and r0: "(case y of (missToDRAM, k1) \<Rightarrow> warmup tm k1 h a c n) = Some k'"
    by (simp only: warmup.simps) (rule bind_SomeE)
  obtain m k1 where y: "y = (m, k1)" by (cases y)
  from r0 y have w: "warmup tm k1 h a c n = Some k'" by simp
  have k1: "k < k1" "k1 \<le> k'" using Probe_mono pr y warmup_mono [OF w] by blast+
  have "Probe tm' k h a c = Some (m, k1)"
    by (rule Probe_agree [OF pr [unfolded y]]) (rule agree_sub [OF Suc.prems(2)], use k1 in simp_all)
  moreover have "warmup tm' k1 h a c n = Some k'"
    by (rule Suc.IH [OF w]) (rule agree_sub [OF Suc.prems(2)], use k1 in simp_all)
  ultimately show ?case by simp
qed

lemma grow_conflict_set_agree:
  assumes "grow_conflict_set tm k h a count c cdh = Some r"
  shows "k \<le> fst r \<and>
    (\<forall>tm'. agree tm tm' k (fst r) \<longrightarrow> grow_conflict_set tm' k h a count c cdh = Some r)"
proof (rule grow_conflict_set.raw_induct
    [where P = "\<lambda>tm k h a count c cdh r. k \<le> fst r \<and>
       (\<forall>tm'. agree tm tm' k (fst r) \<longrightarrow> grow_conflict_set tm' k h a count c cdh = Some r)",
      OF _ assms])
  fix f tm k h a count c cdh r
  assume ih: "\<And>tm k h a count c cdh r. f tm k h a count c cdh = Some r
                \<Longrightarrow> k \<le> fst r \<and>
       (\<forall>tm'. agree tm tm' k (fst r) \<longrightarrow> grow_conflict_set tm' k h a count c cdh = Some r)"
    and eq: "(if count < CONFLICT_SET_SIZE then
        do { (missToDRAM, k') \<leftarrow> Probe tm k h a c;
             if \<not> missToDRAM then
               (case move_to_conflict_set h c cdh a of
                  (h', nextCandidate, candidateSetHead') \<Rightarrow>
                    f tm k' h' a (count + 1) nextCandidate candidateSetHead')
             else f tm k' h a count (next_of h c) cdh }
      else Some (k, h, cdh)) = Some r"
  show "k \<le> fst r \<and>
       (\<forall>tm'. agree tm tm' k (fst r) \<longrightarrow> grow_conflict_set tm' k h a count c cdh = Some r)"
  proof (cases "count < CONFLICT_SET_SIZE")
    case False
    with eq have r: "r = (k, h, cdh)" by simp
    have "grow_conflict_set tm' k h a count c cdh = Some r" for tm'
      using False r by (subst grow_conflict_set.simps) simp
    with r show ?thesis by simp
  next
    case True
    with eq obtain y where pr: "Probe tm k h a c = Some y"
      and r0: "(case y of (missToDRAM, k') \<Rightarrow>
             if \<not> missToDRAM then
               (case move_to_conflict_set h c cdh a of
                  (h', nextCandidate, candidateSetHead') \<Rightarrow>
                    f tm k' h' a (count + 1) nextCandidate candidateSetHead')
             else f tm k' h a count (next_of h c) cdh) = Some r"
      by (simp only: if_True) (erule bind_SomeE)
    obtain m k1 where y: "y = (m, k1)" by (cases y)
    obtain h' nc cdh' where mv: "move_to_conflict_set h c cdh a = (h', nc, cdh')"
      by (cases "move_to_conflict_set h c cdh a")
    have k1: "k < k1" using Probe_mono pr y by blast
    show ?thesis
    proof (cases m)
      case True
      with r0 y have rec: "f tm k1 h a count (next_of h c) cdh = Some r" by simp
      note i = ih [OF rec]
      have "grow_conflict_set tm' k h a count c cdh = Some r" if ag: "agree tm tm' k (fst r)" for tm'
      proof -
        have p: "Probe tm' k h a c = Some (m, k1)"
          by (rule Probe_agree [OF pr [unfolded y]]) (rule agree_sub [OF ag], use k1 i in simp_all)
        have "grow_conflict_set tm' k1 h a count (next_of h c) cdh = Some r"
          using i agree_sub [OF ag, of k1 "fst r"] k1 by simp
        with p True \<open>count < CONFLICT_SET_SIZE\<close> show ?thesis
          by (subst grow_conflict_set.simps) simp
      qed
      with i k1 show ?thesis by simp
    next
      case False
      with r0 y mv have rec: "f tm k1 h' a (count + 1) nc cdh' = Some r" by simp
      note i = ih [OF rec]
      have "grow_conflict_set tm' k h a count c cdh = Some r" if ag: "agree tm tm' k (fst r)" for tm'
      proof -
        have p: "Probe tm' k h a c = Some (m, k1)"
          by (rule Probe_agree [OF pr [unfolded y]]) (rule agree_sub [OF ag], use k1 i in simp_all)
        have "grow_conflict_set tm' k1 h' a (count + 1) nc cdh' = Some r"
          using i agree_sub [OF ag, of k1 "fst r"] k1 by simp
        with p False mv \<open>count < CONFLICT_SET_SIZE\<close> show ?thesis
          by (subst grow_conflict_set.simps) simp
      qed
      with i k1 show ?thesis by simp
    qed
  qed
qed


lemma SanityCheckConflictSet_agree:
  assumes "SanityCheckConflictSet tm k = Inr k'"
  shows "k' = k + 1" "tm' k = tm k \<Longrightarrow> SanityCheckConflictSet tm' k = Inr k'"
  using assms by (auto simp: SanityCheckConflictSet_def Let_def split: if_splits)

lemma BuildConflictSet_InrE:
  assumes ret: "BuildConflictSet tm k h candidates = Some (Inr (k', h', csh, cdh))"
  obtains hs cd0 kw kg where
    "seed_conflict_set h (hd candidates) = (hs, csh, cd0)"
    "SizeOfLinkedList hs csh = Some WAYS_PER_BANK"
    "SizeOfLinkedList hs cd0 = Some (length candidates - WAYS_PER_BANK)"
    "warmup tm k hs csh cd0 10 = Some kw"
    "grow_conflict_set tm kw hs csh WAYS_PER_BANK cd0 cd0 = Some (kg, h', cdh)"
    "SizeOfLinkedList h' csh = Some CONFLICT_SET_SIZE"
    "SanityCheckConflictSet tm kg = Inr k'"
    "SizeOfLinkedList h' cdh = Some (length candidates - CONFLICT_SET_SIZE)"
proof -
  obtain hs cs0 cd0 where seed: "seed_conflict_set h (hd candidates) = (hs, cs0, cd0)"
    by (cases "seed_conflict_set h (hd candidates)")
  from ret [unfolded BuildConflictSet_def seed prod.case] obtain n1 where
    s1: "SizeOfLinkedList hs cs0 = Some n1" and
    r1: "(if n1 \<noteq> WAYS_PER_BANK then Some (Inl SeedSizeMismatch) else
           do { count \<leftarrow> SizeOfLinkedList hs cd0;
                if count \<noteq> length candidates - WAYS_PER_BANK then Some (Inl LeftoverSizeMismatch) else
                do { k \<leftarrow> warmup tm k hs cs0 cd0 10;
                     (k, h, candidateSetHead) \<leftarrow>
                        grow_conflict_set tm k hs cs0 WAYS_PER_BANK cd0 cd0;
                     count \<leftarrow> SizeOfLinkedList h cs0;
                     if count \<noteq> CONFLICT_SET_SIZE then Some (Inl ConflictSizeMismatch) else
                     (case SanityCheckConflictSet tm k of
                        Inl e \<Rightarrow> Some (Inl e)
                      | Inr k \<Rightarrow>
                        do { count \<leftarrow> SizeOfLinkedList h candidateSetHead;
                             if count \<noteq> length candidates - CONFLICT_SET_SIZE
                             then Some (Inl LeftoverSizeMismatch)
                             else Some (Inr (k, h, cs0, candidateSetHead)) }) } })
         = Some (Inr (k', h', csh, cdh))"
    by (rule bind_SomeE)
  from r1 have n1: "n1 = WAYS_PER_BANK" by (simp split: if_splits)
  from r1 [unfolded n1] obtain n2 where
    s2: "SizeOfLinkedList hs cd0 = Some n2" and
    r2: "(if n2 \<noteq> length candidates - WAYS_PER_BANK then Some (Inl LeftoverSizeMismatch) else
                do { k \<leftarrow> warmup tm k hs cs0 cd0 10;
                     (k, h, candidateSetHead) \<leftarrow>
                        grow_conflict_set tm k hs cs0 WAYS_PER_BANK cd0 cd0;
                     count \<leftarrow> SizeOfLinkedList h cs0;
                     if count \<noteq> CONFLICT_SET_SIZE then Some (Inl ConflictSizeMismatch) else
                     (case SanityCheckConflictSet tm k of
                        Inl e \<Rightarrow> Some (Inl e)
                      | Inr k \<Rightarrow>
                        do { count \<leftarrow> SizeOfLinkedList h candidateSetHead;
                             if count \<noteq> length candidates - CONFLICT_SET_SIZE
                             then Some (Inl LeftoverSizeMismatch)
                             else Some (Inr (k, h, cs0, candidateSetHead)) }) })
         = Some (Inr (k', h', csh, cdh))"
    by (simp only: simp_thms if_False) (erule bind_SomeE)
  from r2 have n2: "n2 = length candidates - WAYS_PER_BANK" by (simp split: if_splits)
  from r2 [unfolded n2] obtain kw where
    w: "warmup tm k hs cs0 cd0 10 = Some kw" and
    r3: "do { (k, h, candidateSetHead) \<leftarrow>
                        grow_conflict_set tm kw hs cs0 WAYS_PER_BANK cd0 cd0;
                     count \<leftarrow> SizeOfLinkedList h cs0;
                     if count \<noteq> CONFLICT_SET_SIZE then Some (Inl ConflictSizeMismatch) else
                     (case SanityCheckConflictSet tm k of
                        Inl e \<Rightarrow> Some (Inl e)
                      | Inr k \<Rightarrow>
                        do { count \<leftarrow> SizeOfLinkedList h candidateSetHead;
                             if count \<noteq> length candidates - CONFLICT_SET_SIZE
                             then Some (Inl LeftoverSizeMismatch)
                             else Some (Inr (k, h, cs0, candidateSetHead)) }) }
         = Some (Inr (k', h', csh, cdh))"
    by (simp only: simp_thms if_False) (erule bind_SomeE)
  from r3 obtain gr where
    g0: "grow_conflict_set tm kw hs cs0 WAYS_PER_BANK cd0 cd0 = Some gr" and
    r4: "(case gr of (k, h, candidateSetHead) \<Rightarrow>
          do { count \<leftarrow> SizeOfLinkedList h cs0;
                     if count \<noteq> CONFLICT_SET_SIZE then Some (Inl ConflictSizeMismatch) else
                     (case SanityCheckConflictSet tm k of
                        Inl e \<Rightarrow> Some (Inl e)
                      | Inr k \<Rightarrow>
                        do { count \<leftarrow> SizeOfLinkedList h candidateSetHead;
                             if count \<noteq> length candidates - CONFLICT_SET_SIZE
                             then Some (Inl LeftoverSizeMismatch)
                             else Some (Inr (k, h, cs0, candidateSetHead)) }) })
         = Some (Inr (k', h', csh, cdh))"
    by (rule bind_SomeE)
  obtain kg hg cg where gr: "gr = (kg, hg, cg)" by (cases gr)
  from r4 [unfolded gr prod.case] obtain n3 where
    s3: "SizeOfLinkedList hg cs0 = Some n3" and
    r5: "(if n3 \<noteq> CONFLICT_SET_SIZE then Some (Inl ConflictSizeMismatch) else
            (case SanityCheckConflictSet tm kg of
               Inl e \<Rightarrow> Some (Inl e)
             | Inr k \<Rightarrow>
               do { count \<leftarrow> SizeOfLinkedList hg cg;
                    if count \<noteq> length candidates - CONFLICT_SET_SIZE
                    then Some (Inl LeftoverSizeMismatch)
                    else Some (Inr (k, hg, cs0, cg)) }))
         = Some (Inr (k', h', csh, cdh))"
    by (rule bind_SomeE)
  from r5 have n3: "n3 = CONFLICT_SET_SIZE" by (simp split: if_splits)
  from r5 [unfolded n3] obtain k3 where sc: "SanityCheckConflictSet tm kg = Inr k3" and
    r6: "do { count \<leftarrow> SizeOfLinkedList hg cg;
                    if count \<noteq> length candidates - CONFLICT_SET_SIZE
                    then Some (Inl LeftoverSizeMismatch)
                    else Some (Inr (k3, hg, cs0, cg)) }
         = Some (Inr (k', h', csh, cdh))"
    by (cases "SanityCheckConflictSet tm kg") (simp_all split: if_splits)
  from r6 obtain n4 where
    s4: "SizeOfLinkedList hg cg = Some n4" and
    r7: "(if n4 \<noteq> length candidates - CONFLICT_SET_SIZE
                    then Some (Inl LeftoverSizeMismatch)
                    else Some (Inr (k3, hg, cs0, cg)))
         = Some (Inr (k', h', csh, cdh))"
    by (rule bind_SomeE)
  from r7 have e: "n4 = length candidates - CONFLICT_SET_SIZE" "k3 = k'" "hg = h'" "cs0 = csh"
    "cg = cdh"
    by (simp_all split: if_splits)
  show thesis
    by (rule that [OF seed [unfolded e] s1 [unfolded n1 e] s2 [unfolded n2 e] w [unfolded e]
          g0 [unfolded gr e] s3 [unfolded n3 e] sc [unfolded e] s4 [unfolded e]])
qed

lemma BuildConflictSet_agree:
  assumes ret: "BuildConflictSet tm k h candidates = Some (Inr (k', h', csh, cdh))"
    and ag: "agree tm tm' k k'"
  shows "BuildConflictSet tm' k h candidates = Some (Inr (k', h', csh, cdh))" "k \<le> k'"
proof -
  from ret obtain hs cd0 kw kg where
    seed: "seed_conflict_set h (hd candidates) = (hs, csh, cd0)"
    and s1: "SizeOfLinkedList hs csh = Some WAYS_PER_BANK"
    and s2: "SizeOfLinkedList hs cd0 = Some (length candidates - WAYS_PER_BANK)"
    and w: "warmup tm k hs csh cd0 10 = Some kw"
    and g: "grow_conflict_set tm kw hs csh WAYS_PER_BANK cd0 cd0 = Some (kg, h', cdh)"
    and s3: "SizeOfLinkedList h' csh = Some CONFLICT_SET_SIZE"
    and sc: "SanityCheckConflictSet tm kg = Inr k'"
    and s4: "SizeOfLinkedList h' cdh = Some (length candidates - CONFLICT_SET_SIZE)"
    by (rule BuildConflictSet_InrE)
  note ga = grow_conflict_set_agree [OF g]
  have k: "k \<le> kw" "kw \<le> kg" "k' = kg + 1"
    using warmup_mono [OF w] ga SanityCheckConflictSet_agree(1) [OF sc] by simp_all
  show "k \<le> k'" using k by simp
  have w': "warmup tm' k hs csh cd0 10 = Some kw"
    by (rule warmup_agree [OF w]) (rule agree_sub [OF ag], use k in simp_all)
  have g': "grow_conflict_set tm' kw hs csh WAYS_PER_BANK cd0 cd0 = Some (kg, h', cdh)"
    using ga agree_sub [OF ag, of kw kg] k by simp
  have "tm' kg = tm kg" by (rule agree_at [OF ag]) (use k in simp_all)
  note sc' = SanityCheckConflictSet_agree(2) [of tm kg k' tm', OF sc this]
  show "BuildConflictSet tm' k h candidates = Some (Inr (k', h', csh, cdh))"
    unfolding BuildConflictSet_def using seed s1 s2 w' g' s3 sc' s4 by simp
qed


lemma drop_hits_agree:
  assumes "drop_hits tm k h csh c miss = Some r"
  shows "case r of Inl e \<Rightarrow> True
         | Inr (k', x) \<Rightarrow> k \<le> k' \<and>
             (\<forall>tm'. agree tm tm' k k' \<longrightarrow> drop_hits tm' k h csh c miss = Some r)"
proof (rule drop_hits.raw_induct
    [where P = "\<lambda>tm k h csh c miss r. case r of Inl e \<Rightarrow> True
         | Inr (k', x) \<Rightarrow> k \<le> k' \<and>
             (\<forall>tm'. agree tm tm' k k' \<longrightarrow> drop_hits tm' k h csh c miss = Some r)",
      OF _ assms])
  fix f tm k h csh c miss r
  assume ih: "\<And>tm k h csh c miss r. f tm k h csh c miss = Some r
                \<Longrightarrow> (case r of Inl e \<Rightarrow> True
         | Inr (k', x) \<Rightarrow> k \<le> k' \<and>
             (\<forall>tm'. agree tm tm' k k' \<longrightarrow> drop_hits tm' k h csh c miss = Some r))"
    and eq: "(if \<not> miss then
        if \<not> next_of h c \<noteq> c then Some (Inl CandidatesExhausted)
        else
          (let h = unlink h c;
               candidate = next_of h c
           in do { (missToDRAM, k') \<leftarrow> Probe tm k h csh candidate;
                   f tm k' h csh candidate missToDRAM })
      else Some (Inr (k, h, c))) = Some r"
  show "case r of Inl e \<Rightarrow> True
         | Inr (k', x) \<Rightarrow> k \<le> k' \<and>
             (\<forall>tm'. agree tm tm' k k' \<longrightarrow> drop_hits tm' k h csh c miss = Some r)"
  proof (cases r)
    case (Inl e)
    then show ?thesis by simp
  next
    case (Inr t)
    obtain k' x where t: "t = (k', x)" by (cases t)
    note r = Inr [unfolded t]
    show ?thesis
    proof (cases miss)
      case True
      with eq r have e: "k' = k" "x = (h, c)" by simp_all
      have "drop_hits tm' k h csh c miss = Some r" for tm'
        using True r e by (subst drop_hits.simps) simp
      with e r show ?thesis by simp
    next
      case False
      with eq r have nx: "next_of h c \<noteq> c" by (auto split: if_splits)
      let ?u = "unlink h c"
      let ?c = "next_of ?u c"
      from eq False nx obtain y where pr: "Probe tm k ?u csh ?c = Some y"
        and rec0: "(case y of (m, k1) \<Rightarrow> f tm k1 ?u csh ?c m) = Some r"
        by (simp add: Let_def) (erule bind_SomeE)
      obtain m k1 where y: "y = (m, k1)" by (cases y)
      from rec0 y have rec: "f tm k1 ?u csh ?c m = Some r" by simp
      have k1: "k < k1" using Probe_mono pr y by blast
      from ih [OF rec] r have i: "k1 \<le> k'"
        "\<And>tm'. agree tm tm' k1 k' \<Longrightarrow> drop_hits tm' k1 ?u csh ?c m = Some r" by simp_all
      have "drop_hits tm' k h csh c miss = Some r" if ag: "agree tm tm' k k'" for tm'
      proof -
        have p: "Probe tm' k ?u csh ?c = Some (m, k1)"
          by (rule Probe_agree [OF pr [unfolded y]]) (rule agree_sub [OF ag], use k1 i in simp_all)
        have "drop_hits tm' k1 ?u csh ?c m = Some r"
          by (rule i(2)) (rule agree_sub [OF ag], use k1 in simp_all)
        with p False nx show ?thesis
          by (subst drop_hits.simps) (simp add: Let_def)
      qed
      with i k1 r show ?thesis by simp
    qed
  qed
qed

lemma confirm_candidate_agree:
  "confirm_candidate tm k h csh c n = Some (Inr (k', x)) \<Longrightarrow>
     k \<le> k' \<and> (\<forall>tm'. agree tm tm' k k' \<longrightarrow> confirm_candidate tm' k h csh c n = Some (Inr (k', x)))"
proof (induction n arbitrary: k)
  case 0
  then show ?case by simp
next
  case (Suc n)
  from Suc.prems obtain y where pr: "Probe tm k h csh c = Some y"
    and r0: "(case y of (miss, k1) \<Rightarrow>
          if \<not> miss then
            if \<not> next_of h c \<noteq> c then Some (Inl CandidatesExhausted)
            else
              (let h = unlink h c;
                   candidate = next_of h c
               in Some (Inr (k1, h, candidate, False)))
          else confirm_candidate tm k1 h csh c n) = Some (Inr (k', x))"
    by (simp only: confirm_candidate.simps) (rule bind_SomeE)
  obtain m k1 where y: "y = (m, k1)" by (cases y)
  have k1: "k < k1" using Probe_mono pr y by blast
  show ?case
  proof (cases m)
    case True
    with r0 y have rec: "confirm_candidate tm k1 h csh c n = Some (Inr (k', x))" by simp
    note i = Suc.IH [OF rec]
    have "confirm_candidate tm' k h csh c (Suc n) = Some (Inr (k', x))"
      if ag: "agree tm tm' k k'" for tm'
    proof -
      have p: "Probe tm' k h csh c = Some (m, k1)"
        by (rule Probe_agree [OF pr [unfolded y]]) (rule agree_sub [OF ag], use k1 i in simp_all)
      have "confirm_candidate tm' k1 h csh c n = Some (Inr (k', x))"
        using i agree_sub [OF ag, of k1 k'] k1 by simp
      with p True show ?thesis by simp
    qed
    with i k1 show ?thesis by simp
  next
    case False
    with r0 y have nx: "next_of h c \<noteq> c" and e: "k' = k1"
      and res: "Some (Inr (k1, unlink h c, next_of (unlink h c) c, False)) = Some (Inr (k', x))"
      by (auto simp: Let_def split: if_splits)
    have "confirm_candidate tm' k h csh c (Suc n) = Some (Inr (k', x))"
      if ag: "agree tm tm' k k'" for tm'
    proof -
      have p: "Probe tm' k h csh c = Some (m, k1)"
        by (rule Probe_agree [OF pr [unfolded y]]) (rule agree_sub [OF ag], use k1 e in simp_all)
      with False nx res show ?thesis by (simp add: Let_def)
    qed
    with e k1 show ?thesis by simp
  qed
qed


lemma find_witness_agree:
  assumes "find_witness tm k h csh c = Some r"
  shows "case r of Inl e \<Rightarrow> True
         | Inr (k', x) \<Rightarrow> k \<le> k' \<and>
             (\<forall>tm'. agree tm tm' k k' \<longrightarrow> find_witness tm' k h csh c = Some r)"
proof (rule find_witness.raw_induct
    [where P = "\<lambda>tm k h csh c r. case r of Inl e \<Rightarrow> True
         | Inr (k', x) \<Rightarrow> k \<le> k' \<and>
             (\<forall>tm'. agree tm tm' k k' \<longrightarrow> find_witness tm' k h csh c = Some r)",
      OF _ assms])
  fix f tm k h csh c r
  assume ih: "\<And>tm k h csh c r. f tm k h csh c = Some r
                \<Longrightarrow> (case r of Inl e \<Rightarrow> True
         | Inr (k', x) \<Rightarrow> k \<le> k' \<and>
             (\<forall>tm'. agree tm tm' k k' \<longrightarrow> find_witness tm' k h csh c = Some r))"
    and eq: "do { (missToDRAM, k1) \<leftarrow> Probe tm k h csh c;
          r \<leftarrow> drop_hits tm k1 h csh c missToDRAM;
          case r of
            Inl e \<Rightarrow> Some (Inl e)
          | Inr (k2, h2, candidate2) \<Rightarrow>
              do { r' \<leftarrow> confirm_candidate tm k2 h2 csh candidate2 100;
                   case r' of
                     Inl e \<Rightarrow> Some (Inl e)
                   | Inr (k3, h3, candidate3, foundCandidate) \<Rightarrow>
                       if foundCandidate then Some (Inr (k3, h3, candidate3))
                       else f tm k3 h3 csh candidate3 } } = Some r"
  show "case r of Inl e \<Rightarrow> True
         | Inr (k', x) \<Rightarrow> k \<le> k' \<and>
             (\<forall>tm'. agree tm tm' k k' \<longrightarrow> find_witness tm' k h csh c = Some r)"
  proof (cases r)
    case (Inl e)
    then show ?thesis by simp
  next
    case (Inr t)
    obtain k' x where t: "t = (k', x)" by (cases t)
    note r = Inr [unfolded t]
    from eq obtain y where pr: "Probe tm k h csh c = Some y" and
      c1: "(case y of (missToDRAM, k1) \<Rightarrow>
          do { r \<leftarrow> drop_hits tm k1 h csh c missToDRAM;
          case r of
            Inl e \<Rightarrow> Some (Inl e)
          | Inr (k2, h2, candidate2) \<Rightarrow>
              do { r' \<leftarrow> confirm_candidate tm k2 h2 csh candidate2 100;
                   case r' of
                     Inl e \<Rightarrow> Some (Inl e)
                   | Inr (k3, h3, candidate3, foundCandidate) \<Rightarrow>
                       if foundCandidate then Some (Inr (k3, h3, candidate3))
                       else f tm k3 h3 csh candidate3 } }) = Some r"
      by (rule bind_SomeE)
    obtain m k1 where y: "y = (m, k1)" by (cases y)
    have k1: "k < k1" using Probe_mono pr y by blast
    from c1 [unfolded y] obtain d where dh: "drop_hits tm k1 h csh c m = Some d"
      and c2: "(case d of
            Inl e \<Rightarrow> Some (Inl e)
          | Inr (k2, h2, candidate2) \<Rightarrow>
              do { r' \<leftarrow> confirm_candidate tm k2 h2 csh candidate2 100;
                   case r' of
                     Inl e \<Rightarrow> Some (Inl e)
                   | Inr (k3, h3, candidate3, foundCandidate) \<Rightarrow>
                       if foundCandidate then Some (Inr (k3, h3, candidate3))
                       else f tm k3 h3 csh candidate3 }) = Some r"
      by simp (erule bind_SomeE)
    from c2 r obtain k2 h2 c2' where d: "d = Inr (k2, h2, c2')"
      by (cases d) auto
    from drop_hits_agree [OF dh] d have dk: "k1 \<le> k2"
      and da: "\<And>tm'. agree tm tm' k1 k2 \<Longrightarrow> drop_hits tm' k1 h csh c m = Some d" by simp_all
    from c2 [unfolded d] obtain r' where cc: "confirm_candidate tm k2 h2 csh c2' 100 = Some r'"
      and c3: "(case r' of
                     Inl e \<Rightarrow> Some (Inl e)
                   | Inr (k3, h3, candidate3, foundCandidate) \<Rightarrow>
                       if foundCandidate then Some (Inr (k3, h3, candidate3))
                       else f tm k3 h3 csh candidate3) = Some r"
      by simp (erule bind_SomeE)
    from c3 r obtain k3 h3 c3' found where r': "r' = Inr (k3, h3, c3', found)"
      by (cases r') auto
    from confirm_candidate_agree [OF cc [unfolded r']] have ck: "k2 \<le> k3"
      and ca: "\<And>tm'. agree tm tm' k2 k3 \<Longrightarrow> confirm_candidate tm' k2 h2 csh c2' 100 = Some r'"
      unfolding r' by simp_all
    show ?thesis
    proof (cases found)
      case True
      with c3 r' r have e: "k' = k3" "x = (h3, c3')" by simp_all
      have "find_witness tm' k h csh c = Some r" if ag: "agree tm tm' k k'" for tm'
      proof -
        have p: "Probe tm' k h csh c = Some (m, k1)"
          by (rule Probe_agree [OF pr [unfolded y]])
             (rule agree_sub [OF ag], use k1 dk ck e in simp_all)
        have d': "drop_hits tm' k1 h csh c m = Some d"
          by (rule da) (rule agree_sub [OF ag], use k1 dk ck e in simp_all)
        have c': "confirm_candidate tm' k2 h2 csh c2' 100 = Some r'"
          by (rule ca) (rule agree_sub [OF ag], use k1 dk ck e in simp_all)
        show ?thesis
          using p d' c' d r' True r e by (subst find_witness.simps) simp
      qed
      with e k1 dk ck r show ?thesis by simp
    next
      case False
      with c3 r' have rec: "f tm k3 h3 csh c3' = Some r" by simp
      from ih [OF rec] r have i: "k3 \<le> k'"
        "\<And>tm'. agree tm tm' k3 k' \<Longrightarrow> find_witness tm' k3 h3 csh c3' = Some r" by simp_all
      have "find_witness tm' k h csh c = Some r" if ag: "agree tm tm' k k'" for tm'
      proof -
        have p: "Probe tm' k h csh c = Some (m, k1)"
          by (rule Probe_agree [OF pr [unfolded y]])
             (rule agree_sub [OF ag], use k1 dk ck i in simp_all)
        have d': "drop_hits tm' k1 h csh c m = Some d"
          by (rule da) (rule agree_sub [OF ag], use k1 dk ck i in simp_all)
        have c': "confirm_candidate tm' k2 h2 csh c2' 100 = Some r'"
          by (rule ca) (rule agree_sub [OF ag], use k1 dk ck i in simp_all)
        have f': "find_witness tm' k3 h3 csh c3' = Some r"
          by (rule i(2)) (rule agree_sub [OF ag], use k1 dk ck i in simp_all)
        show ?thesis
          using p d' c' f' d r' False by (subst find_witness.simps) simp
      qed
      with i k1 dk ck r show ?thesis by simp
    qed
  qed
qed

lemma test_node_agree:
  assumes "test_node tm k h c t es = Some (k', x)"
  shows "k < k'" "agree tm tm' k k' \<Longrightarrow> test_node tm' k h c t es = Some (k', x)"
proof -
  let ?h1 = "set_next h (prev_of h t) (next_of h t)"
  let ?h2 = "set_prev ?h1 (next_of ?h1 t) (prev_of ?h1 t)"
  from assms obtain y where pr: "Probe tm k ?h2 (next_of ?h2 t) c = Some y"
    and r0: "(case y of (missToDRAM, k') \<Rightarrow>
              let h = set_next ?h2 (prev_of ?h2 t) t;
                  h = set_prev h (next_of h t) t;
                  evictionSet = (if \<not> missToDRAM then set_insert t es else es)
              in Some (k', h, next_of h t, evictionSet)) = Some (k', x)"
    unfolding test_node_def Let_def by (rule bind_SomeE) (simp add: Let_def)
  obtain m k1 where y: "y = (m, k1)" by (cases y)
  from r0 y have e: "k1 = k'" by (simp add: Let_def)
  show "k < k'" using Probe_mono pr y e by blast
  assume ag: "agree tm tm' k k'"
  have "Probe tm' k ?h2 (next_of ?h2 t) c = Some (m, k1)"
    by (rule Probe_agree [OF pr [unfolded y]]) (use ag e in simp)
  with r0 y show "test_node tm' k h c t es = Some (k', x)"
    unfolding test_node_def Let_def by simp
qed

lemma isolate_slice_agree:
  assumes "isolate_slice tm k h c t es = Some r"
  shows "k \<le> fst r \<and>
    (\<forall>tm'. agree tm tm' k (fst r) \<longrightarrow> isolate_slice tm' k h c t es = Some r)"
proof (rule isolate_slice.raw_induct
    [where P = "\<lambda>tm k h c t es r. k \<le> fst r \<and>
       (\<forall>tm'. agree tm tm' k (fst r) \<longrightarrow> isolate_slice tm' k h c t es = Some r)",
      OF _ assms])
  fix f tm k h c t es r
  assume ih: "\<And>tm k h c t es r. f tm k h c t es = Some r \<Longrightarrow> k \<le> fst r \<and>
       (\<forall>tm'. agree tm tm' k (fst r) \<longrightarrow> isolate_slice tm' k h c t es = Some r)"
    and eq: "(if length es < WAYS_PER_BANK then
        if t \<in> set es then f tm k h c (next_of h t) es
        else do { (k', h', t', es') \<leftarrow> test_node tm k h c t es;
                  f tm k' h' c t' es' }
      else Some (k, h, es)) = Some r"
  show "k \<le> fst r \<and>
       (\<forall>tm'. agree tm tm' k (fst r) \<longrightarrow> isolate_slice tm' k h c t es = Some r)"
  proof (cases "length es < WAYS_PER_BANK")
    case False
    with eq have r: "r = (k, h, es)" by simp
    have "isolate_slice tm' k h c t es = Some r" for tm'
      using False r by (subst isolate_slice.simps) simp
    with r show ?thesis by simp
  next
    case lt: True
    show ?thesis
    proof (cases "t \<in> set es")
      case True
      with eq lt have rec: "f tm k h c (next_of h t) es = Some r" by simp
      note i = ih [OF rec]
      have "isolate_slice tm' k h c t es = Some r" if ag: "agree tm tm' k (fst r)" for tm'
        using i ag lt True by (subst isolate_slice.simps) simp
      with i show ?thesis by simp
    next
      case False
      with eq lt obtain y where tn: "test_node tm k h c t es = Some y"
        and rec0: "(case y of (k', h', t', es') \<Rightarrow> f tm k' h' c t' es') = Some r"
        by simp (erule bind_SomeE)
      obtain k1 h1 t1 es1 where y: "y = (k1, h1, t1, es1)" by (cases y)
      from rec0 y have rec: "f tm k1 h1 c t1 es1 = Some r" by simp
      note i = ih [OF rec]
      note ta = test_node_agree [OF tn [unfolded y]]
      have "isolate_slice tm' k h c t es = Some r" if ag: "agree tm tm' k (fst r)" for tm'
      proof -
        have t': "test_node tm' k h c t es = Some (k1, h1, t1, es1)"
          by (rule ta(2)) (rule agree_sub [OF ag], use ta(1) i in simp_all)
        have "isolate_slice tm' k1 h1 c t1 es1 = Some r"
          using i agree_sub [OF ag, of k1 "fst r"] ta(1) by simp
        with t' lt False show ?thesis by (subst isolate_slice.simps) simp
      qed
      with i ta(1) show ?thesis by simp
    qed
  qed
qed


lemma partition_loop_agree:
  assumes "partition_loop tm k h heads c csh = Some r"
  shows "case r of Inl e \<Rightarrow> True
         | Inr (k', x) \<Rightarrow> k \<le> k' \<and>
             (\<forall>tm'. agree tm tm' k k' \<longrightarrow> partition_loop tm' k h heads c csh = Some r)"
proof (rule partition_loop.raw_induct
    [where P = "\<lambda>tm k h heads c csh r. case r of Inl e \<Rightarrow> True
         | Inr (k', x) \<Rightarrow> k \<le> k' \<and>
             (\<forall>tm'. agree tm tm' k k' \<longrightarrow> partition_loop tm' k h heads c csh = Some r)",
      OF _ assms])
  fix f tm k h heads c csh r
  assume ih: "\<And>tm k h heads c csh r. f tm k h heads c csh = Some r
                \<Longrightarrow> (case r of Inl e \<Rightarrow> True
         | Inr (k', x) \<Rightarrow> k \<le> k' \<and>
             (\<forall>tm'. agree tm tm' k k' \<longrightarrow> partition_loop tm' k h heads c csh = Some r))"
    and eq: "(if length heads < LLC_BANKS - 1 then
        do { r \<leftarrow> find_witness tm k h csh c;
             case r of
               Inl e \<Rightarrow> Some (Inl e)
             | Inr (k, h, candidate) \<Rightarrow>
                 do { (k, h, evictionSet) \<leftarrow> isolate_slice tm k h candidate csh [];
                      case splice_out h evictionSet csh of
                        (h, conflictSetHead) \<Rightarrow>
                          if \<not> next_of h candidate \<noteq> candidate then Some (Inl CandidatesExhausted)
                          else
                            (let h = unlink h candidate;
                                 candidate = next_of h candidate
                             in f tm k h (heads @ [hd evictionSet])
                                  candidate conflictSetHead) } }
      else Some (Inr (k, h, heads, csh))) = Some r"
  show "case r of Inl e \<Rightarrow> True
         | Inr (k', x) \<Rightarrow> k \<le> k' \<and>
             (\<forall>tm'. agree tm tm' k k' \<longrightarrow> partition_loop tm' k h heads c csh = Some r)"
  proof (cases r)
    case (Inl e)
    then show ?thesis by simp
  next
    case (Inr t)
    obtain k' x where t: "t = (k', x)" by (cases t)
    note r = Inr [unfolded t]
    show ?thesis
    proof (cases "length heads < LLC_BANKS - 1")
      case False
      with eq r have e: "k' = k" "x = (h, heads, csh)" by simp_all
      have "partition_loop tm' k h heads c csh = Some r" for tm'
        using False r e by (subst partition_loop.simps) simp
      with e r show ?thesis by simp
    next
      case lt: True
      with eq obtain w where fw: "find_witness tm k h csh c = Some w"
        and c1: "(case w of
               Inl e \<Rightarrow> Some (Inl e)
             | Inr (k, h, candidate) \<Rightarrow>
                 do { (k, h, evictionSet) \<leftarrow> isolate_slice tm k h candidate csh [];
                      case splice_out h evictionSet csh of
                        (h, conflictSetHead) \<Rightarrow>
                          if \<not> next_of h candidate \<noteq> candidate then Some (Inl CandidatesExhausted)
                          else
                            (let h = unlink h candidate;
                                 candidate = next_of h candidate
                             in f tm k h (heads @ [hd evictionSet])
                                  candidate conflictSetHead) }) = Some r"
        by (simp only: if_True) (erule bind_SomeE)
      from c1 r obtain k1 h1 c1' where w: "w = Inr (k1, h1, c1')"
        by (cases w) auto
      from find_witness_agree [OF fw] w have fk: "k \<le> k1"
        and fa: "\<And>tm'. agree tm tm' k k1 \<Longrightarrow> find_witness tm' k h csh c = Some w" by simp_all
      from c1 [unfolded w] obtain y where
        iso0: "isolate_slice tm k1 h1 c1' csh [] = Some y"
        and c2: "(case y of (k, h, evictionSet) \<Rightarrow>
                      case splice_out h evictionSet csh of
                        (h, conflictSetHead) \<Rightarrow>
                          if \<not> next_of h c1' \<noteq> c1' then Some (Inl CandidatesExhausted)
                          else
                            (let h = unlink h c1';
                                 candidate = next_of h c1'
                             in f tm k h (heads @ [hd evictionSet])
                                  candidate conflictSetHead)) = Some r"
        by simp (erule bind_SomeE)
      obtain k2 h2 es where y: "y = (k2, h2, es)" by (cases y)
      note iso = iso0 [unfolded y]
      from isolate_slice_agree [OF iso] have ik: "k1 \<le> k2"
        and ia: "\<And>tm'. agree tm tm' k1 k2 \<Longrightarrow> isolate_slice tm' k1 h1 c1' csh [] = Some (k2, h2, es)"
        by simp_all
      obtain h3 csh3 where sp: "splice_out h2 es csh = (h3, csh3)"
        by (cases "splice_out h2 es csh")
      from c2 [unfolded y] sp r have nx: "next_of h3 c1' \<noteq> c1'"
        by (auto split: if_splits)
      let ?u = "unlink h3 c1'"
      from c2 [unfolded y] sp nx have
        rec: "f tm k2 ?u (heads @ [hd es]) (next_of ?u c1') csh3 = Some r"
        by (simp add: Let_def)
      from ih [OF rec] r have i: "k2 \<le> k'"
        "\<And>tm'. agree tm tm' k2 k' \<Longrightarrow>
            partition_loop tm' k2 ?u (heads @ [hd es]) (next_of ?u c1') csh3 = Some r"
        by simp_all
      have "partition_loop tm' k h heads c csh = Some r" if ag: "agree tm tm' k k'" for tm'
      proof -
        have f': "find_witness tm' k h csh c = Some w"
          by (rule fa) (rule agree_sub [OF ag], use fk ik i in simp_all)
        have i': "isolate_slice tm' k1 h1 c1' csh [] = Some (k2, h2, es)"
          by (rule ia) (rule agree_sub [OF ag], use fk ik i in simp_all)
        have p': "partition_loop tm' k2 ?u (heads @ [hd es]) (next_of ?u c1') csh3 = Some r"
          by (rule i(2)) (rule agree_sub [OF ag], use fk ik i in simp_all)
        show ?thesis
          using lt f' i' p' w sp nx by (subst partition_loop.simps) (simp add: Let_def)
      qed
      with i fk ik r show ?thesis by simp
    qed
  qed
qed

lemma PartitionConflictSet_agree:
  assumes ret: "PartitionConflictSet tm k h csh cdh = Some (Inr (k', h', heads))"
    and ag: "agree tm tm' k k'"
  shows "PartitionConflictSet tm' k h csh cdh = Some (Inr (k', h', heads))" "k \<le> k'"
proof -
  from ret have "\<exists>x. partition_loop tm k h [] cdh csh = Some (Inr x) \<and>
      (case x of (k, h, evictionSetHeads, conflictSetHead) \<Rightarrow>
                  Some (Inr (k, h, evictionSetHeads @ [conflictSetHead])))
             = (Some (Inr (k', h', heads)) :: (abort + nat \<times> heap \<times> nat list) option)"
    unfolding PartitionConflictSet_def bindr_def by (auto split: option.splits sum.splits)
  then obtain x where pl: "partition_loop tm k h [] cdh csh = Some (Inr x)"
    and c1: "(case x of (k, h, evictionSetHeads, conflictSetHead) \<Rightarrow>
                  Some (Inr (k, h, evictionSetHeads @ [conflictSetHead])))
             = (Some (Inr (k', h', heads)) :: (abort + nat \<times> heap \<times> nat list) option)"
    by blast
  obtain k1 h1 hs csh' where x: "x = (k1, h1, hs, csh')" by (cases x)
  from c1 x have e: "k1 = k'" by simp
  from partition_loop_agree [OF pl] x e have kk: "k \<le> k'"
    and pa: "\<And>tm'. agree tm tm' k k' \<Longrightarrow> partition_loop tm' k h [] cdh csh = Some (Inr x)"
    by simp_all
  show "k \<le> k'" by (rule kk)
  from pa [OF ag] c1 show "PartitionConflictSet tm' k h csh cdh = Some (Inr (k', h', heads))"
    unfolding PartitionConflictSet_def bindr_def by simp
qed

lemma check_times_agree:
  "check_times tm k heads = Inr k' \<Longrightarrow>
     k' = k + length heads \<and> (agree tm tm' k k' \<longrightarrow> check_times tm' k heads = Inr k')"
proof (induction heads arbitrary: k)
  case Nil
  then show ?case by simp
next
  case (Cons p heads)
  from Cons.prems have t: "25 < tm k div 2400000 \<and> tm k div 2400000 < 55"
    and rec: "check_times tm (k + 1) heads = Inr k'"
    by (auto simp: Let_def LLC_BANKS_def WAYS_PER_BANK_def split: if_splits)
  note i = Cons.IH [OF rec]
  have "check_times tm' k (p # heads) = Inr k'" if ag: "agree tm tm' k k'"
  proof -
    have "tm' k = tm k" by (rule agree_at [OF ag]) (use i in simp_all)
    moreover have "check_times tm' (k + 1) heads = Inr k'"
      using i agree_sub [OF ag, of "k + 1" k'] by simp
    ultimately show ?thesis using t
      by (simp add: Let_def LLC_BANKS_def WAYS_PER_BANK_def)
  qed
  with i show ?case by simp
qed

lemma SanityCheckEvictionSets_agree:
  assumes ret: "SanityCheckEvictionSets tm k h heads = Some (Inr k')"
    and ag: "agree tm tm' k k'"
  shows "SanityCheckEvictionSets tm' k h heads = Some (Inr k')" "k \<le> k'"
proof -
  from ret have "\<exists>a. check_sizes h heads [] = Some (Inr a) \<and>
      (if length a \<noteq> CONFLICT_SET_SIZE then Some (Inl EvictionSetsOverlap)
       else Some (check_times tm k heads)) = Some (Inr k')"
    unfolding SanityCheckEvictionSets_def bindr_def
    by (auto split: option.splits sum.splits if_splits)
  then obtain a where cs: "check_sizes h heads [] = Some (Inr a)"
    and c1: "(if length a \<noteq> CONFLICT_SET_SIZE then Some (Inl EvictionSetsOverlap)
       else Some (check_times tm k heads)) = Some (Inr k')"
    by blast
  from c1 have l: "length a = CONFLICT_SET_SIZE" and ct: "check_times tm k heads = Inr k'"
    by (simp_all split: if_splits)
  note ca = check_times_agree [OF ct, of tm']
  show "k \<le> k'" using ca by simp
  from ca ag have "check_times tm' k heads = Inr k'" by simp
  with cs l show "SanityCheckEvictionSets tm' k h heads = Some (Inr k')"
    unfolding SanityCheckEvictionSets_def bindr_def by simp
qed

lemma SanityCheckCandidates_agree:
  assumes "SanityCheckCandidates tm k = Inr k'"
  shows "k' = k + 1" "tm' k = tm k \<Longrightarrow> SanityCheckCandidates tm' k = Inr k'"
  using assms by (auto simp: SanityCheckCandidates_def Let_def split: if_splits)


lemma GetEvictionSet_from_size:
  assumes "GetEvictionSet_from candidates base shuffle tm h0 = Some (Inr r)"
  shows "SizeOfLinkedList (RandomizeLinkedList h0 candidates shuffle) (hd candidates)
           = Some (length candidates)"
  using assms unfolding GetEvictionSet_from_def Let_def
  by (auto simp: bind_eq_Some_conv split: if_splits)

lemma GetEvictionSet_from_compose:
  assumes "2 * LLC_BANKS * WAYS_PER_BANK \<le> length candidates"
    "SizeOfLinkedList (RandomizeLinkedList h0 candidates shuffle) (hd candidates)
       = Some (length candidates)"
    "SanityCheckCandidates tm 0 = Inr k0"
    "BuildConflictSet tm k0 (RandomizeLinkedList h0 candidates shuffle) candidates
       = Some (Inr (k1, h1, csh, cdh))"
    "PartitionConflictSet tm k1 h1 csh cdh = Some (Inr (k2, h, heads))"
    "SanityCheckEvictionSets tm k2 h heads = Some (Inr k)"
  shows "GetEvictionSet_from candidates base shuffle tm h0 = Some (Inr (heads, base, h, k))"
  unfolding GetEvictionSet_from_def Let_def using assms by (simp add: bindr_def)

lemma GetEvictionSet_from_agree:
  assumes ret: "GetEvictionSet_from candidates base shuffle tm h0 = Some (Inr (heads, arr, h, k))"
    and ag: "agree tm tm' 0 k"
  shows "GetEvictionSet_from candidates base shuffle tm' h0 = Some (Inr (heads, arr, h, k))"
proof -
  let ?h = "RandomizeLinkedList h0 candidates shuffle"
  note sz = GetEvictionSet_from_size [OF ret]
  from ret obtain k0 k1 h1 csh cdh k2 where
    len: "2 * LLC_BANKS * WAYS_PER_BANK \<le> length candidates"
    and sc: "SanityCheckCandidates tm 0 = Inr k0"
    and b: "BuildConflictSet tm k0 ?h candidates = Some (Inr (k1, h1, csh, cdh))"
    and p: "PartitionConflictSet tm k1 h1 csh cdh = Some (Inr (k2, h, heads))"
    and s: "SanityCheckEvictionSets tm k2 h heads = Some (Inr k)"
    and arr: "arr = base"
    by (rule GetEvictionSet_from_returns)
  have k0: "k0 = 0 + 1" by (rule SanityCheckCandidates_agree(1) [OF sc])
  have k01: "k0 \<le> k1" by (rule BuildConflictSet_agree(2) [OF b, of tm]) (simp add: agree_def)
  have k12: "k1 \<le> k2" by (rule PartitionConflictSet_agree(2) [OF p, of tm]) (simp add: agree_def)
  have k2k: "k2 \<le> k" by (rule SanityCheckEvictionSets_agree(2) [OF s, of tm]) (simp add: agree_def)
  have "tm' 0 = tm 0" by (rule agree_at [OF ag]) (use k0 k01 k12 k2k in simp_all)
  then have sc': "SanityCheckCandidates tm' 0 = Inr k0"
    by (rule SanityCheckCandidates_agree(2) [OF sc])
  have b': "BuildConflictSet tm' k0 ?h candidates = Some (Inr (k1, h1, csh, cdh))"
    by (rule BuildConflictSet_agree(1) [OF b]) (rule agree_sub [OF ag], use k12 k2k in simp_all)
  have p': "PartitionConflictSet tm' k1 h1 csh cdh = Some (Inr (k2, h, heads))"
    by (rule PartitionConflictSet_agree(1) [OF p]) (rule agree_sub [OF ag], use k2k in simp_all)
  have s': "SanityCheckEvictionSets tm' k2 h heads = Some (Inr k)"
    by (rule SanityCheckEvictionSets_agree(1) [OF s]) (rule agree_sub [OF ag], simp_all)
  show ?thesis
    unfolding arr by (rule GetEvictionSet_from_compose [OF len sz sc' b' p' s'])
qed


section \<open>The readings decide the rings\<close>

subsection \<open>Two runs that differ in one reading\<close>

lemma part_isolate_skip_run:
  assumes inv: "part_inv C m h rss csh c" and lt: "length rss < LLC_BANKS - 1"
    and miss: "plausible (tm k)" "tm k > LLC_CYCLE_THRESHOLD"
    and hits: "\<forall>i<WAYS_PER_BANK. plausible (tm (k + 1 + i)) \<and> \<not> tm (k + 1 + i) > LLC_CYCLE_THRESHOLD"
  shows "\<exists>es. isolate_slice tm k h c csh [] = Some (k + 1 + WAYS_PER_BANK, h, es)
           \<and> set es = set (walk h (next_of h csh) WAYS_PER_BANK)"
proof -
  from inv obtain cs where cs: "ring h cs" "csh \<in> set cs"
    and l: "length cs + WAYS_PER_BANK * length rss = CONFLICT_SET_SIZE"
    unfolding part_inv_def by blast
  note lk = ring_links [OF cs]
  let ?t = "next_of h csh"
  from ring_to_front [OF cs(1) lk(3)] obtain ys where
    r: "ring h (?t # ys)" and n: "length (?t # ys) = length cs" by blast
  have len: "WAYS_PER_BANK < length (?t # ys)"
    using n l lt by (simp add: CONFLICT_SET_SIZE_def LLC_BANKS_def WAYS_PER_BANK_def)
  have "\<exists>es'. isolate_slice tm (k + 1) h c ?t [] = Some (k + 1 + WAYS_PER_BANK, h, es')
           \<and> set es' = set (take WAYS_PER_BANK (?t # ys)) \<and> distinct es'
           \<and> length es' = WAYS_PER_BANK"
    by (rule isolate_slice_run [OF r len, where j = 0 and n = WAYS_PER_BANK and es = "[]"])
      (use hits in simp_all)
  moreover have "take WAYS_PER_BANK (?t # ys) = walk h ?t WAYS_PER_BANK"
    using walk_take [of WAYS_PER_BANK "Suc (length ys)" h ?t] walk_ring [OF r] len by simp
  moreover have "test_node tm k h c csh [] = Some (k + 1, h, ?t, [])"
    unfolding test_node_eq [OF lk(2,1)]
    using Probe_miss [of tm k "unlink h csh" ?t c, OF miss] by simp
  then have "isolate_slice tm k h c csh [] = isolate_slice tm (k + 1) h c ?t []"
    by (subst isolate_slice_unfold) (simp add: WAYS_PER_BANK_def)
  ultimately show ?thesis by auto
qed

lemma partition_round_step:
  assumes inv: "part_inv C m h rss csh c" and hd: "heads = map hd rss"
    and lt: "length rss < LLC_BANKS - 1" and m2: "2 \<le> m"
    and fw: "find_witness tm k h csh c = Some (Inr (k1, h, c))"
    and iso: "isolate_slice tm k1 h c csh [] = Some (k2, h, es)"
  shows "\<exists>h' csh' c'. partition_loop tm k h heads c csh
             = partition_loop tm k2 h' (map hd (rss @ [es])) c' csh'
           \<and> part_inv C (m - 1) h' (rss @ [es]) csh' c'"
proof -
  obtain h3 csh3 where sp: "splice_out h es csh = (h3, csh3)" by (cases "splice_out h es csh")
  note rd = part_inv_round [OF inv lt iso sp]
  note nx = rd(4) [OF m2]
  note inv' = rd(5) [OF nx]
  let ?u = "unlink h3 c"
  have "partition_loop tm k h heads c csh
      = partition_loop tm k2 ?u (heads @ [hd es]) (next_of ?u c) csh3"
    using lt hd fw iso sp nx
    by (subst partition_loop_unfold) (simp add: Let_def)
  then have "partition_loop tm k h heads c csh
      = partition_loop tm k2 ?u (map hd (rss @ [es])) (next_of ?u c) csh3"
    using hd by simp
  with inv' show ?thesis by blast
qed

lemma PartitionConflictSet_first_ring:
  assumes inv: "part_inv C m h [] csh cdh" and m: "LLC_BANKS - 1 < m"
    and miss: "\<forall>j<101. plausible (tm (k + j)) \<and> tm (k + j) > LLC_CYCLE_THRESHOLD"
    and iso: "isolate_slice tm (k + 101) h cdh csh [] = Some (k2, h, es)"
    and pat: "\<forall>i<LLC_BANKS - 2.
          (\<forall>j<101. plausible (tm (k2 + 121 * i + j)) \<and> tm (k2 + 121 * i + j) > LLC_CYCLE_THRESHOLD)
          \<and> (\<forall>j<WAYS_PER_BANK. plausible (tm (k2 + 121 * i + 101 + j))
                \<and> \<not> tm (k2 + 121 * i + 101 + j) > LLC_CYCLE_THRESHOLD)"
  shows "\<exists>h' rss. PartitionConflictSet tm k h csh cdh
             = Some (Inr (k2 + 121 * (LLC_BANKS - 2), h', map hd (es # rss)))
           \<and> eviction_rings C h' (es # rss)"
proof -
  note fw = find_witness_run [OF miss, of h csh cdh]
  have lt: "length ([] :: nat list list) < LLC_BANKS - 1" by (simp add: LLC_BANKS_def)
  have m2: "2 \<le> m" using m by (simp add: LLC_BANKS_def)
  from partition_round_step [OF inv _ lt m2 fw iso, of "[]"] obtain h1 csh1 c1 where
    st: "partition_loop tm k h [] cdh csh = partition_loop tm k2 h1 (map hd ([] @ [es])) c1 csh1"
    and inv1: "part_inv C (m - 1) h1 ([] @ [es]) csh1 c1" by auto
  have l: "length ([] @ [es]) + (LLC_BANKS - 2) = LLC_BANKS - 1" by (simp add: LLC_BANKS_def)
  have nm: "LLC_BANKS - 2 < m - 1" using m by (simp add: LLC_BANKS_def)
  from partition_loop_run [OF inv1 refl l nm pat] obtain h' more csh' c' where
    pl: "partition_loop tm k2 h1 (map hd ([] @ [es])) c1 csh1
             = Some (Inr (k2 + 121 * (LLC_BANKS - 2), h', map hd (([] @ [es]) @ more), csh'))"
    and p: "part_inv C (m - 1 - (LLC_BANKS - 2)) h' (([] @ [es]) @ more) csh' c'"
      "length (([] @ [es]) @ more) = LLC_BANKS - 1"
    by blast
  from part_inv_final [OF p] obtain r where
    r: "eviction_rings C h' ((([] @ [es]) @ more) @ [r])" "hd r = csh'" by blast
  have "PartitionConflictSet tm k h csh cdh
      = Some (Inr (k2 + 121 * (LLC_BANKS - 2), h', map hd (es # (more @ [r]))))"
    unfolding PartitionConflictSet_def bindr_def st pl using r(2) by simp
  moreover have "eviction_rings C h' (es # (more @ [r]))" using r(1) by simp
  ultimately show ?thesis by blast
qed


lemma GetEvictionSet_first_ring:
  assumes fc: "FindCandidates base setIndex = Inr candidates" and s: "setIndex < SETS_PER_BANK"
    and len: "2 * LLC_BANKS * WAYS_PER_BANK \<le> length candidates"
    and sh: "shuffled (shuffle (length candidates)) (length candidates)"
    and t0: "SanityCheckCandidates tm 0 = Inr 1"
    and b: "BuildConflictSet tm 1 (RandomizeLinkedList h0 candidates shuffle) candidates
              = Some (Inr (232, h1, csh, cdh))"
    and miss: "\<forall>j<101. plausible (tm (232 + j)) \<and> tm (232 + j) > LLC_CYCLE_THRESHOLD"
    and iso: "isolate_slice tm (232 + 101) h1 cdh csh [] = Some (k2, h1, es)"
    and pat: "\<forall>i<LLC_BANKS - 2.
          (\<forall>j<101. plausible (tm (k2 + 121 * i + j)) \<and> tm (k2 + 121 * i + j) > LLC_CYCLE_THRESHOLD)
          \<and> (\<forall>j<WAYS_PER_BANK. plausible (tm (k2 + 121 * i + 101 + j))
                \<and> \<not> tm (k2 + 121 * i + 101 + j) > LLC_CYCLE_THRESHOLD)"
    and fin: "\<forall>j<LLC_BANKS. 25 < tm (k2 + 121 * (LLC_BANKS - 2) + j) div 2400000
      \<and> tm (k2 + 121 * (LLC_BANKS - 2) + j) div 2400000 < 55"
  shows "\<exists>rss h. GetEvictionSet 0 setIndex base shuffle tm h0
           = Some (Inr (map hd (es # rss), base, h, k2 + 121 * (LLC_BANKS - 2) + LLC_BANKS))
         \<and> eviction_rings (set (walk h1 csh CONFLICT_SET_SIZE)) h (es # rss)"
proof -
  let ?h = "RandomizeLinkedList h0 candidates shuffle"
  have d: "distinct candidates" by (rule FindCandidates_distinct [OF fc s])
  have ne: "candidates \<noteq> []" using len by (auto simp: LLC_BANKS_def WAYS_PER_BANK_def)
  from RandomizeLinkedList_ring [of candidates shuffle h0, OF d ne sh] obtain xs where
    xs: "ring ?h xs" "set xs = set candidates" "length xs = length candidates" by blast
  have big: "CONFLICT_SET_SIZE + 2 \<le> length candidates"
    using len by (simp add: CONFLICT_SET_SIZE_def LLC_BANKS_def WAYS_PER_BANK_def)
  have "hd candidates \<in> set xs" using ne xs(2) by simp
  from SizeOfLinkedList_member [OF xs(1) this] xs(3)
  have sz: "SizeOfLinkedList ?h (hd candidates) = Some (length candidates)" by simp
  note gi = BuildConflictSet_returns(2) [OF xs ne big b]
  note pi = part_inv_start [OF gi]
  have "card (set candidates) = length candidates" using d by (simp add: distinct_card)
  then have m: "LLC_BANKS - 1 < card (set candidates) - CONFLICT_SET_SIZE"
    using len by (simp add: CONFLICT_SET_SIZE_def LLC_BANKS_def WAYS_PER_BANK_def)
  from PartitionConflictSet_first_ring [OF pi m miss iso pat] obtain h rss where
    p: "PartitionConflictSet tm 232 h1 csh cdh
             = Some (Inr (k2 + 121 * (LLC_BANKS - 2), h, map hd (es # rss)))"
    and er: "eviction_rings (set (walk h1 csh CONFLICT_SET_SIZE)) h (es # rss)" by blast
  note sc = SanityCheckEvictionSets_run [OF er fin]
  have "GetEvictionSet_from candidates base shuffle tm h0
      = Some (Inr (map hd (es # rss), base, h, k2 + 121 * (LLC_BANKS - 2) + LLC_BANKS))"
    by (rule GetEvictionSet_from_compose [OF len sz t0 b p sc])
  then have "GetEvictionSet 0 setIndex base shuffle tm h0
      = Some (Inr (map hd (es # rss), base, h, k2 + 121 * (LLC_BANKS - 2) + LLC_BANKS))"
    unfolding GetEvictionSet_def using s fc by simp
  with er show ?thesis by blast
qed

lemma noisy_timer_early: "k \<le> 332 \<Longrightarrow> noisy_timer k = good_timer k"
  by (simp add: noisy_timer_def)

lemma noisy_timer_late: "332 \<le> k \<Longrightarrow> noisy_timer (k + 1) = good_timer k"
  by (simp add: noisy_timer_def)

lemma good_timer_round:
  assumes "i < LLC_BANKS - 1"
  shows "\<forall>j<101. plausible (good_timer (232 + 121 * i + j))
          \<and> good_timer (232 + 121 * i + j) > LLC_CYCLE_THRESHOLD"
    "\<forall>j<WAYS_PER_BANK. plausible (good_timer (232 + 121 * i + 101 + j))
          \<and> \<not> good_timer (232 + 121 * i + 101 + j) > LLC_CYCLE_THRESHOLD"
  using good_timer_readings(5) assms by blast+


lemma good_timer_rounds_from:
  "\<forall>i<LLC_BANKS - 2.
      (\<forall>j<101. plausible (good_timer (232 + 101 + WAYS_PER_BANK + 121 * i + j))
          \<and> good_timer (232 + 101 + WAYS_PER_BANK + 121 * i + j) > LLC_CYCLE_THRESHOLD)
      \<and> (\<forall>j<WAYS_PER_BANK. plausible (good_timer (232 + 101 + WAYS_PER_BANK + 121 * i + 101 + j))
            \<and> \<not> good_timer (232 + 101 + WAYS_PER_BANK + 121 * i + 101 + j) > LLC_CYCLE_THRESHOLD)"
proof (intro allI impI)
  fix i assume "i < LLC_BANKS - 2"
  then have i: "Suc i < LLC_BANKS - 1" by (simp add: LLC_BANKS_def)
  have e: "232 + 101 + WAYS_PER_BANK + 121 * i = 232 + 121 * Suc i"
    by (simp add: WAYS_PER_BANK_def)
  show "(\<forall>j<101. plausible (good_timer (232 + 101 + WAYS_PER_BANK + 121 * i + j))
          \<and> good_timer (232 + 101 + WAYS_PER_BANK + 121 * i + j) > LLC_CYCLE_THRESHOLD)
      \<and> (\<forall>j<WAYS_PER_BANK. plausible (good_timer (232 + 101 + WAYS_PER_BANK + 121 * i + 101 + j))
            \<and> \<not> good_timer (232 + 101 + WAYS_PER_BANK + 121 * i + 101 + j) > LLC_CYCLE_THRESHOLD)"
    unfolding e using good_timer_round [OF i] by blast
qed

lemma good_timer_end_from:
  "\<forall>j<LLC_BANKS. 25 < good_timer (232 + 101 + WAYS_PER_BANK + 121 * (LLC_BANKS - 2) + j) div 2400000
      \<and> good_timer (232 + 101 + WAYS_PER_BANK + 121 * (LLC_BANKS - 2) + j) div 2400000 < 55"
proof -
  have e: "232 + 101 + WAYS_PER_BANK + 121 * (LLC_BANKS - 2) = 232 + 121 * (LLC_BANKS - 1)"
    by (simp add: WAYS_PER_BANK_def LLC_BANKS_def)
  show ?thesis unfolding e by (rule good_timer_readings(6))
qed

lemma noisy_timer_readings:
  "SanityCheckCandidates noisy_timer 0 = Inr 1"
  "agree good_timer noisy_timer 1 232"
  "\<forall>j<101. plausible (noisy_timer (232 + j)) \<and> noisy_timer (232 + j) > LLC_CYCLE_THRESHOLD"
  "plausible (noisy_timer (232 + 101))" "noisy_timer (232 + 101) > LLC_CYCLE_THRESHOLD"
  "\<forall>i<WAYS_PER_BANK. plausible (noisy_timer (232 + 101 + 1 + i))
      \<and> \<not> noisy_timer (232 + 101 + 1 + i) > LLC_CYCLE_THRESHOLD"
  "\<forall>i<LLC_BANKS - 2.
      (\<forall>j<101. plausible (noisy_timer (232 + 101 + 1 + WAYS_PER_BANK + 121 * i + j))
          \<and> noisy_timer (232 + 101 + 1 + WAYS_PER_BANK + 121 * i + j) > LLC_CYCLE_THRESHOLD)
      \<and> (\<forall>j<WAYS_PER_BANK.
            plausible (noisy_timer (232 + 101 + 1 + WAYS_PER_BANK + 121 * i + 101 + j))
            \<and> \<not> noisy_timer (232 + 101 + 1 + WAYS_PER_BANK + 121 * i + 101 + j)
                  > LLC_CYCLE_THRESHOLD)"
  "\<forall>j<LLC_BANKS.
      25 < noisy_timer (232 + 101 + 1 + WAYS_PER_BANK + 121 * (LLC_BANKS - 2) + j) div 2400000
      \<and> noisy_timer (232 + 101 + 1 + WAYS_PER_BANK + 121 * (LLC_BANKS - 2) + j) div 2400000 < 55"
proof -
  have z: "LLC_BANKS - 1 > 0" by (simp add: LLC_BANKS_def)
  note r0 = good_timer_round [OF z, simplified]
  have "noisy_timer 0 = good_timer 0" by (rule noisy_timer_early) simp
  then show "SanityCheckCandidates noisy_timer 0 = Inr 1"
    by (rule SanityCheckCandidates_agree(2) [OF good_timer_readings(1)])
  show "agree good_timer noisy_timer 1 232"
    by (simp add: agree_def noisy_timer_early)
  show "\<forall>j<101. plausible (noisy_timer (232 + j)) \<and> noisy_timer (232 + j) > LLC_CYCLE_THRESHOLD"
  proof (intro allI impI)
    fix j :: nat assume j: "j < 101"
    then have "noisy_timer (232 + j) = good_timer (232 + j)" by (intro noisy_timer_early) simp
    with r0(1) j show "plausible (noisy_timer (232 + j)) \<and> noisy_timer (232 + j) > LLC_CYCLE_THRESHOLD"
      by simp
  qed
  have "noisy_timer (232 + 100 + 1) = good_timer (232 + 100)" by (rule noisy_timer_late) simp
  moreover have "plausible (good_timer (232 + 100)) \<and> good_timer (232 + 100) > LLC_CYCLE_THRESHOLD"
    using r0(1) [rule_format, of 100] by simp
  ultimately show "plausible (noisy_timer (232 + 101))"
    "noisy_timer (232 + 101) > LLC_CYCLE_THRESHOLD" by simp_all
  show "\<forall>i<WAYS_PER_BANK. plausible (noisy_timer (232 + 101 + 1 + i))
      \<and> \<not> noisy_timer (232 + 101 + 1 + i) > LLC_CYCLE_THRESHOLD"
  proof (intro allI impI)
    fix i assume i: "i < WAYS_PER_BANK"
    have "noisy_timer (232 + 101 + i + 1) = good_timer (232 + 101 + i)"
      by (rule noisy_timer_late) simp
    with r0(2) i show "plausible (noisy_timer (232 + 101 + 1 + i))
      \<and> \<not> noisy_timer (232 + 101 + 1 + i) > LLC_CYCLE_THRESHOLD"
      by (simp add: add.commute add.left_commute)
  qed
  show "\<forall>i<LLC_BANKS - 2.
      (\<forall>j<101. plausible (noisy_timer (232 + 101 + 1 + WAYS_PER_BANK + 121 * i + j))
          \<and> noisy_timer (232 + 101 + 1 + WAYS_PER_BANK + 121 * i + j) > LLC_CYCLE_THRESHOLD)
      \<and> (\<forall>j<WAYS_PER_BANK.
            plausible (noisy_timer (232 + 101 + 1 + WAYS_PER_BANK + 121 * i + 101 + j))
            \<and> \<not> noisy_timer (232 + 101 + 1 + WAYS_PER_BANK + 121 * i + 101 + j)
                  > LLC_CYCLE_THRESHOLD)"
  proof (intro allI impI conjI)
    fix i j :: nat assume i: "i < LLC_BANKS - 2" and j: "j < 101"
    define n where "n = 232 + 101 + WAYS_PER_BANK + 121 * i + j"
    have e: "232 + 101 + 1 + WAYS_PER_BANK + 121 * i + j = n + 1" by (simp add: n_def)
    have "332 \<le> n" by (simp add: n_def)
    then have "noisy_timer (n + 1) = good_timer n" by (rule noisy_timer_late)
    moreover have "plausible (good_timer n) \<and> good_timer n > LLC_CYCLE_THRESHOLD"
      unfolding n_def using good_timer_rounds_from i j by blast
    ultimately show "plausible (noisy_timer (232 + 101 + 1 + WAYS_PER_BANK + 121 * i + j))"
      "noisy_timer (232 + 101 + 1 + WAYS_PER_BANK + 121 * i + j) > LLC_CYCLE_THRESHOLD"
      unfolding e by simp_all
  next
    fix i j :: nat assume i: "i < LLC_BANKS - 2" and j: "j < WAYS_PER_BANK"
    define n where "n = 232 + 101 + WAYS_PER_BANK + 121 * i + 101 + j"
    have e: "232 + 101 + 1 + WAYS_PER_BANK + 121 * i + 101 + j = n + 1" by (simp add: n_def)
    have "332 \<le> n" by (simp add: n_def)
    then have "noisy_timer (n + 1) = good_timer n" by (rule noisy_timer_late)
    moreover have "plausible (good_timer n) \<and> \<not> good_timer n > LLC_CYCLE_THRESHOLD"
      unfolding n_def using good_timer_rounds_from i j by blast
    ultimately show "plausible (noisy_timer (232 + 101 + 1 + WAYS_PER_BANK + 121 * i + 101 + j))"
      "\<not> noisy_timer (232 + 101 + 1 + WAYS_PER_BANK + 121 * i + 101 + j) > LLC_CYCLE_THRESHOLD"
      unfolding e by simp_all
  qed
  show "\<forall>j<LLC_BANKS.
      25 < noisy_timer (232 + 101 + 1 + WAYS_PER_BANK + 121 * (LLC_BANKS - 2) + j) div 2400000
      \<and> noisy_timer (232 + 101 + 1 + WAYS_PER_BANK + 121 * (LLC_BANKS - 2) + j) div 2400000 < 55"
  proof (intro allI impI)
    fix j assume j: "j < LLC_BANKS"
    define n where "n = 232 + 101 + WAYS_PER_BANK + 121 * (LLC_BANKS - 2) + j"
    have e: "232 + 101 + 1 + WAYS_PER_BANK + 121 * (LLC_BANKS - 2) + j = n + 1" by (simp add: n_def)
    have "332 \<le> n" by (simp add: n_def)
    then have "noisy_timer (n + 1) = good_timer n" by (rule noisy_timer_late)
    moreover have "25 < good_timer n div 2400000 \<and> good_timer n div 2400000 < 55"
      unfolding n_def using good_timer_end_from j by blast
    ultimately show
      "25 < noisy_timer (232 + 101 + 1 + WAYS_PER_BANK + 121 * (LLC_BANKS - 2) + j) div 2400000
      \<and> noisy_timer (232 + 101 + 1 + WAYS_PER_BANK + 121 * (LLC_BANKS - 2) + j) div 2400000 < 55"
      unfolding e by simp
  qed
qed


lemma walk_first_two:
  "p \<in> set (walk h p WAYS_PER_BANK)" "next_of h p \<in> set (walk h p WAYS_PER_BANK)"
proof -
  have e: "WAYS_PER_BANK = Suc (Suc 18)" by (simp add: WAYS_PER_BANK_def)
  have "walk h p (Suc (Suc 18)) = p # next_of h p # walk h (next_of h (next_of h p)) 18"
    by (simp only: walk.simps)
  then show "p \<in> set (walk h p WAYS_PER_BANK)" "next_of h p \<in> set (walk h p WAYS_PER_BANK)"
    unfolding e by simp_all
qed

lemma walk_next_misses_head:
  assumes "ring_at h p CONFLICT_SET_SIZE"
  shows "p \<notin> set (walk h (next_of h p) WAYS_PER_BANK)"
proof -
  have c: "CONFLICT_SET_SIZE = Suc 239"
    by (simp add: CONFLICT_SET_SIZE_def LLC_BANKS_def WAYS_PER_BANK_def)
  from assms have "distinct (walk h p (Suc 239))" unfolding ring_at_def ring_def c by blast
  then have "distinct (p # walk h (next_of h p) 239)" by (simp only: walk.simps)
  then have "p \<notin> set (walk h (next_of h p) 239)" by simp
  moreover have "take WAYS_PER_BANK (walk h (next_of h p) 239) = walk h (next_of h p) WAYS_PER_BANK"
    by (rule walk_take) (simp add: WAYS_PER_BANK_def)
  then have "set (walk h (next_of h p) WAYS_PER_BANK) \<subseteq> set (walk h (next_of h p) 239)"
    by (metis set_take_subset)
  ultimately show ?thesis by auto
qed

lemma eviction_rings_nth:
  assumes "eviction_rings C h rss" "j < LLC_BANKS"
  shows "walk h (map hd rss ! j) WAYS_PER_BANK = rss ! j"
proof -
  from assms have l: "j < length rss" unfolding eviction_rings_def by simp
  then have "rss ! j \<in> set rss" by simp
  from eviction_rings_walk [OF assms(1) this] l show ?thesis by simp
qed

text \<open>
  Claim C9, as amended. What \<^verbatim>\<open>GetEvictionSet\<close> returns is decided by the seed, the region,
  the set index and the latency readings it takes. When a run returns after \<open>k\<close> readings,
  every run with the same seed on the same region whose first \<open>k\<close> readings are the same
  returns the same ring handles over the same memory, so that each of its rings holds the
  same nodes.
\<close>

theorem same_readings_same_rings:
  assumes ret: "GetEvictionSet array_in setIndex base shuffle tm h0 = Some (Inr (heads, arr, h, k))"
    and same: "\<forall>j<k. tm' j = tm j"
  shows "GetEvictionSet array_in setIndex base shuffle tm' h0 = Some (Inr (heads, arr, h, k))"
proof -
  from ret have a: "array_in = 0" and s: "setIndex < SETS_PER_BANK"
    unfolding GetEvictionSet_def by (auto split: if_splits)
  from ret a s obtain candidates where fc: "FindCandidates base setIndex = Inr candidates"
    and fr: "GetEvictionSet_from candidates base shuffle tm h0 = Some (Inr (heads, arr, h, k))"
    unfolding GetEvictionSet_def by (auto split: if_splits sum.splits)
  have "agree tm tm' 0 k" using same by (simp add: agree_def)
  from GetEvictionSet_from_agree [OF fr this] show ?thesis
    unfolding GetEvictionSet_def using a s fc by simp
qed

theorem same_readings_same_rings_witness:
  "\<exists>heads h.
     GetEvictionSet 0 27 0x7F3A40000000 (\<lambda>n. [0..<n]) good_timer
         \<lparr>next_of = (\<lambda>i. 0), prev_of = (\<lambda>i. 0)\<rparr>
       = Some (Inr (heads, 0x7F3A40000000, h, 1575)) \<and>
     GetEvictionSet 0 27 0x7F3A40000000 (\<lambda>n. [0..<n]) (\<lambda>k. if k < 1575 then good_timer k else 0)
         \<lparr>next_of = (\<lambda>i. 0), prev_of = (\<lambda>i. 0)\<rparr>
       = Some (Inr (heads, 0x7F3A40000000, h, 1575))"
proof -
  let ?mem = "\<lparr>next_of = (\<lambda>i. 0), prev_of = (\<lambda>i. 0)\<rparr>"
  let ?sh = "\<lambda>n :: nat. [0..<n]"
  from FindCandidates_count obtain candidates where
    fc: "FindCandidates 0x7F3A40000000 27 = Inr candidates" and l: "length candidates = 512"
    by blast
  have s: "(27 :: 64 word) < SETS_PER_BANK" by (simp add: SETS_PER_BANK_def)
  have len: "2 * LLC_BANKS * WAYS_PER_BANK \<le> length candidates"
    using l by (simp add: LLC_BANKS_def WAYS_PER_BANK_def)
  have sh: "shuffled (?sh (length candidates)) (length candidates)"
    by (auto simp: shuffled_def)
  have e: "232 + 121 * (LLC_BANKS - 1) + LLC_BANKS = 1575" by (simp add: LLC_BANKS_def)
  from GetEvictionSet_run [of _ _ candidates ?sh good_timer ?mem,
      OF fc s len sh good_timer_readings]
  obtain heads h where
    run: "GetEvictionSet 0 27 0x7F3A40000000 ?sh good_timer ?mem
           = Some (Inr (heads, 0x7F3A40000000, h, 1575))"
    unfolding e by blast
  have "\<forall>j<1575. (\<lambda>k. if k < 1575 then good_timer k else 0) j = good_timer j" by simp
  from same_readings_same_rings [OF run this] run show ?thesis by blast
qed

text \<open>
  Under the seed alone the outcome is not decided. Two runs on the same region with the same
  seed, whose readings differ only in that the second sees one more miss in the first round
  of the partition, both return; and the first ring of the first run is none of the rings of
  the second.
\<close>

theorem different_readings_different_rings:
  "\<exists>heads h k heads' h' k'.
     GetEvictionSet 0 27 0x7F3A40000000 (\<lambda>n. [0..<n]) good_timer
         \<lparr>next_of = (\<lambda>i. 0), prev_of = (\<lambda>i. 0)\<rparr>
       = Some (Inr (heads, 0x7F3A40000000, h, k)) \<and>
     GetEvictionSet 0 27 0x7F3A40000000 (\<lambda>n. [0..<n]) noisy_timer
         \<lparr>next_of = (\<lambda>i. 0), prev_of = (\<lambda>i. 0)\<rparr>
       = Some (Inr (heads', 0x7F3A40000000, h', k')) \<and>
     (\<forall>j<LLC_BANKS. set (walk h (heads ! 0) WAYS_PER_BANK)
                      \<noteq> set (walk h' (heads' ! j) WAYS_PER_BANK))"
proof -
  let ?mem = "\<lparr>next_of = (\<lambda>i. 0), prev_of = (\<lambda>i. 0)\<rparr>"
  let ?sh = "\<lambda>n :: nat. [0..<n]"
  from FindCandidates_count obtain candidates where
    fc: "FindCandidates 0x7F3A40000000 27 = Inr candidates" and l: "length candidates = 512"
    by blast
  have s: "(27 :: 64 word) < SETS_PER_BANK" by (simp add: SETS_PER_BANK_def)
  have len: "2 * LLC_BANKS * WAYS_PER_BANK \<le> length candidates"
    using l by (simp add: LLC_BANKS_def WAYS_PER_BANK_def)
  have sh: "shuffled (?sh (length candidates)) (length candidates)"
    by (auto simp: shuffled_def)
  let ?h = "RandomizeLinkedList ?mem candidates ?sh"
  have d: "distinct candidates" by (rule FindCandidates_distinct [OF fc s])
  have ne: "candidates \<noteq> []" using l by auto
  from RandomizeLinkedList_ring [of candidates ?sh ?mem, OF d ne sh] obtain xs where
    xs: "ring ?h xs" "set xs = set candidates" "length xs = length candidates" by blast
  have big: "CONFLICT_SET_SIZE + 2 \<le> length candidates"
    using len by (simp add: CONFLICT_SET_SIZE_def LLC_BANKS_def WAYS_PER_BANK_def)
  from BuildConflictSet_run [OF xs ne big good_timer_readings(2,3,4)] obtain h1 cdh where
    bA: "BuildConflictSet good_timer 1 ?h candidates = Some (Inr (232, h1, hd candidates, cdh))"
    and gi: "grow_inv (set candidates) h1 (hd candidates) CONFLICT_SET_SIZE cdh cdh" by blast
  let ?csh = "hd candidates"
  let ?nx = "next_of h1 ?csh"
  note bB = BuildConflictSet_agree(1) [OF bA noisy_timer_readings(2)]
  note pi = part_inv_start [OF gi]
  note ra = grow_inv_ring_at(1) [OF gi]
  have lt: "length ([] :: nat list list) < LLC_BANKS - 1" by (simp add: LLC_BANKS_def)
  have z: "LLC_BANKS - 1 > 0" by (simp add: LLC_BANKS_def)
  note r0 = good_timer_round [OF z, simplified]
  have missA: "\<forall>j<101. plausible (good_timer (232 + j)) \<and> good_timer (232 + j) > LLC_CYCLE_THRESHOLD"
    by (rule r0(1))
  have hitsA: "\<forall>i<WAYS_PER_BANK. plausible (good_timer (232 + 101 + i))
      \<and> \<not> good_timer (232 + 101 + i) > LLC_CYCLE_THRESHOLD"
    using r0(2) by (simp add: add.assoc)
  from part_isolate_run [OF pi lt hitsA] obtain esA where
    isoA: "isolate_slice good_timer (232 + 101) h1 cdh ?csh []
             = Some (232 + 101 + WAYS_PER_BANK, h1, esA)"
    and sA: "set esA = set (walk h1 ?csh WAYS_PER_BANK)" by blast
  from part_isolate_skip_run [OF pi lt noisy_timer_readings(4,5,6)] obtain esB where
    isoB: "isolate_slice noisy_timer (232 + 101) h1 cdh ?csh []
             = Some (232 + 101 + 1 + WAYS_PER_BANK, h1, esB)"
    and sB: "set esB = set (walk h1 ?nx WAYS_PER_BANK)" by blast
  from GetEvictionSet_first_ring [OF fc s len sh good_timer_readings(1) bA missA isoA
      good_timer_rounds_from good_timer_end_from]
  obtain rssA hA where
    runA: "GetEvictionSet 0 27 0x7F3A40000000 ?sh good_timer ?mem
           = Some (Inr (map hd (esA # rssA), 0x7F3A40000000, hA,
                232 + 101 + WAYS_PER_BANK + 121 * (LLC_BANKS - 2) + LLC_BANKS))"
    and erA: "eviction_rings (set (walk h1 ?csh CONFLICT_SET_SIZE)) hA (esA # rssA)" by blast
  from GetEvictionSet_first_ring [OF fc s len sh noisy_timer_readings(1) bB
      noisy_timer_readings(3) isoB noisy_timer_readings(7,8)]
  obtain rssB hB where
    runB: "GetEvictionSet 0 27 0x7F3A40000000 ?sh noisy_timer ?mem
           = Some (Inr (map hd (esB # rssB), 0x7F3A40000000, hB,
                232 + 101 + 1 + WAYS_PER_BANK + 121 * (LLC_BANKS - 2) + LLC_BANKS))"
    and erB: "eviction_rings (set (walk h1 ?csh CONFLICT_SET_SIZE)) hB (esB # rssB)" by blast
  have a0: "?csh \<in> set esA" and a1: "?nx \<in> set esA"
    unfolding sA by (rule walk_first_two)+
  have b1: "?nx \<in> set esB" unfolding sB by (rule walk_first_two)
  have b0: "?csh \<notin> set esB" unfolding sB by (rule walk_next_misses_head [OF ra])
  have wA: "walk hA (map hd (esA # rssA) ! 0) WAYS_PER_BANK = esA"
    using eviction_rings_nth [OF erA, of 0] by (simp add: LLC_BANKS_def)
  have dB: "distinct (concat (esB # rssB))" using erB unfolding eviction_rings_def by simp
  have diff: "\<forall>j<LLC_BANKS. set (walk hA (map hd (esA # rssA) ! 0) WAYS_PER_BANK)
                      \<noteq> set (walk hB (map hd (esB # rssB) ! j) WAYS_PER_BANK)"
  proof (intro allI impI)
    fix j assume j: "j < LLC_BANKS"
    note wB = eviction_rings_nth [OF erB j]
    show "set (walk hA (map hd (esA # rssA) ! 0) WAYS_PER_BANK)
            \<noteq> set (walk hB (map hd (esB # rssB) ! j) WAYS_PER_BANK)"
      unfolding wA wB
    proof (cases j)
      case 0
      with a0 b0 show "set esA \<noteq> set ((esB # rssB) ! j)" by auto
    next
      case (Suc i)
      have "length (esB # rssB) = LLC_BANKS" using erB unfolding eviction_rings_def by simp
      with j Suc have "rssB ! i \<in> set rssB" by simp
      with dB b1 have "?nx \<notin> set (rssB ! i)" by auto
      with a1 Suc show "set esA \<noteq> set ((esB # rssB) ! j)" by auto
    qed
  qed
  show ?thesis
    by (intro exI conjI) (rule runA runB diff)+
qed


section \<open>The interface of GetEvictionSet\<close>

text \<open>
  Claim C10. \<^verbatim>\<open>GetEvictionSet\<close> called with \<^verbatim>\<open>*array\<close> not null fails its first assertion; called
  with \<^verbatim>\<open>*array\<close> null and a set index that is not below \<^verbatim>\<open>SETS_PER_BANK\<close> it fails the
  set-index assertion; both abort instead of returning. A call that returns had a null
  \<^verbatim>\<open>*array\<close> and a set index in range, and leaves in \<^verbatim>\<open>*array\<close> the region it allocated.
\<close>

theorem GetEvictionSet_precondition:
  "(array_in \<noteq> 0 \<longrightarrow>
      GetEvictionSet array_in setIndex base shuffle tm h0 = Some (Inl ArrayNotNull)) \<and>
   (array_in = 0 \<and> \<not> setIndex < SETS_PER_BANK \<longrightarrow>
      GetEvictionSet array_in setIndex base shuffle tm h0 = Some (Inl SetIndexOutOfRange)) \<and>
   (GetEvictionSet array_in setIndex base shuffle tm h0 = Some (Inr (evictionSetHeads, array_out, h, k)) \<longrightarrow>
      array_in = 0 \<and> setIndex < SETS_PER_BANK \<and> array_out = base)"
proof (intro conjI impI)
  assume "GetEvictionSet array_in setIndex base shuffle tm h0 = Some (Inr (evictionSetHeads, array_out, h, k))"
  then have a: "array_in = 0" and s: "setIndex < SETS_PER_BANK"
    and "\<exists>c. GetEvictionSet_from c base shuffle tm h0 = Some (Inr (evictionSetHeads, array_out, h, k))"
    by (auto simp: GetEvictionSet_def split: if_splits sum.splits)
  then obtain c where "GetEvictionSet_from c base shuffle tm h0 = Some (Inr (evictionSetHeads, array_out, h, k))"
    by blast
  then have "array_out = base"
    by (auto simp: GetEvictionSet_from_def bindr_def Let_def
             split: if_splits sum.splits option.splits Option.bind_splits prod.splits)
  with a s show "array_in = 0" "setIndex < SETS_PER_BANK" "array_out = base" by simp_all
qed (simp_all add: GetEvictionSet_def)

theorem GetEvictionSet_precondition_witness:
  "GetEvictionSet 4096 27 0x7F3A40000000 (\<lambda>n. []) (\<lambda>k. 0) \<lparr>next_of = id, prev_of = id\<rparr> = Some (Inl ArrayNotNull) \<and>
   GetEvictionSet 0 2048 0x7F3A40000000 (\<lambda>n. []) (\<lambda>k. 0) \<lparr>next_of = id, prev_of = id\<rparr> = Some (Inl SetIndexOutOfRange)"
  using GetEvictionSet_precondition [of 4096 27 "0x7F3A40000000" "\<lambda>n. []" "\<lambda>k. 0" "\<lparr>next_of = id, prev_of = id\<rparr>"]
        GetEvictionSet_precondition [of 0 2048 "0x7F3A40000000" "\<lambda>n. []" "\<lambda>k. 0" "\<lparr>next_of = id, prev_of = id\<rparr>"]
  by (simp add: SETS_PER_BANK_def)

end
